(* ===== verification/ZPrelude.thy ===== *)
theory ZPrelude
  imports Main "HOL-Library.Word" "HOL-Library.Monad_Syntax"
begin

text \<open>
  Shared vocabulary of the development: the width of C's integers, arrays with bounds,
  the loops the sources use, and the outcome of a kernel entry point.

  Undefined behaviour of C (a NULL or wild pointer dereferenced, an array index out of
  range, a loop that never ends) is the value \<open>None\<close> of an \<open>option\<close> result, so a
  theorem that an operation returns \<open>Some\<close> says that none of it happens.
\<close>

named_theorems zeos_const \<open>the numeric constants of the header files\<close>
named_theorems zeos_ops \<open>definitions of the small accessors that proofs unfold\<close>

section \<open>C integers\<close>

text \<open>
  A C \<open>int\<close> is an \<open>int\<close>; \<open>s32\<close> and \<open>u32\<close> are the conversions to 32-bit
  signed (two's complement) and unsigned, written where a value may leave the range.
\<close>

definition s32 :: "int \<Rightarrow> int" where
  "s32 x = signed_take_bit 31 x"

definition u32 :: "int \<Rightarrow> int" where
  "u32 x = take_bit 32 x"

definition in_int :: "int \<Rightarrow> bool" where
  "in_int x \<longleftrightarrow> - (2 ^ 31) \<le> x \<and> x < 2 ^ 31"

lemma s32_id [simp]: "in_int x \<Longrightarrow> s32 x = x"
  unfolding in_int_def s32_def by (rule signed_take_bit_int_eq_self) auto

lemma u32_id [simp]: "0 \<le> x \<Longrightarrow> x < 2 ^ 32 \<Longrightarrow> u32 x = x"
  unfolding u32_def by (simp add: take_bit_int_eq_self)

lemma s32_in_int [simp]: "in_int (s32 x)"
  using signed_take_bit_int_greater_eq_minus_exp [of 31 x] signed_take_bit_int_less_exp [of 31 x]
  by (simp add: in_int_def s32_def)

lemma u32_bounds [simp]: "0 \<le> u32 x" "u32 x < 4294967296"
  using take_bit_int_less_exp [of 32 x] by (simp_all add: u32_def)

lemma s32_word: "s32 x = sint (word_of_int x :: 32 word)"
  by (simp add: s32_def signed_of_int)

lemma u32_word: "u32 x = uint (word_of_int x :: 32 word)"
  by (simp add: u32_def unsigned_of_int)

text \<open>Division of C rounds towards zero; the remainder has the sign of the dividend.\<close>

definition cdiv :: "int \<Rightarrow> int \<Rightarrow> int" where
  "cdiv a b = (if (a < 0) = (b < 0) then \<bar>a\<bar> div \<bar>b\<bar> else - (\<bar>a\<bar> div \<bar>b\<bar>))"

definition cmod :: "int \<Rightarrow> int \<Rightarrow> int" where
  "cmod a b = a - b * cdiv a b"

lemma cdiv_nonneg [simp]: "0 \<le> a \<Longrightarrow> 0 < b \<Longrightarrow> cdiv a b = a div b"
  by (simp add: cdiv_def)

lemma cmod_nonneg [simp]: "0 \<le> a \<Longrightarrow> 0 < b \<Longrightarrow> cmod a b = a mod b"
  by (simp add: cmod_def minus_mult_div_eq_mod)

section \<open>Arrays\<close>

text \<open>
  A C array \<open>T a[n]\<close> is a function from the index, read and written through \<open>rd n\<close>
  and \<open>wr n\<close>, which are \<open>None\<close> outside \<open>0 .. n-1\<close>.
\<close>

type_synonym 'a arr = "int \<Rightarrow> 'a"

definition rd :: "int \<Rightarrow> 'a arr \<Rightarrow> int \<Rightarrow> 'a option" where
  "rd n a i = (if 0 \<le> i \<and> i < n then Some (a i) else None)"

definition wr :: "int \<Rightarrow> 'a arr \<Rightarrow> int \<Rightarrow> 'a \<Rightarrow> 'a arr option" where
  "wr n a i v = (if 0 \<le> i \<and> i < n then Some (a(i := v)) else None)"

lemma rd_in [simp]: "0 \<le> i \<Longrightarrow> i < n \<Longrightarrow> rd n a i = Some (a i)"
  by (simp add: rd_def)

lemma wr_in [simp]: "0 \<le> i \<Longrightarrow> i < n \<Longrightarrow> wr n a i v = Some (a(i := v))"
  by (simp add: wr_def)

lemma rd_SomeD: "rd n a i = Some v \<Longrightarrow> 0 \<le> i \<and> i < n \<and> v = a i"
  by (simp add: rd_def split: if_splits)

lemma wr_SomeD: "wr n a i v = Some b \<Longrightarrow> 0 \<le> i \<and> i < n \<and> b = a(i := v)"
  by (simp add: wr_def split: if_splits)

lemma rd_None_iff [simp]: "rd n a i = None \<longleftrightarrow> \<not> (0 \<le> i \<and> i < n)"
  by (simp add: rd_def)

section \<open>Loops\<close>

text \<open>\<open>for (k = i; k < n; k++) s = f(k, s)\<close>, with a body that cannot go wrong.\<close>

function for_to :: "int \<Rightarrow> int \<Rightarrow> (int \<Rightarrow> 's \<Rightarrow> 's) \<Rightarrow> 's \<Rightarrow> 's" where
  "for_to i n f s = (if i < n then for_to (i + 1) n f (f i s) else s)"
  by pat_completeness auto
termination
  by (relation "measure (\<lambda>(i, n, f, s). nat (n - i))") auto

declare for_to.simps [simp del]

lemma for_to_done [simp]: "n \<le> i \<Longrightarrow> for_to i n f s = s"
  by (simp add: for_to.simps)

lemma for_to_step: "i < n \<Longrightarrow> for_to i n f s = for_to (i + 1) n f (f i s)"
  by (simp add: for_to.simps [of i])

text \<open>The same loop with a body that may hit undefined behaviour.\<close>

function for_opt :: "int \<Rightarrow> int \<Rightarrow> (int \<Rightarrow> 's \<Rightarrow> 's option) \<Rightarrow> 's \<Rightarrow> 's option" where
  "for_opt i n f s = (if i < n then Option.bind (f i s) (for_opt (i + 1) n f) else Some s)"
  by pat_completeness auto
termination
  by (relation "measure (\<lambda>(i, n, f, s). nat (n - i))") auto

declare for_opt.simps [simp del]

lemma for_opt_done [simp]: "n \<le> i \<Longrightarrow> for_opt i n f s = Some s"
  by (simp add: for_opt.simps)

lemma for_opt_step: "i < n \<Longrightarrow> for_opt i n f s = Option.bind (f i s) (for_opt (i + 1) n f)"
  by (simp add: for_opt.simps [of i])

text \<open>Loop rules: an invariant indexed by the loop variable.\<close>

lemma for_to_inv:
  assumes "I i s" "i \<le> n" "\<And>k t. i \<le> k \<Longrightarrow> k < n \<Longrightarrow> I k t \<Longrightarrow> I (k + 1) (f k t)"
  shows "I n (for_to i n f s)"
  using assms
proof (induction i n f s rule: for_to.induct)
  case (1 i n f s)
  show ?case
  proof (cases "i < n")
    case True
    have "I (i + 1) (f i s)" using "1.prems" True by simp
    then have "I n (for_to (i + 1) n f (f i s))"
      by (rule "1.IH" [OF True]) (use "1.prems" True in auto)
    then show ?thesis by (simp add: for_to_step True)
  next
    case False
    then show ?thesis using "1.prems" by simp
  qed
qed

lemma for_opt_inv:
  assumes "I i s" "i \<le> n"
    and "\<And>k t. i \<le> k \<Longrightarrow> k < n \<Longrightarrow> I k t \<Longrightarrow> \<exists>t'. f k t = Some t' \<and> I (k + 1) t'"
  shows "\<exists>t. for_opt i n f s = Some t \<and> I n t"
  using assms
proof (induction i n f s rule: for_opt.induct)
  case (1 i n f s)
  show ?case
  proof (cases "i < n")
    case True
    then obtain t where t: "f i s = Some t" "I (i + 1) t" using "1.prems" by blast
    have "\<exists>u. for_opt (i + 1) n f t = Some u \<and> I n u"
      by (rule "1.IH" [OF True t]) (use "1.prems" True in auto)
    then show ?thesis by (simp add: for_opt_step True t)
  next
    case False
    then show ?thesis using "1.prems" by simp
  qed
qed

text \<open>Filling an array: \<open>for (k = i; k < n; k++) a[k] = g(k);\<close>\<close>

lemma for_opt_keeps:
  assumes "for_opt i n f s = Some t" "I s" "\<And>k s s'. i \<le> k \<Longrightarrow> k < n \<Longrightarrow> f k s = Some s' \<Longrightarrow> I s \<Longrightarrow> I s'"
  shows "I t"
  using assms
proof (induction i n f s rule: for_opt.induct)
  case (1 i n f s)
  show ?case
  proof (cases "i < n")
    case True
    then obtain s1 where s1: "f i s = Some s1" "for_opt (i + 1) n f s1 = Some t"
      using "1.prems"(1) by (auto simp: for_opt_step bind_eq_Some_conv)
    have "I s1" using "1.prems"(2,3) s1(1) True by blast
    then show ?thesis
    proof (rule "1.IH" [OF True s1])
      show "I s'" if "i + 1 \<le> k" "k < n" "f k s = Some s'" "I s" for k s s'
        using "1.prems"(3) [of k s s'] that by simp
    qed
  qed (use "1.prems" in simp)
qed

lemma for_to_fill:
  "for_to i n (\<lambda>k a. a(k := g k)) a = (\<lambda>k. if i \<le> k \<and> k < n then g k else a k)"
proof (induction i n "\<lambda>k (a :: int \<Rightarrow> 'a). a(k := g k)" a rule: for_to.induct)
  case (1 i n a)
  then show ?case by (cases "i < n") (auto simp: for_to_step fun_eq_iff)
qed

text \<open>Searching an array: \<open>for (k = i; k < n && c(k); k++);\<close> with the final \<open>k\<close>.\<close>

function scan :: "int \<Rightarrow> int \<Rightarrow> (int \<Rightarrow> bool) \<Rightarrow> int" where
  "scan i n c = (if i < n \<and> c i then scan (i + 1) n c else i)"
  by pat_completeness auto
termination
  by (relation "measure (\<lambda>(i, n, c). nat (n - i))") auto

declare scan.simps [simp del]

lemma scan_spec:
  "i \<le> n \<Longrightarrow> i \<le> scan i n c \<and> scan i n c \<le> n \<and> (\<forall>k. i \<le> k \<and> k < scan i n c \<longrightarrow> c k) \<and>
    (scan i n c < n \<longrightarrow> \<not> c (scan i n c))"
proof (induction i n c rule: scan.induct)
  case (1 i n c)
  show ?case
  proof (cases "i < n \<and> c i")
    case True
    then have IH: "i + 1 \<le> scan (i + 1) n c \<and> scan (i + 1) n c \<le> n \<and>
        (\<forall>k. i + 1 \<le> k \<and> k < scan (i + 1) n c \<longrightarrow> c k) \<and>
        (scan (i + 1) n c < n \<longrightarrow> \<not> c (scan (i + 1) n c))"
      using "1.IH" by auto
    have "c k" if "i \<le> k" "k < scan (i + 1) n c" for k
      using that True IH by (cases "k = i") auto
    with True IH show ?thesis by (simp add: scan.simps [of i])
  next
    case False
    then show ?thesis using "1.prems" by (auto simp: scan.simps [of i])
  qed
qed

lemma scan_ge: "i \<le> n \<Longrightarrow> i \<le> scan i n c"
  and scan_le: "i \<le> n \<Longrightarrow> scan i n c \<le> n"
  and scan_before: "i \<le> n \<Longrightarrow> i \<le> k \<Longrightarrow> k < scan i n c \<Longrightarrow> c k"
  and scan_hit: "i \<le> n \<Longrightarrow> scan i n c \<noteq> n \<Longrightarrow> \<not> c (scan i n c)"
  using scan_spec [of i n c] by auto

lemma scan_found:
  assumes "scan 0 n c \<noteq> n" "0 \<le> n"
  shows "0 \<le> scan 0 n c \<and> scan 0 n c < n \<and> \<not> c (scan 0 n c) \<and> (\<forall>i. 0 \<le> i \<and> i < scan 0 n c \<longrightarrow> c i)"
  using scan_spec [of 0 n c] assms by auto

lemma scan_full_iff: "i \<le> n \<Longrightarrow> scan i n c = n \<longleftrightarrow> (\<forall>k. i \<le> k \<and> k < n \<longrightarrow> c k)"
  using scan_spec [of i n c] by force

lemma scan_first: "i \<le> j \<Longrightarrow> j < n \<Longrightarrow> \<not> c j \<Longrightarrow> scan i n c \<le> j"
  using scan_before [of i n j c] by force

section \<open>Intervals of addresses\<close>

lemma ivl_head: "{p..<p + int (Suc n)} \<subseteq> S \<Longrightarrow> p \<in> S"
  by (rule subsetD) auto

lemma ivl_tail: "{p..<p + int (Suc n)} \<subseteq> S \<Longrightarrow> {p + 1..<p + 1 + int n} \<subseteq> S"
  by (rule subset_trans [rotated]) auto

lemma ivl_drop: "{p..<p + n} \<subseteq> S \<Longrightarrow> 0 \<le> k \<Longrightarrow> {p + k..<p + k + (n - k)} \<subseteq> (S :: int set)"
  by (rule subset_trans [rotated]) auto

lemma ivl_take: "{p..<p + n} \<subseteq> S \<Longrightarrow> k \<le> n \<Longrightarrow> {p..<p + k} \<subseteq> (S :: int set)"
  by (rule subset_trans [rotated]) auto

section \<open>Outcome of a kernel entry point\<close>

text \<open>
  A kernel routine returns to its caller, or leaves by a context switch (\<open>task_switch\<close>
  ends in IRET and the code after it never runs), or spins forever in \<open>while(1);\<close>.
\<close>

datatype 'a outcome = Return 'a | Switched | Halted

lemma bind_SomeD: "Option.bind x f = Some y \<Longrightarrow> \<exists>v. x = Some v \<and> f v = Some y"
  by (cases x) auto

end
