(* ===== verification/Mm.thy ===== *)
theory Mm
  imports ZPrelude
begin

unbundle bit_operations_syntax

text \<open>
  \<open>zeos/mm.c\<close>, \<open>zeos/include/mm.h\<close>, \<open>mm_address.h\<close>, \<open>types.h\<close>, \<open>segment.h\<close>:
  the byte map of physical frames and its allocator, the page directory and page table,
  the segment descriptor of the TSS and the TSS itself, and the RAM that the page table
  makes visible. The macros of the headers are abbreviations. Addresses the linker
  chooses (\<open>&task\<close>, \<open>&pagusr_table\<close>, \<open>&tss\<close>) are arguments.

  The locale \<open>frame_pool\<close> is the contract of the frame allocator that \<open>sys_fork\<close>,
  \<open>sys_exit\<close> and \<open>init_task0\<close> rely on, interpreted on \<open>alloc_frame\<close> and
  \<open>free_frame\<close>.
\<close>

section \<open>Constants\<close>

abbreviation (input) "TOTAL_PAGES \<equiv> (1024 :: int)"
abbreviation (input) "NUM_PAG_KERNEL \<equiv> (256 :: int)"
abbreviation (input) "L_USER_START \<equiv> (1048576 :: int)"  \<comment> \<open>0x100000\<close>
abbreviation (input) "PAG_LOG_INIT_CODE_P0 \<equiv> (256 :: int)"  \<comment> \<open>L_USER_START >> 12\<close>
abbreviation (input) "NUM_PAG_CODE \<equiv> (8 :: int)"
abbreviation (input) "PAG_LOG_INIT_DATA_P0 \<equiv> (264 :: int)"  \<comment> \<open>PAG_LOG_INIT_CODE_P0 + NUM_PAG_CODE\<close>
abbreviation (input) "NUM_PAG_DATA \<equiv> (20 :: int)"
abbreviation (input) "PAGE_SIZE \<equiv> (4096 :: int)"
abbreviation (input) "NR_TASKS \<equiv> (10 :: int)"
abbreviation (input) "KERNEL_STACK_SIZE \<equiv> (1024 :: int)"
abbreviation (input) "ENTRY_DIR_PAGES \<equiv> (0 :: int)"
abbreviation (input) "FREE_FRAME \<equiv> (0 :: 8 word)"
abbreviation (input) "USED_FRAME \<equiv> (1 :: 8 word)"
abbreviation (input) "KERNEL_CS \<equiv> (0x10 :: 16 word)"
abbreviation (input) "KERNEL_DS \<equiv> (0x18 :: 16 word)"
abbreviation (input) "USER_CS \<equiv> (0x23 :: 16 word)"
abbreviation (input) "USER_DS \<equiv> (0x2B :: 16 word)"
abbreviation (input) "KERNEL_TSS \<equiv> (0x30 :: 16 word)"
abbreviation (input) "USER_ESP \<equiv> (0x11BFF0 :: 32 word)"
  \<comment> \<open>L_USER_START + (NUM_PAG_CODE + NUM_PAG_DATA) * 0x1000 - 16\<close>

section \<open>Data\<close>

text \<open>A page table entry is the 32-bit word \<open>entry\<close> of the union; the bit fields are
  read and written at their positions.\<close>

type_synonym pte = "32 word"

definition pte_present :: "pte \<Rightarrow> bool" where "pte_present e \<longleftrightarrow> bit e 0"
definition pte_rw :: "pte \<Rightarrow> bool" where "pte_rw e \<longleftrightarrow> bit e 1"
definition pte_user :: "pte \<Rightarrow> bool" where "pte_user e \<longleftrightarrow> bit e 2"
definition pte_base :: "pte \<Rightarrow> int" where "pte_base e = uint (drop_bit 12 e)"

definition set_flag :: "nat \<Rightarrow> bool \<Rightarrow> pte \<Rightarrow> pte" where
  "set_flag n b e = (if b then Bit_Operations.set_bit n e else Bit_Operations.unset_bit n e)"

definition set_base :: "int \<Rightarrow> pte \<Rightarrow> pte" where
  "set_base f e = take_bit 12 e OR push_bit 12 (word_of_int f)"

record Descriptor =
  limit :: "16 word"
  lowBase :: "16 word"
  midBase :: "8 word"
  flags1 :: "8 word"
  flags2 :: "8 word"
  highBase :: "8 word"

record Register =
  reg_limit :: "16 word"
  reg_base :: "32 word"

record TSS =
  PreviousTaskLink :: "16 word"
  esp0 :: "32 word"
  ss0 :: "16 word"
  esp1 :: "32 word"
  ss1 :: "16 word"
  esp2 :: "32 word"
  ss2 :: "16 word"
  tss_cr3 :: "32 word"
  eip :: "32 word"
  eFlags :: "32 word"
  tss_eax :: "32 word"
  tss_ecx :: "32 word"
  tss_edx :: "32 word"
  tss_ebx :: "32 word"
  tss_esp :: "32 word"
  tss_ebp :: "32 word"
  tss_esi :: "32 word"
  tss_edi :: "32 word"
  tss_es :: "16 word"
  tss_cs :: "16 word"
  tss_ss :: "16 word"
  tss_ds :: "16 word"
  tss_fs :: "16 word"
  tss_gs :: "16 word"
  LDTSegmentSelector :: "16 word"
  debugTrap :: "16 word"
  IOMapBaseAddress :: "16 word"

text \<open>
  The state of \<open>mm.c\<close>; \<open>ram\<close> is the machine's physical memory by physical address,
  \<open>cr3\<close> and \<open>cr0\<close> the control registers it writes, \<open>gdt_reg\<close> and \<open>task_reg\<close>
  what \<open>set_gdt_reg\<close> and \<open>set_task_reg\<close> load.
\<close>

record mm_state =
  phys_mem :: "8 word arr"
  dir_pages :: "pte arr"
  pagusr_table :: "pte arr"
  gdt :: "Descriptor arr"
  gdtR :: Register
  tss :: TSS
  ram :: "int \<Rightarrow> 8 word"
  cr3 :: "32 word"
  cr0 :: "32 word"
  gdt_reg :: "Register option"
  task_reg :: "16 word option"

section \<open>Paging\<close>

definition del_ss_pag :: "int \<Rightarrow> mm_state \<Rightarrow> mm_state option" where
  "del_ss_pag logical_page m = do {
     t \<leftarrow> wr TOTAL_PAGES (pagusr_table m) logical_page 0;
     Some (m\<lparr>pagusr_table := t\<rparr>)
   }"

definition init_dir_pages :: "int \<Rightarrow> mm_state \<Rightarrow> mm_state" where
  "init_dir_pages pagusr_table_addr m =
     m\<lparr>dir_pages := (dir_pages m)(ENTRY_DIR_PAGES :=
        set_flag 0 True (set_flag 1 True (set_flag 2 True
          (set_base (u32 pagusr_table_addr div 4096) 0))))\<rparr>"

text \<open>The page holding \<open>task[i].task_protect\<close>: the array has elements of two pages.\<close>

definition protect_page :: "int \<Rightarrow> int \<Rightarrow> int" where
  "protect_page task_addr i = u32 (task_addr + i * 8192) div 4096"

definition init_table_pages :: "int \<Rightarrow> mm_state \<Rightarrow> mm_state option" where
  "init_table_pages task_addr m = do {
     let t = for_to 0 TOTAL_PAGES (\<lambda>i t. t(i := 0)) (pagusr_table m);
     let t = for_to 0 NUM_PAG_KERNEL (\<lambda>i t. t(i :=
        set_flag 0 True (set_flag 1 True (set_base i (t i))))) t;
     t \<leftarrow> for_opt 0 NR_TASKS (\<lambda>i t. do {
        let page = protect_page task_addr i;
        e \<leftarrow> rd TOTAL_PAGES t page;
        wr TOTAL_PAGES t page (set_flag 0 False (set_flag 1 False (set_base page e)))
      }) t;
     Some (m\<lparr>pagusr_table := t\<rparr>)
   }"

definition set_ss_pag :: "int \<Rightarrow> int \<Rightarrow> mm_state \<Rightarrow> mm_state option" where
  "set_ss_pag page frame m = do {
     t \<leftarrow> wr TOTAL_PAGES (pagusr_table m) page
       (set_flag 0 True (set_flag 1 True (set_flag 2 True (set_base frame 0))));
     Some (m\<lparr>pagusr_table := t\<rparr>)
   }"

definition set_cr3 :: "32 word \<Rightarrow> mm_state \<Rightarrow> mm_state" where
  "set_cr3 dir_pages_addr m = m\<lparr>cr3 := dir_pages_addr\<rparr>"

definition set_pe_flag :: "mm_state \<Rightarrow> mm_state" where
  "set_pe_flag m = m\<lparr>cr0 := cr0 m OR 0x80000000\<rparr>"

section \<open>Physical frames\<close>

definition init_frames :: "mm_state \<Rightarrow> mm_state" where
  "init_frames m = m\<lparr>phys_mem :=
     for_to 0 NUM_PAG_KERNEL (\<lambda>i a. a(i := USED_FRAME))
       (for_to 0 TOTAL_PAGES (\<lambda>i a. a(i := FREE_FRAME)) (phys_mem m))\<rparr>"

definition initialize_P0_frames :: "mm_state \<Rightarrow> int \<times> mm_state" where
  "initialize_P0_frames m = (NUM_PAG_KERNEL, m\<lparr>phys_mem :=
     for_to 0 NUM_PAG_CODE (\<lambda>i a. a(NUM_PAG_KERNEL + i := USED_FRAME)) (phys_mem m)\<rparr>)"

text \<open>The search loop of \<open>alloc_frame\<close>, which only looks at every second frame.\<close>

function alloc_frame_from :: "int \<Rightarrow> mm_state \<Rightarrow> int \<times> mm_state" where
  "alloc_frame_from i m =
     (if i < TOTAL_PAGES
      then if phys_mem m i = FREE_FRAME
           then (i, m\<lparr>phys_mem := (phys_mem m)(i := USED_FRAME)\<rparr>)
           else alloc_frame_from (i + 2) m
      else (-1, m))"
  by pat_completeness auto
termination
  by (relation "measure (\<lambda>(i, m). nat (TOTAL_PAGES - i))") auto

declare alloc_frame_from.simps [simp del]

definition alloc_frame :: "mm_state \<Rightarrow> int \<times> mm_state" where
  "alloc_frame m = alloc_frame_from NUM_PAG_KERNEL m"

text \<open>The parameter of \<open>free_frame\<close> is unsigned: \<open>-1\<close> becomes \<open>2^32 - 1\<close>.\<close>

definition free_frame :: "int \<Rightarrow> mm_state \<Rightarrow> mm_state option" where
  "free_frame frame m = do {
     a \<leftarrow> wr TOTAL_PAGES (phys_mem m) (u32 frame) FREE_FRAME;
     Some (m\<lparr>phys_mem := a\<rparr>)
   }"

definition set_user_pages :: "mm_state \<Rightarrow> mm_state" where
  "set_user_pages m =
     (let (first_ph_page, m) = for_to PAG_LOG_INIT_CODE_P0 PAG_LOG_INIT_DATA_P0
            (\<lambda>pag (ph, m). (ph + 1, m\<lparr>pagusr_table := (pagusr_table m)(pag :=
               set_flag 0 True (set_flag 2 True (set_base ph 0)))\<rparr>)) (NUM_PAG_KERNEL, m)
      in for_to PAG_LOG_INIT_DATA_P0 (PAG_LOG_INIT_DATA_P0 + NUM_PAG_DATA)
            (\<lambda>pag m. let (f, m) = alloc_frame m in m\<lparr>pagusr_table := (pagusr_table m)(pag :=
               set_flag 0 True (set_flag 1 True (set_flag 2 True (set_base f 0))))\<rparr>) m)"

definition init_mm :: "int \<Rightarrow> int \<Rightarrow> 32 word \<Rightarrow> mm_state \<Rightarrow> mm_state option" where
  "init_mm task_addr pagusr_table_addr dir_pages_addr m = do {
     m \<leftarrow> init_table_pages task_addr m;
     let m = init_frames m;
     let m = init_dir_pages pagusr_table_addr m;
     let m = set_cr3 dir_pages_addr m;
     Some (set_pe_flag m)
   }"

section \<open>Segmentation and TSS\<close>

definition lowWord :: "32 word \<Rightarrow> 16 word" where "lowWord a = ucast (a AND 0xFFFF)"
definition highWord :: "32 word \<Rightarrow> 16 word" where "highWord a = ucast (drop_bit 16 a AND 0xFFFF)"
definition midByte :: "32 word \<Rightarrow> 8 word" where "midByte a = ucast (drop_bit 16 a AND 0xFF)"
definition highByte :: "32 word \<Rightarrow> 8 word" where "highByte a = ucast (drop_bit (16 + 8) a AND 0xFF)"

definition set_gdt_reg :: "Register \<Rightarrow> mm_state \<Rightarrow> mm_state" where [simp]:
  "set_gdt_reg r m = m\<lparr>gdt_reg := Some r\<rparr>"

definition set_task_reg :: "16 word \<Rightarrow> mm_state \<Rightarrow> mm_state" where [simp]:
  "set_task_reg sel m = m\<lparr>task_reg := Some sel\<rparr>"

definition setGdt :: "32 word \<Rightarrow> 32 word \<Rightarrow> mm_state \<Rightarrow> mm_state" where
  "setGdt tss_addr gdt_addr m =
     (let i = uint (drop_bit 3 KERNEL_TSS);
          r = \<lparr>reg_limit = 256 * 8, reg_base = gdt_addr\<rparr>
      in set_gdt_reg r (m\<lparr>gdt := (gdt m)(i := (gdt m i)\<lparr>lowBase := lowWord tss_addr,
             midBase := midByte tss_addr, highBase := highByte tss_addr\<rparr>),
           gdtR := r\<rparr>))"

definition setTSS :: "32 word \<Rightarrow> mm_state \<Rightarrow> mm_state" where
  "setTSS kernel_esp m =
     set_task_reg KERNEL_TSS (m\<lparr>tss := \<lparr>PreviousTaskLink = 0, esp0 = kernel_esp, ss0 = KERNEL_DS, esp1 = 0, ss1 = 0,
         esp2 = 0, ss2 = 0, tss_cr3 = 0, eip = 0, eFlags = 0x200, tss_eax = 0, tss_ecx = 0,
         tss_edx = 0, tss_ebx = 0, tss_esp = USER_ESP, tss_ebp = USER_ESP, tss_esi = 0,
         tss_edi = 0, tss_es = USER_DS, tss_cs = USER_CS, tss_ss = USER_DS, tss_ds = USER_DS,
         tss_fs = 0, tss_gs = 0, LDTSegmentSelector = KERNEL_TSS, debugTrap = 0,
         IOMapBaseAddress = 0\<rparr>\<rparr>)"

section \<open>The address space the page table gives\<close>

text \<open>
  What the processor does with the table: the single directory entry covers the first 4 MB;
  a supervisor access succeeds on every present page. \<open>None\<close> is a page fault.
\<close>

definition translate :: "mm_state \<Rightarrow> int \<Rightarrow> int option" where
  "translate m va =
     (let e = pagusr_table m (va div PAGE_SIZE)
      in if 0 \<le> va \<and> va < TOTAL_PAGES * PAGE_SIZE \<and> pte_present e
         then Some (pte_base e * PAGE_SIZE + va mod PAGE_SIZE) else None)"

definition vread :: "mm_state \<Rightarrow> int \<Rightarrow> 8 word option" where
  "vread m va = map_option (ram m) (translate m va)"

definition vwrite :: "mm_state \<Rightarrow> int \<Rightarrow> 8 word \<Rightarrow> mm_state option" where
  "vwrite m va b = map_option (\<lambda>pa. m\<lparr>ram := (ram m)(pa := b)\<rparr>) (translate m va)"

section \<open>Page table entries\<close>

lemma flag_set_flag [simp]: "n < 32 \<Longrightarrow> bit (set_flag n b e) k \<longleftrightarrow> (if k = n then b else bit e k)"
  by (auto simp: set_flag_def bit_set_bit_iff bit_unset_bit_iff)

lemma bit_set_base [simp]: "bit (set_base f e) k \<longleftrightarrow> (if k < 12 then bit e k else k < 32 \<and> bit f (k - 12))"
  by (auto simp: set_base_def bit_or_iff bit_take_bit_iff bit_push_bit_iff bit_word_of_int_iff)

lemma pte_flags [simp]:
  "n < 32 \<Longrightarrow> pte_present (set_flag n b e) = (if n = 0 then b else pte_present e)"
  "n < 32 \<Longrightarrow> pte_rw (set_flag n b e) = (if n = 1 then b else pte_rw e)"
  "n < 32 \<Longrightarrow> pte_user (set_flag n b e) = (if n = 2 then b else pte_user e)"
  "pte_present (set_base f e) = pte_present e" "pte_rw (set_base f e) = pte_rw e"
  "pte_user (set_base f e) = pte_user e"
  by (simp_all add: pte_present_def pte_rw_def pte_user_def)

lemma pte_base_set_flag [simp]: "n < 12 \<Longrightarrow> pte_base (set_flag n b e) = pte_base e"
  by (simp add: pte_base_def) (rule arg_cong [where f = uint], rule bit_word_eqI,
      auto simp: bit_drop_bit_eq)

lemma pte_base_set_base: "pte_base (set_base f e) = f mod 2 ^ 20"
proof -
  have "drop_bit 12 (set_base f e) = take_bit 20 (word_of_int f :: pte)"
    by (rule bit_word_eqI) (auto simp: bit_drop_bit_eq bit_take_bit_iff bit_word_of_int_iff)
  then have "pte_base (set_base f e) = take_bit 20 (take_bit 32 f)"
    by (simp only: pte_base_def unsigned_take_bit_eq unsigned_of_int) simp
  then show ?thesis by (simp only: take_bit_take_bit) (simp add: take_bit_eq_mod)
qed

lemma pte_zero [simp]: "\<not> pte_present 0" "\<not> pte_rw 0" "\<not> pte_user 0" "pte_base 0 = 0"
  by (simp_all add: pte_present_def pte_rw_def pte_user_def pte_base_def)

lemma set_ss_pag_eq:
  "0 \<le> pg \<Longrightarrow> pg < TOTAL_PAGES \<Longrightarrow> set_ss_pag pg f m = Some (m\<lparr>pagusr_table := (pagusr_table m)(pg :=
     set_flag 0 True (set_flag 1 True (set_flag 2 True (set_base f 0))))\<rparr>)"
  by (simp add: set_ss_pag_def)

lemma del_ss_pag_eq:
  "0 \<le> pg \<Longrightarrow> pg < TOTAL_PAGES \<Longrightarrow> del_ss_pag pg m = Some (m\<lparr>pagusr_table := (pagusr_table m)(pg := 0)\<rparr>)"
  by (simp add: del_ss_pag_def)

section \<open>The frame allocator\<close>

text \<open>The frames the allocator can hand out: free, above the kernel, and even.\<close>

definition avail :: "mm_state \<Rightarrow> int set" where
  "avail m = {f. NUM_PAG_KERNEL \<le> f \<and> f < TOTAL_PAGES \<and> even f \<and> phys_mem m f = FREE_FRAME}"

lemma finite_avail [simp]: "finite (avail m)"
  by (rule finite_subset [of _ "{NUM_PAG_KERNEL..<TOTAL_PAGES}"]) (auto simp: avail_def)

lemma avail_bounds: "f \<in> avail m \<Longrightarrow> 256 \<le> f \<and> f < 1024"
  by (simp add: avail_def)

text \<open>Everything of the state but the frame map.\<close>

definition mm_rest :: "mm_state \<Rightarrow> mm_state" where
  "mm_rest m = m\<lparr>phys_mem := (\<lambda>_. 0)\<rparr>"

lemma alloc_frame_from_cases:
  assumes "even i"
  shows "(alloc_frame_from i m = (-1, m) \<and> (\<forall>f. i \<le> f \<and> f < TOTAL_PAGES \<and> even f \<longrightarrow> phys_mem m f \<noteq> FREE_FRAME)) \<or>
    (\<exists>f. i \<le> f \<and> f < TOTAL_PAGES \<and> even f \<and> phys_mem m f = FREE_FRAME \<and>
       (\<forall>g. i \<le> g \<and> g < f \<and> even g \<longrightarrow> phys_mem m g \<noteq> FREE_FRAME) \<and>
       alloc_frame_from i m = (f, m\<lparr>phys_mem := (phys_mem m)(f := USED_FRAME)\<rparr>))"
  using assms
proof (induction i m rule: alloc_frame_from.induct)
  case (1 i m)
  have skip: "i = g \<or> i + 2 \<le> g" if "i \<le> g" "even g" for g
    using that "1.prems" by presburger
  consider "\<not> i < TOTAL_PAGES" | "i < TOTAL_PAGES" "phys_mem m i = FREE_FRAME"
    | "i < TOTAL_PAGES" "phys_mem m i \<noteq> FREE_FRAME" by blast
  then show ?case
  proof cases
    case 1
    then show ?thesis by (auto simp: alloc_frame_from.simps [of i])
  next
    case 2
    then have "alloc_frame_from i m = (i, m\<lparr>phys_mem := (phys_mem m)(i := USED_FRAME)\<rparr>)"
      by (simp add: alloc_frame_from.simps [of i])
    moreover have "\<forall>g. i \<le> g \<and> g < i \<and> even g \<longrightarrow> phys_mem m g \<noteq> FREE_FRAME" by auto
    ultimately show ?thesis using 2 "1.prems" by blast
  next
    case 3
    have e: "alloc_frame_from i m = alloc_frame_from (i + 2) m"
      using 3 by (simp add: alloc_frame_from.simps [of i])
    have "even (i + 2)" using "1.prems" by simp
    from "1.IH" [OF 3 this] show ?thesis
    proof (elim disjE exE conjE, goal_cases)
      case 1
      then show ?case using skip 3(2) e by metis
    next
      case (2 f)
      show ?case
        using 2 skip 3(2) e by (intro disjI2 exI [of _ f]) (auto dest: skip)
    qed
  qed
qed

lemma alloc_frame_none: "avail m = {} \<Longrightarrow> alloc_frame m = (-1, m)"
  using alloc_frame_from_cases [of NUM_PAG_KERNEL m] by (auto simp: alloc_frame_def avail_def)

lemma alloc_frame_some:
  assumes "avail m \<noteq> {}"
  obtains f where "f \<in> avail m" "\<forall>g\<in>avail m. f \<le> g"
    "alloc_frame m = (f, m\<lparr>phys_mem := (phys_mem m)(f := USED_FRAME)\<rparr>)"
proof -
  from assms alloc_frame_from_cases [of NUM_PAG_KERNEL m] obtain f where f:
    "f \<in> avail m" "\<forall>g. NUM_PAG_KERNEL \<le> g \<and> g < f \<and> even g \<longrightarrow> phys_mem m g \<noteq> FREE_FRAME"
    "alloc_frame m = (f, m\<lparr>phys_mem := (phys_mem m)(f := USED_FRAME)\<rparr>)"
    by (auto simp: alloc_frame_def avail_def)
  have "\<forall>g\<in>avail m. f \<le> g"
    using f(2) by (force simp: avail_def)
  with f(1,3) show ?thesis using that by blast
qed

lemma avail_use: "avail (m\<lparr>phys_mem := (phys_mem m)(f := USED_FRAME)\<rparr>) = avail m - {f}"
  by (auto simp: avail_def)

lemma free_frame_in: "0 \<le> f \<Longrightarrow> f < TOTAL_PAGES \<Longrightarrow>
    free_frame f m = Some (m\<lparr>phys_mem := (phys_mem m)(f := FREE_FRAME)\<rparr>)"
  by (simp add: free_frame_def)

text \<open>The allocator in terms of the set of available frames: the least one, if any.\<close>

lemma alloc_frame_Min:
  "alloc_frame m = (if avail m = {} then (-1, m)
     else (Min (avail m), m\<lparr>phys_mem := (phys_mem m)(Min (avail m) := USED_FRAME)\<rparr>))"
proof (cases "avail m = {}")
  case True
  then show ?thesis by (simp add: alloc_frame_none)
next
  case False
  then obtain f where f: "f \<in> avail m" "\<forall>g\<in>avail m. f \<le> g"
    "alloc_frame m = (f, m\<lparr>phys_mem := (phys_mem m)(f := USED_FRAME)\<rparr>)"
    by (rule alloc_frame_some) blast
  then have "Min (avail m) = f" by (intro Min_eqI) auto
  with f False show ?thesis by simp
qed

subsection \<open>The contract of a frame pool, and allocating several frames\<close>

text \<open>
  The allocation loop of \<open>sys_fork\<close>: \<open>n\<close> frames are taken one by one; when one is
  missing, those taken are given back, the last first, and the result is \<open>None\<close>.
\<close>

fun release :: "(int \<Rightarrow> 's \<Rightarrow> 's option) \<Rightarrow> int list \<Rightarrow> 's \<Rightarrow> 's option" where
  "release free [] s = Some s"
| "release free (f # fs) s = Option.bind (free f s) (release free fs)"

fun take_frames :: "('s \<Rightarrow> int \<times> 's) \<Rightarrow> (int \<Rightarrow> 's \<Rightarrow> 's option) \<Rightarrow> nat \<Rightarrow> int list \<Rightarrow> 's \<Rightarrow>
    (int list option \<times> 's) option" where
  "take_frames alloc free 0 taken s = Some (Some (rev taken), s)"
| "take_frames alloc free (Suc n) taken s =
     (let (f, s) = alloc s
      in if f = -1 then map_option (Pair None) (release free taken s)
         else take_frames alloc free n (f # taken) s)"

locale frame_pool =
  fixes alloc :: "'s \<Rightarrow> int \<times> 's"
    and free :: "int \<Rightarrow> 's \<Rightarrow> 's option"
    and pool :: "'s \<Rightarrow> int set"
    and rest :: "'s \<Rightarrow> 'r"
  assumes pool_finite: "finite (pool s)"
    and pool_nonneg: "f \<in> pool s \<Longrightarrow> 0 \<le> f"
    and alloc_empty: "pool s = {} \<Longrightarrow> alloc s = (-1, s)"
    and alloc_pool: "alloc s = (f, s') \<Longrightarrow> pool s \<noteq> {} \<Longrightarrow> f \<in> pool s \<and> pool s' = pool s - {f}"
    and alloc_rest: "rest (snd (alloc s)) = rest s"
    and free_alloc: "alloc s = (f, s') \<Longrightarrow> pool s \<noteq> {} \<Longrightarrow> free f s' = Some s"
begin

lemma alloc_minus_one_iff: "fst (alloc s) = -1 \<longleftrightarrow> pool s = {}"
proof
  assume m1: "fst (alloc s) = -1"
  show "pool s = {}"
  proof (rule ccontr)
    assume "pool s \<noteq> {}"
    with alloc_pool [of s "-1" "snd (alloc s)"] m1 have "-1 \<in> pool s" by (metis prod.collapse)
    with pool_nonneg show False by fastforce
  qed
qed (simp add: alloc_empty)

lemma take_frames_enough:
  assumes "n \<le> card (pool s)"
  obtains fs s' where "take_frames alloc free n taken s = Some (Some (rev taken @ fs), s')"
    and "length fs = n" and "distinct fs" and "set fs \<subseteq> pool s" and "pool s' = pool s - set fs"
    and "rest s' = rest s"
  using assms
proof (induction n arbitrary: taken s thesis)
  case 0
  show ?case by (rule "0.prems"(1) [of "[]" s]) simp_all
next
  case (Suc n)
  obtain f t where ft: "alloc s = (f, t)" by (cases "alloc s")
  have ne: "pool s \<noteq> {}" using Suc.prems(2) by auto
  note p = alloc_pool [OF ft ne]
  have "f \<noteq> -1" using alloc_minus_one_iff [of s] ft ne by simp
  have "n \<le> card (pool t)" using Suc.prems(2) p pool_finite [of s] by auto
  from Suc.IH [OF _ this, of "f # taken"] obtain fs u where
    IH: "take_frames alloc free n (f # taken) t = Some (Some (rev (f # taken) @ fs), u)"
      "length fs = n" "distinct fs" "set fs \<subseteq> pool t" "pool u = pool t - set fs" "rest u = rest t"
    by metis
  have "rest t = rest s" using alloc_rest [of s] ft by simp
  show ?case
    by (rule Suc.prems(1) [of "f # fs" u])
      (use IH p ft \<open>f \<noteq> -1\<close> \<open>rest t = rest s\<close> in auto)
qed

text \<open>Not enough frames: the pool is as before the first allocation.\<close>

lemma take_frames_rollback:
  assumes "card (pool s) < n" and "release free taken s = Some s0"
  shows "take_frames alloc free n taken s = Some (None, s0)"
  using assms
proof (induction n arbitrary: taken s)
  case 0
  then show ?case by simp
next
  case (Suc n)
  obtain f t where ft: "alloc s = (f, t)" by (cases "alloc s")
  show ?case
  proof (cases "pool s = {}")
    case True
    with ft alloc_empty have "f = -1" "t = s" by auto
    with ft Suc.prems show ?thesis by simp
  next
    case False
    note p = alloc_pool [OF ft False]
    have "f \<noteq> -1" using alloc_minus_one_iff [of s] ft False by simp
    have "card (pool t) = card (pool s) - 1" "0 < card (pool s)"
      using p pool_finite [of s] False by (simp_all add: card_gt_0_iff)
    with Suc.prems(1) have "card (pool t) < n" by linarith
    moreover have "release free (f # taken) t = Some s0"
      using free_alloc [OF ft False] Suc.prems(2) by simp
    ultimately have "take_frames alloc free n (f # taken) t = Some (None, s0)" by (rule Suc.IH)
    with ft \<open>f \<noteq> -1\<close> show ?thesis by simp
  qed
qed

end

interpretation fp: frame_pool alloc_frame free_frame avail mm_rest
proof unfold_locales
  fix m m' :: mm_state and f :: int
  show "finite (avail m)" by simp
  show "f \<in> avail m \<Longrightarrow> 0 \<le> f" by (simp add: avail_def)
  show "avail m = {} \<Longrightarrow> alloc_frame m = (-1, m)" by (rule alloc_frame_none)
  show "mm_rest (snd (alloc_frame m)) = mm_rest m" by (simp add: alloc_frame_Min mm_rest_def)
  assume a: "alloc_frame m = (f, m')" and ne: "avail m \<noteq> {}"
  from ne obtain g where g: "g \<in> avail m"
    "alloc_frame m = (g, m\<lparr>phys_mem := (phys_mem m)(g := USED_FRAME)\<rparr>)"
    by (rule alloc_frame_some) blast
  with a have fg: "f = g" "m' = m\<lparr>phys_mem := (phys_mem m)(f := USED_FRAME)\<rparr>" by auto
  with g show "f \<in> avail m \<and> avail m' = avail m - {f}" by (simp add: avail_use)
  have "(phys_mem m)(f := FREE_FRAME) = phys_mem m"
    using g fg by (auto simp: avail_def fun_eq_iff)
  then show "free_frame f m' = Some m" using g fg avail_bounds [of g m] by (simp add: free_frame_in)
qed

section \<open>Initialisation\<close>

lemma init_frames_phys_mem:
  "phys_mem (init_frames m) = (\<lambda>i. if 0 \<le> i \<and> i < 256 then USED_FRAME
     else if 0 \<le> i \<and> i < 1024 then FREE_FRAME else phys_mem m i)"
  by (auto simp: init_frames_def for_to_fill)

text \<open>
  The frames handed out by a fresh allocator, in order: when exactly the even frames from
  \<open>a\<close> on are free, the next one is \<open>a\<close>.
\<close>

definition free_from :: "int \<Rightarrow> mm_state \<Rightarrow> bool" where
  "free_from a m \<longleftrightarrow> (\<forall>i. 256 \<le> i \<and> i < 1024 \<and> even i \<longrightarrow> (phys_mem m i = FREE_FRAME \<longleftrightarrow> a \<le> i))"

lemma free_from_alloc:
  assumes "free_from a m" "256 \<le> a" "a < 1024" "even a"
  shows "alloc_frame m = (a, m\<lparr>phys_mem := (phys_mem m)(a := USED_FRAME)\<rparr>)"
    and "free_from (a + 2) (m\<lparr>phys_mem := (phys_mem m)(a := USED_FRAME)\<rparr>)"
proof -
  have av: "avail m = {i. a \<le> i \<and> i < 1024 \<and> even i}"
    using assms by (auto simp: avail_def free_from_def)
  then have "a \<in> avail m" using assms by auto
  moreover have "\<forall>x\<in>avail m. a \<le> x" by (simp add: av)
  ultimately have "Min (avail m) = a" "avail m \<noteq> {}" by (auto intro: Min_eqI)
  then show "alloc_frame m = (a, m\<lparr>phys_mem := (phys_mem m)(a := USED_FRAME)\<rparr>)"
    by (simp add: alloc_frame_Min)
  have "a + 2 \<le> i \<longleftrightarrow> a \<le> i \<and> i \<noteq> a" if "even i" for i using that assms(4) by presburger
  note step = this
  show "free_from (a + 2) (m\<lparr>phys_mem := (phys_mem m)(a := USED_FRAME)\<rparr>)"
    unfolding free_from_def
  proof (intro allI impI)
    fix i :: int
    assume i: "256 \<le> i \<and> i < 1024 \<and> even i"
    then show "phys_mem (m\<lparr>phys_mem := (phys_mem m)(a := USED_FRAME)\<rparr>) i = FREE_FRAME \<longleftrightarrow> a + 2 \<le> i"
      using assms(1) step [of i] by (simp add: free_from_def)
  qed
qed

lemma free_from_table [simp]: "free_from a (m\<lparr>pagusr_table := t\<rparr>) = free_from a m"
  by (simp add: free_from_def)

lemma free_from_P0: "free_from 264 (snd (initialize_P0_frames (init_frames m)))"
  by (auto simp: free_from_def initialize_P0_frames_def init_frames_phys_mem for_to_step)

definition user_pte :: "int \<Rightarrow> pte" where
  "user_pte f = set_flag 0 True (set_flag 1 True (set_flag 2 True (set_base f 0)))"

definition code_pte :: "int \<Rightarrow> pte" where
  "code_pte f = set_flag 0 True (set_flag 2 True (set_base f 0))"

lemma user_pte [simp]: "pte_present (user_pte f)" "pte_rw (user_pte f)" "pte_user (user_pte f)"
  by (simp_all add: user_pte_def)

lemma pte_base_user_pte: "0 \<le> f \<Longrightarrow> f < 2 ^ 20 \<Longrightarrow> pte_base (user_pte f) = f"
  by (simp add: user_pte_def pte_base_set_base)

lemma code_pte [simp]: "pte_present (code_pte f)" "\<not> pte_rw (code_pte f)" "pte_user (code_pte f)"
  by (simp_all add: code_pte_def)

lemma pte_base_code_pte: "0 \<le> f \<Longrightarrow> f < 2 ^ 20 \<Longrightarrow> pte_base (code_pte f) = f"
  by (simp add: code_pte_def pte_base_set_base)

lemma set_ss_pag_user: "0 \<le> pg \<Longrightarrow> pg < TOTAL_PAGES \<Longrightarrow>
    set_ss_pag pg f m = Some (m\<lparr>pagusr_table := (pagusr_table m)(pg := user_pte f)\<rparr>)"
  by (simp add: set_ss_pag_eq user_pte_def)

text \<open>The state between the two loops of \<open>set_user_pages\<close>, and the effect of the second.\<close>

lemma set_user_pages_data:
  assumes ff: "free_from 264 m"
  defines "m' \<equiv> for_to 264 284 (\<lambda>pag m. let (f, m) = alloc_frame m in
     m\<lparr>pagusr_table := (pagusr_table m)(pag := user_pte f)\<rparr>) m"
  shows "free_from 304 m'"
    and "pagusr_table m' = (\<lambda>p. if 264 \<le> p \<and> p < 284 then user_pte (264 + 2 * (p - 264)) else pagusr_table m p)"
    and "mm_rest (m'\<lparr>pagusr_table := t\<rparr>) = mm_rest (m\<lparr>pagusr_table := t\<rparr>)"
proof -
  let ?I = "\<lambda>k m'. free_from (264 + 2 * (k - 264)) m' \<and>
     pagusr_table m' = (\<lambda>p. if 264 \<le> p \<and> p < k then user_pte (264 + 2 * (p - 264)) else pagusr_table m p) \<and>
     mm_rest (m'\<lparr>pagusr_table := t\<rparr>) = mm_rest (m\<lparr>pagusr_table := t\<rparr>)"
  have "?I 284 m'"
    unfolding m'_def
  proof (rule for_to_inv)
    show "?I 264 m" using ff by (auto simp: fun_eq_iff)
    fix k u
    assume k: "264 \<le> k" "k < 284" and I: "?I k u"
    let ?a = "264 + 2 * (k - 264)"
    have al: "alloc_frame u = (?a, u\<lparr>phys_mem := (phys_mem u)(?a := USED_FRAME)\<rparr>)"
      and fr: "free_from (?a + 2) (u\<lparr>phys_mem := (phys_mem u)(?a := USED_FRAME)\<rparr>)"
      using free_from_alloc [of ?a u] I k by auto
    have "?a + 2 = 264 + 2 * (k + 1 - 264)" by simp
    then show "?I (k + 1) (let (f, m) = alloc_frame u in m\<lparr>pagusr_table := (pagusr_table m)(k := user_pte f)\<rparr>)"
      using fr I k by (auto simp: al mm_rest_def fun_eq_iff)
  qed simp
  then show "free_from 304 m'"
    and "pagusr_table m' = (\<lambda>p. if 264 \<le> p \<and> p < 284 then user_pte (264 + 2 * (p - 264)) else pagusr_table m p)"
    and "mm_rest (m'\<lparr>pagusr_table := t\<rparr>) = mm_rest (m\<lparr>pagusr_table := t\<rparr>)" by auto
qed

lemma set_user_pages_eq:
  "set_user_pages m = for_to 264 284 (\<lambda>pag m. let (f, m) = alloc_frame m in
     m\<lparr>pagusr_table := (pagusr_table m)(pag := user_pte f)\<rparr>)
     (m\<lparr>pagusr_table := (pagusr_table m)(256 := code_pte 256, 257 := code_pte 257,
        258 := code_pte 258, 259 := code_pte 259, 260 := code_pte 260, 261 := code_pte 261,
        262 := code_pte 262, 263 := code_pte 263)\<rparr>)"
  by (simp add: set_user_pages_def for_to_step [where n = 264] code_pte_def user_pte_def)

lemma mm_rest_table: "mm_rest m' = mm_rest m \<Longrightarrow> pagusr_table m' = pagusr_table m"
  by (cases m; cases m') (simp add: mm_rest_def)

lemma mm_rest_tss: "mm_rest m' = mm_rest m \<Longrightarrow> tss m' = tss m"
  by (cases m; cases m') (simp add: mm_rest_def)

lemma mm_rest_ram: "mm_rest m' = mm_rest m \<Longrightarrow> ram m' = ram m"
  by (cases m; cases m') (simp add: mm_rest_def)

text \<open>Booting: task 0 is given the data frames 264, 266, .., 302.\<close>

lemma set_user_pages_boot:
  fixes m0
  defines "m \<equiv> set_user_pages (snd (initialize_P0_frames (init_frames m0)))"
  shows "free_from 304 m" "264 \<le> p \<Longrightarrow> p < 284 \<Longrightarrow> pagusr_table m p = user_pte (264 + 2 * (p - 264))"
    "256 \<le> p \<Longrightarrow> p < 264 \<Longrightarrow> pagusr_table m p = code_pte p"
    "p < 256 \<Longrightarrow> pagusr_table m p = pagusr_table m0 p" "ram m = ram m0" "tss m = tss m0"
proof -
  have ff: "free_from 264 (snd (initialize_P0_frames (init_frames m0))\<lparr>pagusr_table := t\<rparr>)" for t
    using free_from_P0 by simp
  show "free_from 304 m"
    unfolding m_def set_user_pages_eq by (rule set_user_pages_data(1) [OF ff])
  have t: "pagusr_table m = (\<lambda>p. if 264 \<le> p \<and> p < 284 then user_pte (264 + 2 * (p - 264)) else
    ((pagusr_table (snd (initialize_P0_frames (init_frames m0))))(256 := code_pte 256, 257 := code_pte 257,
        258 := code_pte 258, 259 := code_pte 259, 260 := code_pte 260, 261 := code_pte 261,
        262 := code_pte 262, 263 := code_pte 263)) p)"
    unfolding m_def set_user_pages_eq by (subst set_user_pages_data(2) [OF ff]) (rule ext, simp)
  show "264 \<le> p \<Longrightarrow> p < 284 \<Longrightarrow> pagusr_table m p = user_pte (264 + 2 * (p - 264))" by (simp add: t)
  show "p < 256 \<Longrightarrow> pagusr_table m p = pagusr_table m0 p" by (simp add: t initialize_P0_frames_def init_frames_def)
  have "ram (m\<lparr>pagusr_table := u\<rparr>) = ram m0" for u
    unfolding m_def set_user_pages_eq
    by (subst mm_rest_ram [OF set_user_pages_data(3) [OF ff]]) (simp add: initialize_P0_frames_def init_frames_def)
  then show "ram m = ram m0" by simp
  have "tss (m\<lparr>pagusr_table := u\<rparr>) = tss m0" for u
    unfolding m_def set_user_pages_eq
    by (subst mm_rest_tss [OF set_user_pages_data(3) [OF ff]]) (simp add: initialize_P0_frames_def init_frames_def)
  then show "tss m = tss m0" by simp
  assume p: "256 \<le> p" "p < 264"
  then have "p \<in> {256, 257, 258, 259, 260, 261, 262, 263}" by auto
  then show "pagusr_table m p = code_pte p" by (auto simp: t)
qed

section \<open>The memory map after the boot\<close>

text \<open>A page that holds the guard of a task structure.\<close>

definition guard_page :: "int \<Rightarrow> int \<Rightarrow> bool" where
  "guard_page ta p \<longleftrightarrow> (\<exists>i. 0 \<le> i \<and> i < NR_TASKS \<and> p = protect_page ta i)"

definition kernel_pte :: "int \<Rightarrow> pte" where
  "kernel_pte p = set_flag 0 True (set_flag 1 True (set_base p 0))"

lemma protect_page_eq:
  assumes "4096 dvd ta" "0 \<le> ta" "ta + 81920 \<le> 1048576" "0 \<le> i" "i < 10"
  shows "protect_page ta i = ta div 4096 + 2 * i" and "0 \<le> protect_page ta i" and "protect_page ta i < 256"
proof -
  have "u32 (ta + i * 8192) = ta + i * 8192" using assms by simp
  then show e: "protect_page ta i = ta div 4096 + 2 * i" unfolding protect_page_def using assms(1) by auto
  show "0 \<le> protect_page ta i" "protect_page ta i < 256" unfolding e using assms by auto
qed

lemma init_table_kernel:
  "for_to 0 256 (\<lambda>i t. t(i := set_flag 0 True (set_flag 1 True (set_base i (t i))))) (for_to 0 1024 (\<lambda>i t. t(i := 0)) t1) =
    (\<lambda>p. if 0 \<le> p \<and> p < 256 then kernel_pte p else if 0 \<le> p \<and> p < 1024 then 0 else t1 p)"
proof -
  let ?t0 = "for_to 0 1024 (\<lambda>i t. t(i := 0)) t1"
  have t0: "?t0 = (\<lambda>p. if 0 \<le> p \<and> p < 1024 then 0 else t1 p)" by (rule for_to_fill)
  let ?J = "\<lambda>j t. 0 \<le> j \<and> t = (\<lambda>p. if 0 \<le> p \<and> p < j then kernel_pte p else ?t0 p)"
  have "?J 256 (for_to 0 256 (\<lambda>i t. t(i := set_flag 0 True (set_flag 1 True (set_base i (t i))))) ?t0)"
  proof (rule for_to_inv [where I = ?J])
    fix j t
    assume j: "0 \<le> j" "j < 256" and "?J j t"
    then have t: "t = (\<lambda>p. if 0 \<le> p \<and> p < j then kernel_pte p else ?t0 p)" by blast
    have "t j = 0" using j unfolding t t0 by simp
    then show "?J (j + 1) (t(j := set_flag 0 True (set_flag 1 True (set_base j (t j)))))"
      using j unfolding t by (auto simp: fun_eq_iff kernel_pte_def)
  qed (auto simp: fun_eq_iff)
  then show ?thesis unfolding t0 by (auto simp: fun_eq_iff)
qed

lemma init_table_pages_eq:
  assumes ta: "4096 dvd ta" "0 \<le> ta" "ta + 81920 \<le> 1048576"
  obtains t where "init_table_pages ta m = Some (m\<lparr>pagusr_table := t\<rparr>)"
    and "\<forall>p. 0 \<le> p \<and> p < 1024 \<longrightarrow> (pte_present (t p) \<longleftrightarrow> p < 256 \<and> \<not> guard_page ta p) \<and> \<not> pte_user (t p)"
    and "\<forall>p. 0 \<le> p \<and> p < 256 \<longrightarrow> pte_base (t p) = p"
proof -
  let ?t1 = "\<lambda>p. if 0 \<le> p \<and> p < 256 then kernel_pte p else if 0 \<le> p \<and> p < 1024 then 0 else pagusr_table m p"
  let ?body = "\<lambda>i t. let page = protect_page ta i in Option.bind (rd 1024 t page)
     (\<lambda>e. wr 1024 t page (set_flag 0 False (set_flag 1 False (set_base page e))))"
  let ?I = "\<lambda>j t. 0 \<le> j \<and> (\<forall>p. (pte_present (t p) \<longleftrightarrow> pte_present (?t1 p) \<and> (\<forall>i. 0 \<le> i \<and> i < j \<longrightarrow> p \<noteq> protect_page ta i)) \<and>
     pte_user (t p) = pte_user (?t1 p) \<and> (0 \<le> p \<and> p < 256 \<longrightarrow> pte_base (t p) = p))"
  note t1 = init_table_kernel [of "pagusr_table m"]
  have base: "pte_base (kernel_pte p) = p" if "0 \<le> p" "p < 256" for p
    using that by (simp add: kernel_pte_def pte_base_set_base)
  have "\<exists>t. for_opt 0 10 ?body ?t1 = Some t \<and> ?I 10 t"
  proof (rule for_opt_inv [where I = ?I])
    show "?I 0 ?t1" using base by auto
    fix j t
    assume j: "0 \<le> j" "j < 10" and I: "?I j t"
    let ?p = "protect_page ta j" and ?e = "set_flag 0 False (set_flag 1 False (set_base (protect_page ta j) (t (protect_page ta j))))"
    note pp = protect_page_eq [OF ta j]
    have "?body j t = Some (t(?p := ?e))" using pp by (simp add: Let_def)
    moreover have "?I (j + 1) (t(?p := ?e))"
    proof (intro conjI allI)
      show "0 \<le> j + 1" using j by simp
      fix p
      have less: "(\<forall>i. 0 \<le> i \<and> i < j + 1 \<longrightarrow> p \<noteq> protect_page ta i) \<longleftrightarrow>
          (\<forall>i. 0 \<le> i \<and> i < j \<longrightarrow> p \<noteq> protect_page ta i) \<and> p \<noteq> ?p"
        using j by (metis zless_add1_eq)
      show "pte_present ((t(?p := ?e)) p) \<longleftrightarrow> pte_present (?t1 p) \<and> (\<forall>i. 0 \<le> i \<and> i < j + 1 \<longrightarrow> p \<noteq> protect_page ta i)"
        unfolding less using I by (cases "p = ?p") simp_all
      show "pte_user ((t(?p := ?e)) p) = pte_user (?t1 p)" using I by (cases "p = ?p") simp_all
      show "0 \<le> p \<and> p < 256 \<longrightarrow> pte_base ((t(?p := ?e)) p) = p"
        using I pp by (cases "p = ?p") (simp_all add: pte_base_set_base)
    qed
    ultimately show "\<exists>t'. ?body j t = Some t' \<and> ?I (j + 1) t'" by blast
  qed simp
  then obtain t where t: "for_opt 0 10 ?body ?t1 = Some t" "?I 10 t" by blast
  show ?thesis
  proof (rule that)
    show "init_table_pages ta m = Some (m\<lparr>pagusr_table := t\<rparr>)"
      unfolding init_table_pages_def Let_def t1 using t(1) by (simp add: Let_def)
    show "\<forall>p. 0 \<le> p \<and> p < 1024 \<longrightarrow> (pte_present (t p) \<longleftrightarrow> p < 256 \<and> \<not> guard_page ta p) \<and> \<not> pte_user (t p)"
    proof (intro allI impI)
      fix p :: int
      assume "0 \<le> p \<and> p < 1024"
      then show "(pte_present (t p) \<longleftrightarrow> p < 256 \<and> \<not> guard_page ta p) \<and> \<not> pte_user (t p)"
        using t(2) by (auto simp: guard_page_def kernel_pte_def)
    qed
    show "\<forall>p. 0 \<le> p \<and> p < 256 \<longrightarrow> pte_base (t p) = p" using t(2) by blast
  qed
qed

text \<open>The globals and the machine before \<open>init_mm\<close>: static storage starts as zeros.\<close>

definition blank_mm :: mm_state where
  "blank_mm = \<lparr>phys_mem = (\<lambda>_. 0), dir_pages = (\<lambda>_. 0), pagusr_table = (\<lambda>_. 0),
     gdt = (\<lambda>_. \<lparr>limit = 0, lowBase = 0, midBase = 0, flags1 = 0, flags2 = 0, highBase = 0\<rparr>),
     gdtR = \<lparr>reg_limit = 0, reg_base = 0\<rparr>,
     tss = \<lparr>PreviousTaskLink = 0, esp0 = 0, ss0 = 0, esp1 = 0, ss1 = 0, esp2 = 0, ss2 = 0, tss_cr3 = 0, eip = 0,
       eFlags = 0, tss_eax = 0, tss_ecx = 0, tss_edx = 0, tss_ebx = 0, tss_esp = 0, tss_ebp = 0,
       tss_esi = 0, tss_edi = 0, tss_es = 0, tss_cs = 0, tss_ss = 0, tss_ds = 0, tss_fs = 0, tss_gs = 0,
       LDTSegmentSelector = 0, debugTrap = 0, IOMapBaseAddress = 0\<rparr>, ram = (\<lambda>_. 0), cr3 = 0, cr0 = 0,
     gdt_reg = None, task_reg = None\<rparr>"

text \<open>C22: after \<open>init_mm\<close> the kernel sees exactly its first megabyte, mapped one to one,
  without the ten guard pages before the task structures; no page is open to user code, exactly the frames above
  the kernel are free, and paging is on.\<close>

theorem init_mm_maps_kernel:
  assumes "4096 dvd ta" "0 \<le> ta" "ta + 81920 \<le> 1048576"
  shows "\<exists>m'. init_mm ta pa da m = Some m' \<and>
    (\<forall>va. translate m' va = (if 0 \<le> va \<and> va < 1048576 \<and> \<not> guard_page ta (va div 4096) then Some va else None)) \<and>
    (\<forall>p. 0 \<le> p \<and> p < 1024 \<longrightarrow> \<not> pte_user (pagusr_table m' p)) \<and>
    (\<forall>f. 0 \<le> f \<and> f < 1024 \<longrightarrow> (phys_mem m' f = FREE_FRAME \<longleftrightarrow> 256 \<le> f)) \<and>
    cr3 m' = da \<and> bit (cr0 m') 31 \<and> pte_base (dir_pages m' 0) = u32 pa div 4096"
proof -
  obtain t where t: "init_table_pages ta m = Some (m\<lparr>pagusr_table := t\<rparr>)"
    "\<forall>p. 0 \<le> p \<and> p < 1024 \<longrightarrow> (pte_present (t p) \<longleftrightarrow> p < 256 \<and> \<not> guard_page ta p) \<and> \<not> pte_user (t p)"
    "\<forall>p. 0 \<le> p \<and> p < 256 \<longrightarrow> pte_base (t p) = p"
    by (rule init_table_pages_eq [OF assms]) blast
  let ?m = "set_pe_flag (set_cr3 da (init_dir_pages pa (init_frames (m\<lparr>pagusr_table := t\<rparr>))))"
  have i: "init_mm ta pa da m = Some ?m" using t(1) by (simp add: init_mm_def Let_def)
  have tab: "pagusr_table ?m = t" by (simp add: set_pe_flag_def set_cr3_def init_dir_pages_def init_frames_def)
  have tr: "translate ?m va = (if 0 \<le> va \<and> va < 1048576 \<and> \<not> guard_page ta (va div 4096) then Some va else None)" for va
  proof (cases "0 \<le> va \<and> va < 4194304")
    case True
    then have p: "0 \<le> va div 4096 \<and> va div 4096 < 1024" "va div 4096 < 256 \<longleftrightarrow> va < 1048576" by auto
    then show ?thesis using t(2,3) True by (auto simp: translate_def tab Let_def)
  next
    case False
    then show ?thesis by (auto simp: translate_def)
  qed
  have us: "\<forall>p. 0 \<le> p \<and> p < 1024 \<longrightarrow> \<not> pte_user (pagusr_table ?m p)" using t(2) tab by simp
  have pm: "phys_mem ?m = phys_mem (init_frames (m\<lparr>pagusr_table := t\<rparr>))" by (simp add: set_pe_flag_def set_cr3_def init_dir_pages_def)
  have fr: "\<forall>f. 0 \<le> f \<and> f < 1024 \<longrightarrow> (phys_mem ?m f = FREE_FRAME \<longleftrightarrow> 256 \<le> f)"
    unfolding pm init_frames_phys_mem by auto
  have "u32 pa div 4096 mod 2 ^ 20 = u32 pa div 4096" proof (rule mod_pos_pos_trivial)
    show "0 \<le> u32 pa div 4096" by (simp add: pos_imp_zdiv_nonneg_iff)
    show "u32 pa div 4096 < 2 ^ 20" using u32_bounds(2) [of pa] by (simp del: u32_bounds)
  qed
  then have r: "cr3 ?m = da" "bit (cr0 ?m) 31" "pte_base (dir_pages ?m 0) = u32 pa div 4096"
    by (simp_all add: set_pe_flag_def set_cr3_def init_dir_pages_def pte_base_set_base bit_or_iff)
  show ?thesis using i tr us fr r by blast
qed

theorem init_mm_maps_kernel_witness:
  "\<exists>m'. init_mm 131072 65536 61440 blank_mm = Some m' \<and> translate m' 131072 = None \<and> translate m' 135168 = Some 135168"
proof -
  have g: "guard_page 131072 32" "\<not> guard_page 131072 33"
    unfolding guard_page_def using protect_page_eq(1) [of 131072] by (auto intro!: exI [of _ 0] simp: protect_page_def) presburger
  obtain m' where m': "init_mm 131072 65536 61440 blank_mm = Some m'"
    "\<forall>va. translate m' va = (if 0 \<le> va \<and> va < 1048576 \<and> \<not> guard_page 131072 (va div 4096) then Some va else None)"
    using init_mm_maps_kernel [of 131072 65536 61440 blank_mm] by auto
  then show ?thesis using g by simp
qed

lemma word_masks: "(0xFFFF :: 32 word) = mask 16" "(0xFF :: 32 word) = mask 8"
  by (simp_all add: mask_eq_exp_minus_1)

text \<open>The three base fields that \<open>setGdt\<close> writes into the TSS descriptor hold the whole
  address of the TSS, and the GDT register gets the table with its limit.\<close>

theorem setGdt_tss_base:
  "(let d = gdt (setGdt a g m) 6 in
      ucast (lowBase d) OR push_bit 16 (ucast (midBase d)) OR push_bit 24 (ucast (highBase d)) = a) \<and>
   gdt_reg (setGdt a g m) = Some \<lparr>reg_limit = 2048, reg_base = g\<rparr>"
proof -
  have i: "uint (drop_bit 3 KERNEL_TSS) = 6" by simp
  have "ucast (lowWord a) OR push_bit 16 (ucast (midByte a)) OR push_bit 24 (ucast (highByte a)) = a"
  proof (rule bit_word_eqI)
    fix n
    assume "n < LENGTH(32)"
    then show "bit (ucast (lowWord a) OR push_bit 16 (ucast (midByte a)) OR push_bit 24 (ucast (highByte a)) :: 32 word) n = bit a n"
      by (cases "n < 16"; cases "n < 24") (auto simp: lowWord_def midByte_def highByte_def word_masks bit_simps)
  qed
  then show ?thesis by (simp add: setGdt_def Let_def)
qed

text \<open>\<open>alloc_frame\<close> returns the least available frame and takes only that one, or -1 and
  changes nothing when there is none; \<open>free_frame\<close> undoes it.\<close>

theorem alloc_frame_least:
  "case alloc_frame m of (f, m') \<Rightarrow>
     if avail m = {} then f = -1 \<and> m' = m
     else f = Min (avail m) \<and> avail m' = avail m - {f} \<and> mm_rest m' = mm_rest m \<and> free_frame f m' = Some m"
proof (cases "avail m = {}")
  case False
  then have M: "Min (avail m) \<in> avail m" by simp
  then have "0 \<le> Min (avail m)" "Min (avail m) < 1024" "phys_mem m (Min (avail m)) = 0" by (auto simp: avail_def)
  then have "free_frame (Min (avail m)) (m\<lparr>phys_mem := (phys_mem m)(Min (avail m) := 1)\<rparr>) = Some m"
    by (simp add: free_frame_in) (metis fun_upd_triv mm_state.surjective mm_state.update_convs(1))
  then show ?thesis using False by (simp add: alloc_frame_Min avail_use mm_rest_def)
qed (simp add: alloc_frame_Min)

end
