(* ===== verification/Utils.thy ===== *)
theory Utils
  imports Mm
begin

text \<open>
  \<open>zeos/utils.c\<close> (and its user-space twin \<open>zeos/stdio.c\<close>): copying between memories,
  checks on user pointers, C strings, decimal output.

  The pointers of a copy may point into user memory, into a kernel buffer or into the disk,
  so the loops take the load and the store of the two memories as arguments \<open>ld\<close> and
  \<open>st\<close>. The locale \<open>byte_copy\<close> states when such a pair behaves (readable source,
  writable destination, no interference) and proves once that the word-wise loops store
  exactly the source bytes; it is interpreted on a flat memory, on the paged address space
  and on copies between separate memories.
\<close>

section \<open>Copying\<close>

type_synonym 's load = "'s \<Rightarrow> int \<Rightarrow> 8 word option"
type_synonym 's store = "'s \<Rightarrow> int \<Rightarrow> 8 word \<Rightarrow> 's option"

text \<open>\<open>*q = *p\<close> on \<open>DWord\<close> pointers: four bytes are loaded, then four are stored.\<close>

definition copy4 :: "'s load \<Rightarrow> 's store \<Rightarrow> int \<Rightarrow> int \<Rightarrow> 's \<Rightarrow> 's option" where
  "copy4 ld st p q s = do {
     b0 \<leftarrow> ld s p; b1 \<leftarrow> ld s (p + 1); b2 \<leftarrow> ld s (p + 2); b3 \<leftarrow> ld s (p + 3);
     s \<leftarrow> st s q b0; s \<leftarrow> st s (q + 1) b1; s \<leftarrow> st s (q + 2) b2; st s (q + 3) b3
   }"

text \<open>\<open>while (size > 4) { *q++ = *p++; size -= 4; }\<close>\<close>

function copy_words :: "'s load \<Rightarrow> 's store \<Rightarrow> int \<Rightarrow> int \<Rightarrow> int \<Rightarrow> 's \<Rightarrow> (int \<times> int \<times> int \<times> 's) option" where
  "copy_words ld st p q n s =
     (if n > 4 then Option.bind (copy4 ld st p q s) (copy_words ld st (p + 4) (q + 4) (n - 4))
      else Some (p, q, n, s))"
  by pat_completeness auto
termination
  by (relation "measure (\<lambda>(ld, st, p, q, n, s). nat n)") auto

text \<open>\<open>while (size > 0) { *q1++ = *p1++; size--; }\<close>\<close>

function copy_bytes :: "'s load \<Rightarrow> 's store \<Rightarrow> int \<Rightarrow> int \<Rightarrow> int \<Rightarrow> 's \<Rightarrow> 's option" where
  "copy_bytes ld st p q n s =
     (if n > 0 then Option.bind (ld s p) (\<lambda>b. Option.bind (st s q b)
        (copy_bytes ld st (p + 1) (q + 1) (n - 1)))
      else Some s)"
  by pat_completeness auto
termination
  by (relation "measure (\<lambda>(ld, st, p, q, n, s). nat n)") auto

declare copy_words.simps [simp del] copy_bytes.simps [simp del]

definition copy_data :: "'s load \<Rightarrow> 's store \<Rightarrow> int \<Rightarrow> int \<Rightarrow> int \<Rightarrow> 's \<Rightarrow> 's option" where
  "copy_data ld st start dest n s = do {
     (p1, q1, n, s) \<leftarrow> copy_words ld st start dest n s;
     copy_bytes ld st p1 q1 n s
   }"

text \<open>\<open>copy_from_user\<close> and \<open>copy_to_user\<close> have the same loops and return 0.\<close>

definition copy_from_user :: "'s load \<Rightarrow> 's store \<Rightarrow> int \<Rightarrow> int \<Rightarrow> int \<Rightarrow> 's \<Rightarrow> (int \<times> 's) option" where
  "copy_from_user ld st start dest n s = do {
     (p1, q1, n, s) \<leftarrow> copy_words ld st start dest n s;
     s \<leftarrow> copy_bytes ld st p1 q1 n s;
     Some (0, s)
   }"

definition copy_to_user :: "'s load \<Rightarrow> 's store \<Rightarrow> int \<Rightarrow> int \<Rightarrow> int \<Rightarrow> 's \<Rightarrow> (int \<times> 's) option" where
  "copy_to_user ld st start dest n s = do {
     (p1, q1, n, s) \<leftarrow> copy_words ld st start dest n s;
     s \<leftarrow> copy_bytes ld st p1 q1 n s;
     Some (0, s)
   }"

section \<open>User pointers\<close>

text \<open>\<open>size > max_bytes\<close> compares an \<open>int\<close> with an \<open>unsigned int\<close>.\<close>

definition check_address :: "int \<Rightarrow> int \<Rightarrow> int" where
  "check_address addr sz =
     (let max_bytes = (NUM_PAG_CODE + NUM_PAG_DATA) * PAGE_SIZE;
          min_usr_addr = L_USER_START;
          max_usr_addr = L_USER_START + max_bytes
      in if u32 addr < min_usr_addr \<or> u32 addr > max_usr_addr \<or> u32 sz > max_bytes then 0 else 1)"

text \<open>
  \<open>access_ok\<close> computes with \<open>&addr\<close>, the place of its own parameter on the kernel
  stack, which is the argument \<open>loc\<close>, and with the logical \<open>&&\<close>.
\<close>

definition access_ok :: "mm_state \<Rightarrow> int \<Rightarrow> int \<Rightarrow> int \<Rightarrow> int \<Rightarrow> int option" where
  "access_ok m loc type addr sz =
     (if addr = 0 then Some 0
      else if s32 loc div 2 ^ 22 > ENTRY_DIR_PAGES then Some 0
      else if check_address addr (s32 sz) = 0 then Some 0
      else
        let min_page = (if u32 loc \<noteq> 0 \<and> 0x003ff000 \<noteq> (0 :: int) then 1 else 0);
            max_page = u32 (min_page + u32 sz) div 2 ^ 12;
            min_page = min_page div 2 ^ 12
        in do {
          e1 \<leftarrow> rd TOTAL_PAGES (pagusr_table m) min_page;
          e2 \<leftarrow> rd TOTAL_PAGES (pagusr_table m) max_page;
          Some (if type = 0
                then if pte_present e1 \<and> pte_present e2 then 1 else 0
                else if type = 1
                then if pte_present e1 \<and> pte_present e2 then
                       if pte_rw e1 \<and> pte_rw e2 then 1 else 0
                     else 0
                else 0)
        })"

section \<open>Strings\<close>

text \<open>\<open>strlen\<close>: \<open>None\<close> when a byte cannot be read or there is no NUL.\<close>

partial_function (option) strlen_from :: "(int \<Rightarrow> 8 word option) \<Rightarrow> int \<Rightarrow> int \<Rightarrow> int option" where
  "strlen_from ld buffer i = Option.bind (ld (buffer + i))
     (\<lambda>b. if b \<noteq> 0 then strlen_from ld buffer (i + 1) else Some i)"

definition strlen :: "(int \<Rightarrow> 8 word option) \<Rightarrow> int \<Rightarrow> int option" where
  "strlen ld buffer = strlen_from ld buffer 0"

partial_function (option) strcmp ::
  "(int \<Rightarrow> 8 word option) \<Rightarrow> (int \<Rightarrow> 8 word option) \<Rightarrow> int \<Rightarrow> int \<Rightarrow> int option" where
  "strcmp ld1 ld2 s1 s2 = Option.bind (ld1 s1) (\<lambda>a. Option.bind (ld2 s2) (\<lambda>b.
     if a = b then if a = 0 then Some 0 else strcmp ld1 ld2 (s1 + 1) (s2 + 1)
     else Some (if uint a < uint b then -1 else 1)))"

section \<open>Decimal output\<close>

function itoa_digits :: "int \<Rightarrow> int" where
  "itoa_digits digits = (if digits > 0 then 1 + itoa_digits (digits div 10) else 0)"
  by pat_completeness auto
termination
  by (relation "measure nat") auto

function itoa_write :: "int \<Rightarrow> int \<Rightarrow> 8 word arr \<Rightarrow> 8 word arr" where
  "itoa_write i num buffer =
     (if i > 0 then itoa_write (i - 1) (num div 10) (buffer(i - 1 := word_of_int (num mod 10 + 48)))
      else buffer)"
  by pat_completeness auto
termination
  by (relation "measure (\<lambda>(i, num, buffer). nat i)") auto

declare itoa_digits.simps [simp del] itoa_write.simps [simp del]

text \<open>Both divisions of \<open>itoa\<close> only see non-negative numbers.\<close>

definition itoa :: "int \<Rightarrow> 8 word arr \<Rightarrow> 8 word arr" where
  "itoa num buffer = itoa_write (itoa_digits num) num buffer"

section \<open>Copy loops against a byte-wise reference\<close>

fun store_list :: "'s store \<Rightarrow> int \<Rightarrow> 8 word list \<Rightarrow> 's \<Rightarrow> 's option" where
  "store_list st q [] s = Some s"
| "store_list st q (b # bs) s = Option.bind (st s q b) (store_list st (q + 1) bs)"

lemma store_list_fun:
  "store_list st q [] = Some"
  "store_list st q (b # bs) = (\<lambda>s. Option.bind (st s q b) (store_list st (q + 1) bs))"
  by auto

fun load_list :: "'s load \<Rightarrow> 's \<Rightarrow> int \<Rightarrow> nat \<Rightarrow> 8 word list option" where
  "load_list ld s p 0 = Some []"
| "load_list ld s p (Suc n) = Option.bind (ld s p) (\<lambda>b. map_option (Cons b) (load_list ld s (p + 1) n))"

locale byte_copy =
  fixes ld :: "'s load" and st :: "'s store" and ok :: "'s \<Rightarrow> int set \<Rightarrow> int set \<Rightarrow> bool"
  assumes ok_load: "ok s S D \<Longrightarrow> a \<in> S \<Longrightarrow> \<exists>b. ld s a = Some b"
    and ok_store: "ok s S D \<Longrightarrow> d \<in> D \<Longrightarrow> \<exists>s'. st s d b = Some s'"
    and ok_keep: "ok s S D \<Longrightarrow> d \<in> D \<Longrightarrow> st s d b = Some s' \<Longrightarrow> ok s' S D"
    and ok_apart: "ok s S D \<Longrightarrow> d \<in> D \<Longrightarrow> st s d b = Some s' \<Longrightarrow> a \<in> S \<Longrightarrow> ld s' a = ld s a"
begin

lemma load_list_ok:
  "ok s S D \<Longrightarrow> {p..<p + int n} \<subseteq> S \<Longrightarrow> \<exists>bs. load_list ld s p n = Some bs \<and> length bs = n"
proof (induction n arbitrary: p)
  case 0
  then show ?case by simp
next
  case (Suc n)
  obtain b where "ld s p = Some b" using ok_load [OF Suc.prems(1) ivl_head [OF Suc.prems(2)]] by blast
  moreover obtain bs where "load_list ld s (p + 1) n = Some bs" "length bs = n"
    using Suc.IH [OF Suc.prems(1) ivl_tail [OF Suc.prems(2)]] by blast
  ultimately show ?case by simp
qed

lemma load_list_keep:
  "ok s S D \<Longrightarrow> d \<in> D \<Longrightarrow> st s d b = Some s' \<Longrightarrow> {p..<p + int n} \<subseteq> S \<Longrightarrow>
   load_list ld s' p n = load_list ld s p n"
proof (induction n arbitrary: p)
  case (Suc n)
  have "ld s' p = ld s p" using ok_apart [OF Suc.prems(1-3) ivl_head [OF Suc.prems(4)]] .
  moreover have "load_list ld s' (p + 1) n = load_list ld s (p + 1) n"
    by (rule Suc.IH [OF Suc.prems(1-3) ivl_tail [OF Suc.prems(4)]])
  ultimately show ?case by simp
qed simp

text \<open>The byte loop stores the source bytes.\<close>

lemma copy_bytes_store:
  assumes "ok s S D" "{p..<p + int n} \<subseteq> S" "{q..<q + int n} \<subseteq> D" "load_list ld s p n = Some bs"
  shows "copy_bytes ld st p q (int n) s = store_list st q bs s"
  using assms
proof (induction n arbitrary: p q s bs)
  case 0
  then show ?case by (simp add: copy_bytes.simps)
next
  case (Suc n)
  obtain b where b: "ld s p = Some b" using ok_load [OF Suc.prems(1) ivl_head [OF Suc.prems(2)]] by blast
  obtain cs where cs: "load_list ld s (p + 1) n = Some cs" "bs = b # cs"
    using Suc.prems(4) b by auto
  have q: "q \<in> D" using ivl_head [OF Suc.prems(3)] .
  obtain t where t: "st s q b = Some t" using ok_store [OF Suc.prems(1) q] by blast
  have sub: "{p + 1..<p + 1 + int n} \<subseteq> S" "{q + 1..<q + 1 + int n} \<subseteq> D" 
    using ivl_tail [OF Suc.prems(2)] ivl_tail [OF Suc.prems(3)] .
  have l: "load_list ld t (p + 1) n = Some cs"
    using load_list_keep [OF Suc.prems(1) q t sub(1)] cs by simp
  have "copy_bytes ld st (p + 1) (q + 1) (int n) t = store_list st (q + 1) cs t"
    using Suc.IH [OF ok_keep [OF Suc.prems(1) q t] sub l] .
  then show ?case by (simp add: copy_bytes.simps [of _ _ p] b t cs)
qed

text \<open>A word step is four byte steps.\<close>

lemma copy4_bytes:
  assumes ok: "ok s S D" and p: "{p..<p + 4} \<subseteq> S" and q: "{q..<q + 4} \<subseteq> D"
  shows "copy4 ld st p q s = copy_bytes ld st p q 4 s"
proof -
  have in4: "p \<in> S" "p + 1 \<in> S" "p + 2 \<in> S" "p + 3 \<in> S"
    "q \<in> D" "q + 1 \<in> D" "q + 2 \<in> D" "q + 3 \<in> D" using p q by auto
  obtain b0 b1 b2 b3 where b: "ld s p = Some b0" "ld s (p + 1) = Some b1"
    "ld s (p + 2) = Some b2" "ld s (p + 3) = Some b3"
    using in4 ok_load [OF ok] by metis
  have "load_list ld s p 4 = Some [b0, b1, b2, b3]"
    using b by (simp add: eval_nat_numeral add.assoc)
  from copy_bytes_store [OF ok _ _ this, of q] p q
  have "copy_bytes ld st p q 4 s = store_list st q [b0, b1, b2, b3] s" by simp
  moreover have "copy4 ld st p q s = Option.bind (st s q b0) (\<lambda>s. Option.bind (st s (q + 1) b1)
      (\<lambda>s. Option.bind (st s (q + 2) b2) (\<lambda>s. st s (q + 3) b3)))"
    by (simp add: copy4_def b)
  ultimately show ?thesis by (simp add: store_list_fun ac_simps)
qed

lemma copy_bytes_split:
  assumes "0 \<le> k" "k \<le> n"
  shows "copy_bytes ld st p q n s =
    Option.bind (copy_bytes ld st p q k s) (copy_bytes ld st (p + k) (q + k) (n - k))"
  using assms
proof (induction k arbitrary: p q n s rule: int_ge_induct [of 0, consumes 1])
  case base
  then show ?case by (simp add: copy_bytes.simps [of _ _ _ _ 0])
next
  case (step k)
  have e: "copy_bytes ld st p q n s = Option.bind (ld s p) (\<lambda>b. Option.bind (st s q b)
      (copy_bytes ld st (p + 1) (q + 1) (n - 1)))"
    "copy_bytes ld st p q (k + 1) s = Option.bind (ld s p) (\<lambda>b. Option.bind (st s q b)
      (copy_bytes ld st (p + 1) (q + 1) k))"
    using step by (simp_all add: copy_bytes.simps [of _ _ p])
  have "copy_bytes ld st (p + 1) (q + 1) (n - 1) t =
      Option.bind (copy_bytes ld st (p + 1) (q + 1) k t) (copy_bytes ld st (p + (k + 1)) (q + (k + 1)) (n - (k + 1)))" for t
    using step.IH [of "n - 1" "p + 1" "q + 1" t] step.prems by (simp add: algebra_simps)
  note tl = this
  show ?case by (simp add: e tl cong: Option.bind_cong)
qed

lemma store_list_ok:
  "ok s S D \<Longrightarrow> {q..<q + int (length bs)} \<subseteq> D \<Longrightarrow> \<exists>t. store_list st q bs s = Some t \<and> ok t S D"
proof (induction bs arbitrary: q s)
  case (Cons b bs)
  have iv: "{q..<q + int (Suc (length bs))} \<subseteq> D" using Cons.prems(2) by simp
  note q = ivl_head [OF iv]
  obtain t where t: "st s q b = Some t" using ok_store [OF Cons.prems(1) q] by blast
  have "\<exists>u. store_list st (q + 1) bs t = Some u \<and> ok u S D"
    by (rule Cons.IH [OF ok_keep [OF Cons.prems(1) q t] ivl_tail [OF iv]])
  with t show ?case by simp
qed simp

text \<open>The two loops of \<open>copy_data\<close> are the byte loop: nothing depends on the word steps.\<close>

lemma copy_data_bytes:
  assumes "ok s S D" "{p..<p + n} \<subseteq> S" "{q..<q + n} \<subseteq> D"
  shows "copy_data ld st p q n s = copy_bytes ld st p q n s"
  using assms
proof (induction "nat n" arbitrary: p q n s rule: less_induct)
  case less
  show ?case
  proof (cases "n > 4")
    case False
    then show ?thesis by (simp add: copy_data_def copy_words.simps [of _ _ p])
  next
    case True
    have sub: "{p..<p + 4} \<subseteq> S" "{q..<q + 4} \<subseteq> D"
      using ivl_take [OF less.prems(2)] ivl_take [OF less.prems(3)] True by simp_all
    obtain bs where bs: "load_list ld s p 4 = Some bs" "length bs = 4"
      using load_list_ok [OF less.prems(1), of p 4] sub by auto
    have c4: "copy4 ld st p q s = copy_bytes ld st p q 4 s"
      by (rule copy4_bytes [OF less.prems(1) sub])
    have u: "copy_data ld st p q n s =
        Option.bind (copy4 ld st p q s) (copy_data ld st (p + 4) (q + 4) (n - 4))"
      using True by (cases "copy4 ld st p q s") (simp_all add: copy_data_def copy_words.simps [of _ _ p])
    have tail: "copy_data ld st (p + 4) (q + 4) (n - 4) t = copy_bytes ld st (p + 4) (q + 4) (n - 4) t"
      if "copy_bytes ld st p q 4 s = Some t" for t
    proof -
      have "store_list st q bs s = Some t"
        using copy_bytes_store [OF less.prems(1) _ _ bs(1), of q] sub that by simp
      then have "ok t S D" using store_list_ok [OF less.prems(1), of q bs] sub(2) bs(2) by auto
      then show ?thesis
        using less.hyps [of "n - 4" t "p + 4" "q + 4"] True
          ivl_drop [OF less.prems(2), of 4] ivl_drop [OF less.prems(3), of 4] by simp
    qed
    have "copy_bytes ld st p q n s =
        Option.bind (copy_bytes ld st p q 4 s) (copy_bytes ld st (p + 4) (q + 4) (n - 4))"
      using copy_bytes_split [of 4 n p q s] True by simp
    then show ?thesis
      using tail by (cases "copy_bytes ld st p q 4 s") (simp_all add: u c4)
  qed
qed

text \<open>The contract of the copy: the source bytes arrive, in order, at the destination.\<close>

lemma copy_data_store:
  assumes "ok s S D" "{p..<p + n} \<subseteq> S" "{q..<q + n} \<subseteq> D"
  obtains bs t where "load_list ld s p (nat n) = Some bs" and "length bs = nat n"
    and "store_list st q bs s = Some t" and "copy_data ld st p q n s = Some t" and "ok t S D"
proof -
  have iv: "{p..<p + int (nat n)} \<subseteq> S" "{q..<q + int (nat n)} \<subseteq> D"
    using assms(2,3) by (cases "0 \<le> n"; simp)+
  obtain bs where bs: "load_list ld s p (nat n) = Some bs" "length bs = nat n"
    using load_list_ok [OF assms(1) iv(1)] by blast
  obtain t where t: "store_list st q bs s = Some t" "ok t S D"
    using store_list_ok [OF assms(1), of q bs] bs(2) iv(2) by auto
  have "copy_data ld st p q n s = copy_bytes ld st p q n s" by (rule copy_data_bytes [OF assms])
  also have "\<dots> = copy_bytes ld st p q (int (nat n)) s"
    by (cases "0 \<le> n") (simp_all add: copy_bytes.simps [of _ _ p])
  also have "\<dots> = Some t" using copy_bytes_store [OF assms(1) iv bs(1)] t by simp
  finally show ?thesis using that bs t by blast
qed

end

text \<open>A flat memory: source and destination must not overlap.\<close>

definition flat_ld :: "(int \<Rightarrow> 8 word) load" where "flat_ld m a = Some (m a)"
definition flat_st :: "(int \<Rightarrow> 8 word) store" where "flat_st m a b = Some (m(a := b))"
definition flat_ok :: "(int \<Rightarrow> 8 word) \<Rightarrow> int set \<Rightarrow> int set \<Rightarrow> bool" where
  "flat_ok m S D \<longleftrightarrow> S \<inter> D = {}"

interpretation flat: byte_copy flat_ld flat_st flat_ok
  by unfold_locales (auto simp: flat_ld_def flat_st_def flat_ok_def)

text \<open>The paged address space: every page present, no frame byte shared.\<close>

definition paged_ok :: "mm_state \<Rightarrow> int set \<Rightarrow> int set \<Rightarrow> bool" where
  "paged_ok m S D \<longleftrightarrow> (\<forall>a\<in>S \<union> D. translate m a \<noteq> None) \<and>
     (\<forall>a\<in>S. \<forall>d\<in>D. translate m a \<noteq> translate m d)"

lemma translate_ram [simp]: "translate (m\<lparr>ram := r\<rparr>) = translate m"
  by (simp add: translate_def fun_eq_iff Let_def)

interpretation paged: byte_copy vread vwrite paged_ok
proof unfold_locales
  fix m m' S D a d b
  assume ok: "paged_ok m S D"
  show "a \<in> S \<Longrightarrow> \<exists>b. vread m a = Some b" using ok by (auto simp: vread_def paged_ok_def)
  assume d: "d \<in> D"
  show "\<exists>m'. vwrite m d b = Some m'" using ok d by (auto simp: vwrite_def paged_ok_def)
  assume w: "vwrite m d b = Some m'"
  then obtain pa where pa: "translate m d = Some pa" "m' = m\<lparr>ram := (ram m)(pa := b)\<rparr>"
    by (auto simp: vwrite_def)
  show "paged_ok m' S D" using ok by (simp add: pa paged_ok_def)
  assume a: "a \<in> S"
  with ok d pa have "translate m a \<noteq> Some pa" unfolding paged_ok_def by metis
  then show "vread m' a = vread m a" by (cases "translate m a") (auto simp: vread_def pa)
qed

text \<open>Bytes stored through an injective translation arrive at their physical addresses.\<close>

lemma store_list_inj:
  "\<forall>i<length bs. translate m (q + int i) = Some (a i) \<Longrightarrow> inj_on a {..<length bs} \<Longrightarrow>
   \<exists>r. store_list vwrite q bs m = Some (m\<lparr>ram := r\<rparr>) \<and> (\<forall>i<length bs. r (a i) = bs ! i) \<and>
     (\<forall>pa. pa \<notin> a ` {..<length bs} \<longrightarrow> r pa = ram m pa)"
proof (induction bs arbitrary: q m a)
  case Nil
  then show ?case by (intro exI [of _ "ram m"]) simp
next
  case (Cons x bs)
  let ?m = "m\<lparr>ram := (ram m)(a 0 := x)\<rparr>"
  have w: "vwrite m q x = Some ?m" using Cons.prems(1) [rule_format, of 0] by (simp add: vwrite_def)
  have "\<forall>i<length bs. translate ?m (q + 1 + int i) = Some ((\<lambda>j. a (Suc j)) i)"
    using Cons.prems(1) [rule_format, of "Suc _"] by (simp add: ac_simps)
  moreover have "inj_on (\<lambda>j. a (Suc j)) {..<length bs}"
    using Cons.prems(2) by (auto simp: inj_on_def)
  ultimately obtain r where r: "store_list vwrite (q + 1) bs ?m = Some (?m\<lparr>ram := r\<rparr>)"
    "\<forall>i<length bs. r (a (Suc i)) = bs ! i" "\<forall>pa. pa \<notin> (\<lambda>j. a (Suc j)) ` {..<length bs} \<longrightarrow> r pa = ram ?m pa"
    using Cons.IH [of ?m "q + 1" "\<lambda>j. a (Suc j)"] by auto
  have "a 0 \<notin> (\<lambda>j. a (Suc j)) ` {..<length bs}" using Cons.prems(2) by (auto simp: inj_on_def)
  then have r0: "r (a 0) = x" using r(3) by simp
  have e: "store_list vwrite q (x # bs) m = Some (m\<lparr>ram := r\<rparr>)" using w r(1) by simp
  have v: "r (a i) = (x # bs) ! i" if "i < length (x # bs)" for i using that r0 r(2) by (cases i) auto
  have f: "r pa = ram m pa" if "pa \<notin> a ` {..<length (x # bs)}" for pa
  proof -
    have "pa \<noteq> a 0" "pa \<notin> (\<lambda>j. a (Suc j)) ` {..<length bs}" using that by auto
    then show ?thesis using r(3) by simp
  qed
  show ?case using e v f by blast
qed

text \<open>Copying a page: the frame behind the destination gets the bytes of the frame behind the
  source, and no other byte of the machine changes.\<close>

lemma store_list_phys:
  "\<forall>i<length bs. translate m (q + int i) = Some (b + int i) \<Longrightarrow>
   store_list vwrite q bs m = Some (m\<lparr>ram := (\<lambda>pa. if b \<le> pa \<and> pa < b + int (length bs) then bs ! nat (pa - b) else ram m pa)\<rparr>)"
proof (induction bs arbitrary: q b m)
  case Nil
  have "(\<lambda>pa. if b \<le> pa \<and> pa < b + int (length []) then [] ! nat (pa - b) else ram m pa) = ram m" by (rule ext) auto
  then show ?case by (simp only: store_list.simps) simp
next
  case (Cons x bs)
  let ?m = "m\<lparr>ram := (ram m)(b := x)\<rparr>"
  have w: "vwrite m q x = Some ?m" using Cons.prems [rule_format, of 0] by (simp add: vwrite_def)
  have "\<forall>i<length bs. translate ?m (q + 1 + int i) = Some (b + 1 + int i)"
  proof (intro allI impI)
    fix i
    assume "i < length bs"
    then show "translate ?m (q + 1 + int i) = Some (b + 1 + int i)"
      using Cons.prems [rule_format, of "Suc i"] by (simp add: ac_simps)
  qed
  from Cons.IH [OF this] have "store_list vwrite q (x # bs) m = Some (?m\<lparr>ram :=
      (\<lambda>pa. if b + 1 \<le> pa \<and> pa < b + 1 + int (length bs) then bs ! nat (pa - (b + 1)) else ram ?m pa)\<rparr>)"
    by (simp add: w)
  moreover have "(\<lambda>pa. if b + 1 \<le> pa \<and> pa < b + 1 + int (length bs) then bs ! nat (pa - (b + 1)) else ram ?m pa) =
    (\<lambda>pa. if b \<le> pa \<and> pa < b + int (length (x # bs)) then (x # bs) ! nat (pa - b) else ram m pa)"
  proof
    fix pa
    have "nat (pa - b) = Suc (nat (pa - (b + 1)))" if "b < pa" using that by simp
    then show "(if b + 1 \<le> pa \<and> pa < b + 1 + int (length bs) then bs ! nat (pa - (b + 1)) else ram ?m pa) =
      (if b \<le> pa \<and> pa < b + int (length (x # bs)) then (x # bs) ! nat (pa - b) else ram m pa)"
      by (cases "pa = b"; cases "b < pa") auto
  qed
  ultimately show ?case by (simp only:) simp
qed

lemma load_list_phys:
  "\<forall>i<n. translate m (p + int i) = Some (a + int i) \<Longrightarrow> load_list vread m p n = Some (map (\<lambda>i. ram m (a + int i)) [0..<n])"
proof (induction n arbitrary: p a)
  case (Suc n)
  have "vread m p = Some (ram m a)" using Suc.prems [rule_format, of 0] by (simp add: vread_def)
  moreover have "\<forall>i<n. translate m (p + 1 + int i) = Some (a + 1 + int i)"
  proof (intro allI impI)
    fix i
    assume "i < n"
    then show "translate m (p + 1 + int i) = Some (a + 1 + int i)"
      using Suc.prems [rule_format, of "Suc i"] by (simp add: ac_simps)
  qed
  from Suc.IH [OF this] have "load_list vread m (p + 1) n = Some (map (\<lambda>i. ram m (a + 1 + int i)) [0..<n])" .
  moreover have "map (\<lambda>i. ram m (a + int i)) [0..<Suc n] = ram m a # map (\<lambda>i. ram m (a + 1 + int i)) [0..<n]"
    by (simp add: map_upt_Suc add.assoc del: upt_Suc)
  ultimately show ?case by (simp del: upt_Suc)
qed simp

lemma translate_page:
  assumes "pagusr_table m p = user_pte f" "0 \<le> p" "p < 1024" "0 \<le> f" "f < 1024" "0 \<le> i" "i < 4096"
  shows "translate m (4096 * p + i) = Some (4096 * f + i)"
  using assms pte_base_user_pte [of f] by (simp add: translate_def)

lemma copy_page:
  assumes p: "pagusr_table m p = user_pte f" "0 \<le> p" "p < 1024" "0 \<le> f" "f < 1024"
    and q: "pagusr_table m q = user_pte g" "0 \<le> q" "q < 1024" "0 \<le> g" "g < 1024" and fg: "f \<noteq> g"
  shows "copy_data vread vwrite (4096 * p) (4096 * q) 4096 m =
    Some (m\<lparr>ram := (\<lambda>pa. if pa div 4096 = g then ram m (4096 * f + pa mod 4096) else ram m pa)\<rparr>)"
proof -
  let ?S = "{4096 * p..<4096 * p + 4096}" and ?D = "{4096 * q..<4096 * q + 4096}"
  have S: "translate m a = Some (4096 * f + (a - 4096 * p))" if "a \<in> ?S" for a
    using translate_page [OF p, of "a - 4096 * p"] that by simp
  have D: "translate m d = Some (4096 * g + (d - 4096 * q))" if "d \<in> ?D" for d
    using translate_page [OF q, of "d - 4096 * q"] that by simp
  have "paged_ok m ?S ?D" unfolding paged_ok_def
  proof (intro conjI ballI)
    fix a
    assume "a \<in> ?S \<union> ?D"
    then show "translate m a \<noteq> None" using S D by auto
  next
    fix a d
    assume ad: "a \<in> ?S" "d \<in> ?D"
    define x y where "x = a - 4096 * p" and "y = d - 4096 * q"
    have "0 \<le> x" "x < 4096" "0 \<le> y" "y < 4096" using ad by (simp_all add: x_def y_def)
    then have "(4096 * f + x) div 4096 = f" "(4096 * g + y) div 4096 = g" by simp_all
    then have "4096 * f + x \<noteq> 4096 * g + y" using fg by metis
    then show "translate m a \<noteq> translate m d" using S [OF ad(1)] D [OF ad(2)] by (simp add: x_def y_def)
  qed
  then obtain bs t where bs: "load_list vread m (4096 * p) (nat 4096) = Some bs" "length bs = nat 4096"
    "store_list vwrite (4096 * q) bs m = Some t" "copy_data vread vwrite (4096 * p) (4096 * q) 4096 m = Some t"
    by (rule paged.copy_data_store) auto
  have l: "bs = map (\<lambda>i. ram m (4096 * f + int i)) [0..<nat 4096]"
    using load_list_phys [of "nat 4096" m "4096 * p" "4096 * f"] translate_page [OF p] bs(1) by simp
  have "t = m\<lparr>ram := (\<lambda>pa. if 4096 * g \<le> pa \<and> pa < 4096 * g + int (length bs) then bs ! nat (pa - 4096 * g) else ram m pa)\<rparr>"
    using store_list_phys [of bs m "4096 * q" "4096 * g"] translate_page [OF q] bs(2,3) by simp
  moreover have "(\<lambda>pa. if 4096 * g \<le> pa \<and> pa < 4096 * g + int (length bs) then bs ! nat (pa - 4096 * g) else ram m pa) =
    (\<lambda>pa. if pa div 4096 = g then ram m (4096 * f + pa mod 4096) else ram m pa)"
  proof
    fix pa
    show "(if 4096 * g \<le> pa \<and> pa < 4096 * g + int (length bs) then bs ! nat (pa - 4096 * g) else ram m pa) =
      (if pa div 4096 = g then ram m (4096 * f + pa mod 4096) else ram m pa)"
    proof (cases "pa div 4096 = g")
      case True
      then have "pa - 4096 * g = pa mod 4096" by (simp add: minus_mult_div_eq_mod flip: True)
      moreover have "0 \<le> pa mod 4096" "pa mod 4096 < 4096" by simp_all
      ultimately have "4096 * g \<le> pa" "pa < 4096 * g + 4096" "nat (pa - 4096 * g) < nat 4096" by linarith+
      then show ?thesis using True bs(2) l \<open>pa - 4096 * g = pa mod 4096\<close> by simp
    next
      case False
      then have "\<not> (4096 * g \<le> pa \<and> pa < 4096 * g + 4096)" by auto
      then show ?thesis using False bs(2) by auto
    qed
  qed
  ultimately show ?thesis using bs(4) by simp
qed

text \<open>User memory to a kernel array of \<open>n\<close> bytes, and back.\<close>

type_synonym mm_buf = "mm_state \<times> 8 word arr"

definition user_ld :: "mm_buf load" where "user_ld s a = vread (fst s) a"
definition user_st :: "mm_buf store" where
  "user_st s a b = map_option (\<lambda>m. (m, snd s)) (vwrite (fst s) a b)"
definition buf_ld :: "int \<Rightarrow> mm_buf load" where "buf_ld n s a = rd n (snd s) a"
definition buf_st :: "int \<Rightarrow> mm_buf store" where
  "buf_st n s a b = map_option (Pair (fst s)) (wr n (snd s) a b)"

definition from_user_ok :: "int \<Rightarrow> mm_buf \<Rightarrow> int set \<Rightarrow> int set \<Rightarrow> bool" where
  "from_user_ok n s S D \<longleftrightarrow> (\<forall>a\<in>S. translate (fst s) a \<noteq> None) \<and> D \<subseteq> {0..<n}"

definition to_user_ok :: "int \<Rightarrow> mm_buf \<Rightarrow> int set \<Rightarrow> int set \<Rightarrow> bool" where
  "to_user_ok n s S D \<longleftrightarrow> S \<subseteq> {0..<n} \<and> (\<forall>a\<in>D. translate (fst s) a \<noteq> None)"

interpretation from_user: byte_copy user_ld "buf_st n" "from_user_ok n" for n
  by unfold_locales (auto simp: user_ld_def buf_st_def from_user_ok_def vread_def dest!: wr_SomeD subsetD)

interpretation to_user: byte_copy "buf_ld n" user_st "to_user_ok n" for n
  by unfold_locales (auto simp: buf_ld_def user_st_def to_user_ok_def vwrite_def dest!: subsetD)

text \<open>\<open>copy_from_user\<close> and \<open>copy_to_user\<close> are \<open>copy_data\<close> with result 0.\<close>

lemma copy_from_user_data: "copy_from_user ld st p q n s = map_option (Pair 0) (copy_data ld st p q n s)"
  unfolding copy_from_user_def copy_data_def
  by (auto simp: map_conv_bind_option intro!: Option.bind_cong split: prod.splits)

lemma copy_to_user_data: "copy_to_user ld st p q n s = map_option (Pair 0) (copy_data ld st p q n s)"
  unfolding copy_to_user_def copy_data_def
  by (auto simp: map_conv_bind_option intro!: Option.bind_cong split: prod.splits)

section \<open>Strings\<close>

fun cstr_at :: "(int \<Rightarrow> 8 word option) \<Rightarrow> int \<Rightarrow> 8 word list \<Rightarrow> bool" where
  "cstr_at ld a [] \<longleftrightarrow> ld a = Some 0"
| "cstr_at ld a (x # xs) \<longleftrightarrow> ld a = Some x \<and> x \<noteq> 0 \<and> cstr_at ld (a + 1) xs"

lemma strlen_from_cstr: "cstr_at ld (a + i) xs \<Longrightarrow> strlen_from ld a i = Some (i + int (length xs))"
proof (induction xs arbitrary: i)
  case Nil
  then show ?case by (subst strlen_from.simps) simp
next
  case (Cons x xs)
  then have "strlen_from ld a (i + 1) = Some (i + 1 + int (length xs))" by (simp add: add.assoc)
  with Cons.prems show ?case by (subst strlen_from.simps) simp
qed

lemma strlen_cstr: "cstr_at ld a xs \<Longrightarrow> strlen ld a = Some (int (length xs))"
  using strlen_from_cstr [of ld a 0 xs] by (simp add: strlen_def)

fun lexcmp :: "8 word list \<Rightarrow> 8 word list \<Rightarrow> int" where
  "lexcmp [] [] = 0"
| "lexcmp [] (y # ys) = -1"
| "lexcmp (x # xs) [] = 1"
| "lexcmp (x # xs) (y # ys) = (if x = y then lexcmp xs ys else if x < y then -1 else 1)"

lemma lexcmp_zero_iff: "lexcmp xs ys = 0 \<longleftrightarrow> xs = ys"
  by (induction xs ys rule: lexcmp.induct) auto

lemma strcmp_lexcmp:
  "cstr_at ld1 a xs \<Longrightarrow> cstr_at ld2 b ys \<Longrightarrow> strcmp ld1 ld2 a b = Some (lexcmp xs ys)"
proof (induction xs ys arbitrary: a b rule: lexcmp.induct)
  case 1
  then show ?case by (subst strcmp.simps) simp
next
  case (2 y ys)
  then show ?case by (subst strcmp.simps) (auto simp: word_neq_0_conv word_less_def)
next
  case (3 x xs)
  then show ?case by (subst strcmp.simps) (auto simp: word_less_def)
next
  case (4 x xs y ys)
  show ?case
  proof (cases "x = y")
    case True
    with 4 have "strcmp ld1 ld2 (a + 1) (b + 1) = Some (lexcmp xs ys)" by simp
    with 4 True show ?thesis by (subst strcmp.simps) simp
  next
    case False
    with 4 show ?thesis by (subst strcmp.simps) (auto simp: word_less_def)
  qed
qed

section \<open>Decimal digits\<close>

text \<open>The number a run of ASCII digits stands for.\<close>

fun decimal :: "8 word list \<Rightarrow> int \<Rightarrow> int" where
  "decimal [] acc = acc"
| "decimal (d # ds) acc = decimal ds (10 * acc + (uint d - 48))"

lemma decimal_snoc: "decimal (ds @ [d]) acc = 10 * decimal ds acc + (uint d - 48)"
  by (induction ds arbitrary: acc) auto

lemma itoa_digits_nonneg: "0 \<le> itoa_digits n"
  by (induction n rule: itoa_digits.induct) (subst itoa_digits.simps, simp)

lemma uint_digit: "uint (word_of_int (n mod 10 + 48) :: 8 word) = n mod 10 + 48"
proof -
  have "n mod 10 + 48 < 256" "0 \<le> n mod 10 + 48"
    using pos_mod_bound [of 10 n] pos_mod_sign [of 10 n] by linarith+
  then have "take_bit 8 (n mod 10 + 48) = n mod 10 + 48" by (intro take_bit_int_eq_self) auto
  then show ?thesis by (simp only: unsigned_of_int) simp
qed

lemma itoa_write_frame: "k < 0 \<or> i \<le> k \<Longrightarrow> itoa_write i num buf k = buf k"
  by (induction i num buf rule: itoa_write.induct) (subst itoa_write.simps, auto)

lemma itoa_write_decimal:
  "0 \<le> num \<Longrightarrow> i = itoa_digits num \<Longrightarrow>
   decimal (map (\<lambda>k. itoa_write i num buf (int k)) [0..<nat i]) 0 = num"
proof (induction i num buf rule: itoa_write.induct)
  case (1 i num buf)
  show ?case
  proof (cases "i > 0")
    case False
    with "1.prems" have "num = 0"
      using itoa_digits_nonneg [of "num div 10"]
      by (simp add: itoa_digits.simps [of num] split: if_splits)
    with False show ?thesis by simp
  next
    case True
    with "1.prems" have pos: "num > 0" by (auto simp: itoa_digits.simps [of num] split: if_splits)
    define d :: "8 word" where "d = word_of_int (num mod 10 + 48)"
    have d: "uint d = num mod 10 + 48" unfolding d_def by (rule uint_digit)
    let ?b = "buf(i - 1 := d)"
    have i1: "i - 1 = itoa_digits (num div 10)" using "1.prems" pos by (simp add: itoa_digits.simps [of num])
    have IH: "decimal (map (\<lambda>k. itoa_write (i - 1) (num div 10) ?b (int k)) [0..<nat (i - 1)]) 0 = num div 10"
      by (rule "1.IH" [OF True _ i1, folded d_def]) (use "1.prems" in simp)
    have w: "itoa_write i num buf = itoa_write (i - 1) (num div 10) ?b"
      using True by (subst itoa_write.simps) (simp only: d_def if_True)
    have "nat i = Suc (nat (i - 1))" using True by simp
    then have n: "[0..<nat i] = [0..<nat (i - 1)] @ [nat (i - 1)]" by simp
    have "itoa_write (i - 1) (num div 10) ?b (int (nat (i - 1))) = d"
      using True by (simp add: itoa_write_frame)
    then show ?thesis
      by (simp add: w n decimal_snoc IH d)
  qed
qed

section \<open>What a copy keeps\<close>

text \<open>A copy only changes the state through its stores.\<close>

lemma copy4_keeps:
  assumes "copy4 ld st p q s = Some t" "I s" "\<And>s a b s'. st s a b = Some s' \<Longrightarrow> I s \<Longrightarrow> I s'"
  shows "I t"
  using assms by (auto simp: copy4_def dest!: bind_SomeD)

lemma copy_words_keeps:
  assumes "copy_words ld st p q n s = Some (p', q', n', t)" "I s" "\<And>s a b s'. st s a b = Some s' \<Longrightarrow> I s \<Longrightarrow> I s'"
  shows "I t"
  using assms
proof (induction ld st p q n s rule: copy_words.induct)
  case (1 ld st p q n s)
  show ?case
  proof (cases "n > 4")
    case True
    then obtain s1 where s1: "copy4 ld st p q s = Some s1" "copy_words ld st (p + 4) (q + 4) (n - 4) s1 = Some (p', q', n', t)"
      using "1.prems"(1) by (subst (asm) copy_words.simps) (auto dest!: bind_SomeD)
    have "I s1" using copy4_keeps [where I = I, OF s1(1)] "1.prems"(2,3) by blast
    then show ?thesis by (rule "1.IH" [OF True s1]) (rule "1.prems"(3))
  qed (use "1.prems" in \<open>simp add: copy_words.simps\<close>)
qed

lemma copy_bytes_keeps:
  assumes "copy_bytes ld st p q n s = Some t" "I s" "\<And>s a b s'. st s a b = Some s' \<Longrightarrow> I s \<Longrightarrow> I s'"
  shows "I t"
  using assms
proof (induction ld st p q n s rule: copy_bytes.induct)
  case (1 ld st p q n s)
  show ?case
  proof (cases "n > 0")
    case True
    then obtain b s1 where s1: "ld s p = Some b" "st s q b = Some s1" "copy_bytes ld st (p + 1) (q + 1) (n - 1) s1 = Some t"
      using "1.prems"(1) by (subst (asm) copy_bytes.simps) (auto dest!: bind_SomeD)
    have "I s1" using "1.prems"(2,3) s1(2) by blast
    then show ?thesis by (rule "1.IH" [OF True s1]) (rule "1.prems"(3))
  qed (use "1.prems" in \<open>simp add: copy_bytes.simps\<close>)
qed

lemma copy_data_keeps:
  assumes c: "copy_data ld st p q n s = Some t" and I: "I s" and st: "\<And>s a b s'. st s a b = Some s' \<Longrightarrow> I s \<Longrightarrow> I s'"
  shows "I t"
proof -
  obtain p' q' n' s1 where s1: "copy_words ld st p q n s = Some (p', q', n', s1)" "copy_bytes ld st p' q' n' s1 = Some t"
    using c by (auto simp: copy_data_def dest!: bind_SomeD)
  show ?thesis using copy_bytes_keeps [where I = I, OF s1(2)] copy_words_keeps [where I = I, OF s1(1)] I st by blast
qed

section \<open>Copies, strings and numbers\<close>

text \<open>C36: \<open>copy_data\<close>, which copies by words and finishes by bytes, copies exactly \<open>size\<close> bytes
  between areas that do not overlap, and no other byte changes.\<close>

theorem copy_data_disjoint:
  assumes "{p..<p + n} \<inter> {q..<q + n} = {}"
  shows "copy_data flat_ld flat_st p q n mem = Some (\<lambda>a. if q \<le> a \<and> a < q + n then mem (p + (a - q)) else mem a)"
proof -
  obtain bs t where b: "load_list flat_ld mem p (nat n) = Some bs" "store_list flat_st q bs mem = Some t"
    "copy_data flat_ld flat_st p q n mem = Some t"
    by (rule flat.copy_data_store [of mem "{p..<p + n}" "{q..<q + n}" p n q]) (use assms in \<open>auto simp: flat_ok_def\<close>)
  have ld: "load_list flat_ld mem p k = Some (map (\<lambda>i. mem (p + int i)) [0..<k])" for p k
    by (induction k arbitrary: p) (simp_all add: flat_ld_def map_upt_Suc ac_simps del: upt_Suc)
  have st: "store_list flat_st q bs mem = Some (\<lambda>a. if q \<le> a \<and> a < q + int (length bs) then bs ! nat (a - q) else mem a)" for q bs mem
  proof (induction bs arbitrary: q mem)
    case (Cons b bs)
    have "nat (a - q) = Suc (nat (a - (q + 1)))" if "q < a" for a using that by simp
    then have "(\<lambda>a. if q + 1 \<le> a \<and> a < q + 1 + int (length bs) then bs ! nat (a - (q + 1)) else (mem(q := b)) a) =
      (\<lambda>a. if q \<le> a \<and> a < q + int (length (b # bs)) then (b # bs) ! nat (a - q) else mem a)"
      by (auto simp: fun_eq_iff)
    moreover have "flat_st mem q b = Some (mem(q := b))" by (simp add: flat_st_def)
    ultimately show ?case by (simp only: store_list.simps Option.bind.bind_lunit Cons.IH)
  qed (auto simp: fun_eq_iff)
  have bs: "bs = map (\<lambda>i. mem (p + int i)) [0..<nat n]" using b(1) ld by simp
  have "t = (\<lambda>a. if q \<le> a \<and> a < q + n then mem (p + (a - q)) else mem a)"
  proof (rule ext)
    fix a
    have "t a = (if q \<le> a \<and> a < q + int (nat n) then bs ! nat (a - q) else mem a)" using b(2) st [of q bs mem] bs by simp
    then show "t a = (if q \<le> a \<and> a < q + n then mem (p + (a - q)) else mem a)" unfolding bs by (auto split: if_splits)
  qed
  then show ?thesis using b(3) by simp
qed

theorem copy_data_disjoint_witness:
  "copy_data flat_ld flat_st 100 200 7 (\<lambda>a. word_of_int a) = Some (\<lambda>a. if 200 \<le> a \<and> a < 200 + 7 then word_of_int (100 + (a - 200)) else word_of_int a)"
  by (rule copy_data_disjoint) simp

text \<open>\<open>strcmp\<close> is the lexicographic comparison of the two strings as unsigned bytes, it is 0
  exactly on equal strings, and \<open>strlen\<close> is the length.\<close>

theorem strcmp_orders:
  assumes "cstr_at ld1 a xs" "cstr_at ld2 b ys"
  shows "strcmp ld1 ld2 a b = Some (lexcmp xs ys) \<and> (strcmp ld1 ld2 a b = Some 0 \<longleftrightarrow> xs = ys) \<and>
    strlen ld1 a = Some (int (length xs))"
  using strcmp_lexcmp [OF assms] strlen_cstr [OF assms(1)] lexcmp_zero_iff [of xs ys] by simp

theorem strcmp_orders_witness:
  "strcmp (\<lambda>a. Some (if a < 3 then 65 else 0)) (\<lambda>a. Some (if a < 5 then 65 else 0)) 0 0 = Some (-1)"
proof -
  have "cstr_at (\<lambda>a. Some (if a < 3 then 65 else 0)) 0 [65, 65, 65]"
    "cstr_at (\<lambda>a. Some (if a < 5 then 65 else 0)) 0 [65, 65, 65, 65, 65]"
    by simp_all
  from strcmp_orders [OF this] show ?thesis by simp
qed

text \<open>the characters \<open>itoa\<close> writes are the decimal digits of the number, and the rest of the
  buffer is kept.\<close>

theorem itoa_roundtrip:
  assumes "0 \<le> num"
  shows "decimal (map (\<lambda>k. itoa num buf (int k)) [0..<nat (itoa_digits num)]) 0 = num \<and>
    (\<forall>k. k < 0 \<or> itoa_digits num \<le> k \<longrightarrow> itoa num buf k = buf k)"
  using itoa_write_decimal [OF assms refl] itoa_write_frame by (auto simp: itoa_def)

theorem itoa_roundtrip_witness:
  "decimal (map (\<lambda>k. itoa 4096 (\<lambda>_. 0) (int k)) [0..<nat (itoa_digits 4096)]) 0 = 4096"
  using itoa_roundtrip [of 4096 "\<lambda>_. 0"] by simp

end
