(* ===== verification/Filesystem.thy ===== *)
theory Filesystem
  imports Utils
begin

text \<open>
  \<open>zeos/filesystem.c\<close> and \<open>zeos/include/filesystem.h\<close>: the RAM disk with its file
  allocation table, the directory of logical devices with their operations, and the table of
  open virtual devices.

  \<open>chain fat b xs\<close> reads the linked list of blocks that starts at \<open>b\<close>. The locale
  \<open>block_pool\<close> is the contract of the block allocator (a free list and the chains of the
  files, all disjoint) that the file operations use, interpreted on \<open>balloc\<close>,
  \<open>add_block\<close> and \<open>freeb\<close>.
\<close>

section \<open>Data\<close>

abbreviation (input) "MAX_BLOCKS \<equiv> (80 :: int)"
abbreviation (input) "BLOCK_SIZE \<equiv> (256 :: int)"
abbreviation (input) "MAX_FILES \<equiv> (10 :: int)"
abbreviation (input) "MAX_NAME_LENGTH \<equiv> (10 :: int)"
abbreviation (input) "MAX_OPEN_FILES \<equiv> (15 :: int)"
abbreviation (input) "O_RDONLY \<equiv> (1 :: int)"
abbreviation (input) "O_WRONLY \<equiv> (2 :: int)"
abbreviation (input) "O_RDWR \<equiv> (3 :: int)"
abbreviation (input) "O_CREAT \<equiv> (4 :: int)"
abbreviation (input) "O_EXCL \<equiv> (8 :: int)"

abbreviation (input) "EPERM \<equiv> (1 :: int)"
abbreviation (input) "ENOENT \<equiv> (2 :: int)"
abbreviation (input) "ESRCH \<equiv> (3 :: int)"
abbreviation (input) "EBADF \<equiv> (9 :: int)"
abbreviation (input) "EAGAIN \<equiv> (11 :: int)"
abbreviation (input) "EACCES \<equiv> (13 :: int)"
abbreviation (input) "EFAULT \<equiv> (14 :: int)"
abbreviation (input) "EBUSY \<equiv> (16 :: int)"
abbreviation (input) "EEXIST \<equiv> (17 :: int)"
abbreviation (input) "EINVAL \<equiv> (22 :: int)"
abbreviation (input) "ENFILE \<equiv> (23 :: int)"
abbreviation (input) "EMFILE \<equiv> (24 :: int)"
abbreviation (input) "EFBIG \<equiv> (27 :: int)"
abbreviation (input) "ENOSPC \<equiv> (28 :: int)"
abbreviation (input) "ENAMETOOLONG \<equiv> (36 :: int)"
abbreviation (input) "ENOSYS \<equiv> (38 :: int)"

text \<open>The routines whose addresses are stored in a \<open>struct file_operations\<close>.\<close>

datatype routine = F_sys_read_keyboard | F_sys_write_console | F_sys_read_file | F_sys_write_file
  | F_sys_release_file

record file_operations =
  sys_open_dev :: "routine option"
  sys_close_dev :: "routine option"
  sys_read_dev :: "routine option"
  sys_write_dev :: "routine option"
  sys_release_dev :: "routine option"

text \<open>\<open>operations\<close> points into \<open>ops\<close>, \<open>logic_dev\<close> into \<open>dir\<close>: an index, or
  \<open>None\<close> for NULL.\<close>

record file_t =
  name :: "8 word arr"
  access_mode_allow :: int
  operations :: "int option"
  first_block :: int
  n_blocks :: int
  fsize :: int
  n_refs :: int

record virtual =
  access_mode :: int
  refs :: int
  voffset :: int
  logic_dev :: "int option"

record fs_state =
  fat :: "int arr"
  ffb :: int
  disk :: "int \<Rightarrow> 8 word arr"
  dir :: "file_t arr"
  ops :: "file_operations arr"
  fdt :: "virtual arr"

section \<open>Initialisation\<close>

definition no_ops :: file_operations where
  "no_ops = \<lparr>sys_open_dev = None, sys_close_dev = None, sys_read_dev = None,
     sys_write_dev = None, sys_release_dev = None\<rparr>"

text \<open>String literals are byte lists; a copy from one reads it by offset, its NUL included.\<close>

definition KEYBOARD_str :: "8 word list" where
  "KEYBOARD_str = [0x4B, 0x45, 0x59, 0x42, 0x4F, 0x41, 0x52, 0x44]"

definition DISPLAY_str :: "8 word list" where
  "DISPLAY_str = [0x44, 0x49, 0x53, 0x50, 0x4C, 0x41, 0x59]"

definition lit_ld :: "8 word list \<Rightarrow> 's load" where
  "lit_ld xs s a = (if 0 \<le> a \<and> a < int (length xs) then Some (xs ! nat a)
     else if a = int (length xs) then Some 0 else None)"

definition name_st :: "(8 word arr) store" where
  "name_st n a b = wr MAX_NAME_LENGTH n a b"

definition init_dir :: "fs_state \<Rightarrow> fs_state option" where
  "init_dir s = do {
     let s = for_to 0 MAX_FILES (\<lambda>i s. s\<lparr>
        dir := (dir s)(i := (dir s i)\<lparr>operations := Some i, n_refs := -1\<rparr>),
        ops := (ops s)(i := no_ops)\<rparr>) s;
     n \<leftarrow> copy_data (lit_ld KEYBOARD_str) name_st 0 0 8 (name (dir s 0));
     let s = s\<lparr>dir := (dir s)(0 := (dir s 0)\<lparr>name := n, access_mode_allow := O_RDONLY,
                  fsize := 0, n_refs := 0\<rparr>),
               ops := (ops s)(0 := (ops s 0)\<lparr>sys_read_dev := Some F_sys_read_keyboard\<rparr>)\<rparr>;
     n \<leftarrow> copy_data (lit_ld DISPLAY_str) name_st 0 0 7 (name (dir s 1));
     Some (s\<lparr>dir := (dir s)(1 := (dir s 1)\<lparr>name := n, access_mode_allow := O_WRONLY,
                  fsize := 0, n_refs := 0\<rparr>),
             ops := (ops s)(1 := (ops s 1)\<lparr>sys_write_dev := Some F_sys_write_console\<rparr>)\<rparr>)
   }"

definition init_fdt :: "fs_state \<Rightarrow> fs_state" where
  "init_fdt s = s\<lparr>fdt := for_to 0 MAX_OPEN_FILES
     (\<lambda>i t. t(i := \<lparr>access_mode = 0, refs = 0, voffset = 0, logic_dev = None\<rparr>)) (fdt s)\<rparr>"

definition initZeosFat :: "fs_state \<Rightarrow> fs_state" where
  "initZeosFat s = s\<lparr>ffb := 0,
     fat := (for_to 0 (MAX_BLOCKS - 1) (\<lambda>i f. f(i := i + 1)) (fat s))(MAX_BLOCKS - 1 := -1)\<rparr>"

definition init_disk :: "fs_state \<Rightarrow> fs_state" where
  "init_disk s = s\<lparr>disk := for_to 0 MAX_BLOCKS
     (\<lambda>i d. d(i := for_to 0 BLOCK_SIZE (\<lambda>j b. b(j := 0)) (d i))) (disk s)\<rparr>"

definition init_filesystem :: "fs_state \<Rightarrow> fs_state option" where
  "init_filesystem s = do {
     s \<leftarrow> init_dir s;
     Some (initZeosFat (init_disk (init_fdt s)))
   }"

section \<open>Blocks\<close>

text \<open>The loop of \<open>balloc\<close>, with the variables \<open>prev\<close>, \<open>ffb\<close> and \<open>tot\<close>.\<close>

partial_function (option) balloc_walk ::
  "int arr \<Rightarrow> int \<Rightarrow> int \<Rightarrow> int \<Rightarrow> int \<Rightarrow> (int \<times> int \<times> int) option" where
  "balloc_walk f nblocks prev cur tot =
     (if tot \<noteq> nblocks
      then Option.bind (rd MAX_BLOCKS f cur) (\<lambda>e.
        if e \<noteq> -1 then balloc_walk f nblocks cur e (tot + 1) else Some (prev, cur, tot))
      else Some (prev, cur, tot))"

definition balloc :: "int \<Rightarrow> fs_state \<Rightarrow> (int \<times> fs_state) option" where
  "balloc nblocks s =
     (if ffb s = -1 \<or> nblocks < 1 then Some (-1, s)
      else do {
        e \<leftarrow> rd MAX_BLOCKS (fat s) (ffb s);
        if e = -1 then
          if nblocks = 1 then Some (ffb s, s\<lparr>ffb := -1\<rparr>) else Some (-1, s)
        else do {
          let first = ffb s;
          (prev, cur, tot) \<leftarrow> balloc_walk (fat s) nblocks first e 1;
          e \<leftarrow> rd MAX_BLOCKS (fat s) cur;
          let finish = (\<lambda>prev cur. do {
            f \<leftarrow> wr MAX_BLOCKS (fat s) prev (-1);
            Some (first, s\<lparr>fat := f, ffb := cur\<rparr>)
          });
          if e = -1 then
            if nblocks - tot = 1 then finish cur (-1)
            else if nblocks - tot > 1 then Some (-1, s\<lparr>ffb := first\<rparr>)
            else finish prev cur
          else finish prev cur
        }
      })"

text \<open>\<open>for (i = b; fat[i] != -1; i = fat[i]);\<close> with the final \<open>i\<close>.\<close>

partial_function (option) fat_last :: "int arr \<Rightarrow> int \<Rightarrow> int option" where
  "fat_last f i = Option.bind (rd MAX_BLOCKS f i) (\<lambda>e. if e \<noteq> -1 then fat_last f e else Some i)"

definition freeb :: "int \<Rightarrow> fs_state \<Rightarrow> (int \<times> fs_state) option" where
  "freeb index s =
     (if index \<ge> MAX_BLOCKS \<or> index < 0 \<or> index = ffb s then Some (-1, s)
      else if ffb s = -1 then Some (0, s\<lparr>ffb := index\<rparr>)
      else do {
        i \<leftarrow> fat_last (fat s) (ffb s);
        f \<leftarrow> wr MAX_BLOCKS (fat s) i index;
        Some (0, s\<lparr>fat := f\<rparr>)
      })"

definition add_block :: "int \<Rightarrow> int \<Rightarrow> fs_state \<Rightarrow> fs_state option" where
  "add_block last' new' s = do {
     f \<leftarrow> wr MAX_BLOCKS (fat s) last' new';
     f \<leftarrow> wr MAX_BLOCKS f new' (-1);
     Some (s\<lparr>fat := f\<rparr>)
   }"

text \<open>
  \<open>create_file\<close> returns a pointer into \<open>dir\<close> (\<open>Inr\<close> its index) or a negative errno
  cast to a pointer (\<open>Inl\<close>). The path is read with \<open>ld\<close>.
\<close>

definition create_file :: "(int \<Rightarrow> 8 word option) \<Rightarrow> int \<Rightarrow> fs_state \<Rightarrow> ((int + int) \<times> fs_state) option" where
  "create_file ld path s =
     (let i = scan 0 MAX_FILES (\<lambda>i. n_refs (dir s i) \<noteq> -1)
      in if i = MAX_FILES then Some (Inl (- ENFILE), s)
         else do {
           length' \<leftarrow> strlen ld path;
           if length' > MAX_NAME_LENGTH - 1 then Some (Inl (- ENAMETOOLONG), s)
           else do {
             (fblock, s) \<leftarrow> balloc 1 s;
             if fblock < 0 then Some (Inl (- ENOSPC), s)
             else do {
               (_, n) \<leftarrow> copy_from_user (\<lambda>_. ld) name_st path 0 length' (name (dir s i));
               let n = (if n length' \<noteq> 0 then n(length' := 0) else n);
               op \<leftarrow> operations (dir s i);
               Some (Inr i, s\<lparr>
                 dir := (dir s)(i := (dir s i)\<lparr>name := n, access_mode_allow := O_RDWR,
                    first_block := fblock, fsize := 0, n_blocks := 1, n_refs := 0\<rparr>),
                 ops := (ops s)(op := \<lparr>sys_open_dev = None, sys_close_dev = None,
                    sys_read_dev = Some F_sys_read_file, sys_write_dev = Some F_sys_write_file,
                    sys_release_dev = Some F_sys_release_file\<rparr>)\<rparr>)
             }
           }
         })"

section \<open>Chains of blocks\<close>

primrec chain :: "int arr \<Rightarrow> int \<Rightarrow> int list \<Rightarrow> bool" where
  "chain f b [] \<longleftrightarrow> b = -1"
| "chain f b (x # xs) \<longleftrightarrow> b = x \<and> 0 \<le> x \<and> x < MAX_BLOCKS \<and> chain f (f x) xs"

lemma chain_minus_one [simp]: "chain f (-1) xs \<longleftrightarrow> xs = []"
  by (cases xs) auto

lemma chain_nonneg: "chain f b xs \<Longrightarrow> b \<noteq> -1 \<Longrightarrow> \<exists>ys. xs = b # ys \<and> 0 \<le> b \<and> b < MAX_BLOCKS \<and> chain f (f b) ys"
  by (cases xs) auto

lemma chain_unique: "chain f b xs \<Longrightarrow> chain f b ys \<Longrightarrow> xs = ys"
  by (induction xs arbitrary: b ys) (auto dest: chain_nonneg)

lemma chain_bounds: "chain f b xs \<Longrightarrow> x \<in> set xs \<Longrightarrow> 0 \<le> x \<and> x < MAX_BLOCKS"
  by (induction xs arbitrary: b) auto

lemma chain_upd [simp]: "c \<notin> set xs \<Longrightarrow> chain (f(c := v)) b xs \<longleftrightarrow> chain f b xs"
  by (induction xs arbitrary: b) auto

lemma chain_suffix: "chain f b (xs @ y # ys) \<Longrightarrow> chain f y (y # ys)"
  by (induction xs arbitrary: b) auto

lemma chain_distinct: "chain f b xs \<Longrightarrow> distinct xs"
proof (induction xs arbitrary: b)
  case (Cons x xs)
  have "x \<notin> set xs"
  proof
    assume "x \<in> set xs"
    then obtain ys zs where xs: "xs = ys @ x # zs" by (meson split_list)
    with Cons.prems have "chain f x (x # zs)" "chain f x (x # xs)"
      using chain_suffix [of f "f x" ys x zs] by auto
    then have "x # zs = x # xs" by (rule chain_unique)
    with xs show False by simp
  qed
  with Cons show ?case by auto
qed simp

lemma chain_append_upd:
  "chain f b (xs @ [x]) \<Longrightarrow> chain f c ys \<Longrightarrow> set (xs @ [x]) \<inter> set ys = {} \<Longrightarrow>
   chain (f(x := c)) b (xs @ x # ys)"
proof (induction xs arbitrary: b)
  case Nil
  then show ?case by (simp del: fun_upd_apply add: fun_upd_same)
next
  case (Cons z xs)
  then have "z \<noteq> x" using chain_distinct [of f b "z # xs @ [x]"] by auto
  with Cons show ?case by auto
qed

lemma chain_cut: "chain f b (xs @ x # ys) \<Longrightarrow> chain (f(x := -1)) b (xs @ [x])"
proof (induction xs arbitrary: b)
  case (Cons z xs)
  then have "z \<noteq> x" using chain_distinct [of f b "(z # xs) @ x # ys"] by auto
  with Cons show ?case by auto
qed auto

lemma chain_last_next: "chain f b (xs @ [x]) \<Longrightarrow> f x = -1"
  by (induction xs arbitrary: b) auto

lemma chain_last: "chain f b xs \<Longrightarrow> xs \<noteq> [] \<Longrightarrow> f (last xs) = -1"
  using chain_last_next [of f b "butlast xs" "last xs"] by simp

lemma fat_last_chain: "chain f b (xs @ [x]) \<Longrightarrow> fat_last f b = Some x"
proof (induction xs arbitrary: b)
  case Nil
  then show ?case by (subst fat_last.simps) auto
next
  case (Cons z xs)
  then have "fat_last f (f z) = Some x" by simp
  moreover have "f z \<noteq> -1" using Cons.prems by (cases xs) auto
  ultimately show ?case using Cons.prems by (subst fat_last.simps) auto
qed

section \<open>Allocating blocks\<close>

lemma balloc_walk_chain:
  assumes "chain f c (c # cs)" "t \<le> n" "0 \<le> t"
  shows "balloc_walk f n prev c t =
    (if n - t \<le> int (length cs) then Some ((prev # c # cs) ! nat (n - t), (c # cs) ! nat (n - t), n)
     else Some (last (prev # butlast (c # cs)), last (c # cs), t + int (length cs)))"
  using assms
proof (induction cs arbitrary: prev c t)
  case Nil
  then show ?case by (subst balloc_walk.simps) auto
next
  case (Cons d ds)
  have c: "chain f d (d # ds)" "f c = d" "d \<noteq> -1" "0 \<le> c" "c < MAX_BLOCKS" using Cons.prems(1) by auto
  show ?case
  proof (cases "t = n")
    case True
    then show ?thesis by (subst balloc_walk.simps) simp
  next
    case False
    then have "t + 1 \<le> n" using Cons.prems by simp
    from Cons.IH [OF c(1) this, of c] Cons.prems(3)
    have IH: "balloc_walk f n c d (t + 1) =
      (if n - (t + 1) \<le> int (length ds) then Some ((c # d # ds) ! nat (n - (t + 1)), (d # ds) ! nat (n - (t + 1)), n)
       else Some (last (c # butlast (d # ds)), last (d # ds), t + 1 + int (length ds)))"
      by simp
    have "nat (n - t) = Suc (nat (n - (t + 1)))" using False Cons.prems by simp
    then show ?thesis using c False
      by (subst balloc_walk.simps) (auto simp: IH)
  qed
qed

text \<open>\<open>balloc n\<close> cuts the first \<open>n\<close> blocks off the free list.\<close>

lemma balloc_enough:
  assumes ch: "chain (fat s) (ffb s) xs" and n: "1 \<le> n" "n \<le> int (length xs)"
  shows "balloc n s = Some (hd xs, s\<lparr>fat := (fat s)(xs ! nat (n - 1) := -1),
    ffb := (if n = int (length xs) then -1 else xs ! nat n)\<rparr>)"
proof (cases xs)
  case Nil
  with n show ?thesis by simp
next
  case (Cons b bs)
  with ch have b: "ffb s = b" "0 \<le> b" "b < 80" "chain (fat s) (fat s b) bs" by auto
  show ?thesis
  proof (cases bs)
    case Nil
    with b have "(fat s)(b := -1) = fat s" by auto
    with n Cons Nil b show ?thesis by (auto simp: balloc_def)
  next
    case (Cons c cs)
    with b have c: "chain (fat s) c (c # cs)" "fat s b = c" "0 \<le> c" by auto
    have bnd: "x \<in> set (b # c # cs) \<Longrightarrow> 0 \<le> x \<and> x < 80" for x
      using b c chain_bounds [OF c(1)] by auto
    have last_f: "fat s (last (c # cs)) = -1"
      by (rule chain_last [OF c(1)]) simp
    show ?thesis
    proof (cases "n - 1 \<le> int (length cs)")
      case True
      let ?p = "(b # c # cs) ! nat (n - 1)" and ?q = "(c # cs) ! nat (n - 1)"
      have w: "balloc_walk (fat s) n b c 1 = Some (?p, ?q, n)"
        using balloc_walk_chain [OF c(1), of 1 n b] True n by simp
      have "?p \<in> set (b # c # cs)" "?q \<in> set (c # cs)" using True n by (intro nth_mem; simp)+
      then have pq: "0 \<le> ?p" "?p < 80" "0 \<le> ?q" "?q < 80" using bnd by auto
      have "?q = xs ! nat n" using n by (simp add: \<open>xs = b # bs\<close> Cons nth_Cons' nat_diff_distrib)
      moreover have "n \<noteq> int (length xs)" using True by (simp add: \<open>xs = b # bs\<close> Cons)
      ultimately show ?thesis
        using b c w pq n by (simp add: balloc_def \<open>xs = b # bs\<close> Cons)
    next
      case False
      with n have nn: "n = int (length cs) + 2" by (simp add: \<open>xs = b # bs\<close> Cons)
      have w: "balloc_walk (fat s) n b c 1 = Some (last (b # butlast (c # cs)), last (c # cs), 1 + int (length cs))"
        using balloc_walk_chain [OF c(1), of 1 n b] nn by simp
      have l: "last (c # cs) = xs ! nat (n - 1)"
        by (simp add: \<open>xs = b # bs\<close> Cons nn last_conv_nth nat_add_distrib)
      have "0 \<le> last (c # cs)" "last (c # cs) < 80" using bnd [of "last (c # cs)"] by auto
      then show ?thesis
        using b c w l last_f nn by (simp add: balloc_def \<open>xs = b # bs\<close> Cons del: last.simps)
    qed
  qed
qed

lemma balloc_fail:
  assumes ch: "chain (fat s) (ffb s) xs" and n: "int (length xs) < n"
  shows "balloc n s = Some (-1, s)"
proof (cases xs)
  case Nil
  with ch show ?thesis by (simp add: balloc_def)
next
  case (Cons b bs)
  with ch have b: "ffb s = b" "0 \<le> b" "b < 80" "chain (fat s) (fat s b) bs" by auto
  show ?thesis
  proof (cases bs)
    case Nil
    with b n Cons show ?thesis by (simp add: balloc_def)
  next
    case (Cons c cs)
    with b have c: "chain (fat s) c (c # cs)" "fat s b = c" "0 \<le> c" by auto
    have nn: "n > int (length cs) + 2" using n by (simp add: \<open>xs = b # bs\<close> Cons)
    have w: "balloc_walk (fat s) n b c 1 = Some (last (b # butlast (c # cs)), last (c # cs), 1 + int (length cs))"
      using balloc_walk_chain [OF c(1), of 1 n b] nn by simp
    have "fat s (last (c # cs)) = -1" "0 \<le> last (c # cs)" "last (c # cs) < 80"
      using chain_last [OF c(1)] chain_bounds [OF c(1), of "last (c # cs)"] by auto
    moreover have "s\<lparr>ffb := b\<rparr> = s" using b(1) by simp
    ultimately show ?thesis
      using b c w nn by (simp add: balloc_def del: last.simps)
  qed
qed

section \<open>The contract of the block allocator\<close>

text \<open>
  The blocks in use: a free list \<open>fl\<close> and the chains \<open>C\<close> of the files, by first block,
  all disjoint.
\<close>

definition blocks_ok :: "fs_state \<Rightarrow> int list \<Rightarrow> (int \<rightharpoonup> int list) \<Rightarrow> bool" where
  "blocks_ok s fl C \<longleftrightarrow> chain (fat s) (ffb s) fl \<and>
     (\<forall>a xs. C a = Some xs \<longrightarrow> xs \<noteq> [] \<and> chain (fat s) a xs \<and> set xs \<inter> set fl = {}) \<and>
     (\<forall>a b xs ys. a \<noteq> b \<longrightarrow> C a = Some xs \<longrightarrow> C b = Some ys \<longrightarrow> set xs \<inter> set ys = {})"

lemma blocks_ok_free: "blocks_ok s fl C \<Longrightarrow> chain (fat s) (ffb s) fl"
  by (simp add: blocks_ok_def)

lemma blocks_ok_file: "blocks_ok s fl C \<Longrightarrow> C a = Some xs \<Longrightarrow> xs \<noteq> [] \<and> chain (fat s) a xs \<and> set xs \<inter> set fl = {}"
  by (simp add: blocks_ok_def)

lemma blocks_ok_apart: "blocks_ok s fl C \<Longrightarrow> C a = Some xs \<Longrightarrow> C b = Some ys \<Longrightarrow> a \<noteq> b \<Longrightarrow> set xs \<inter> set ys = {}"
  unfolding blocks_ok_def by blast

lemma blocks_ok_hd: "blocks_ok s fl C \<Longrightarrow> C a = Some xs \<Longrightarrow> a \<in> set xs"
  using blocks_ok_file [of s fl C a xs] by (cases xs) auto

lemma blocks_ok_free_not_file: "blocks_ok s fl C \<Longrightarrow> b \<in> set fl \<Longrightarrow> C b = None"
  using blocks_ok_file [of s fl C b] blocks_ok_hd [of s fl C b] by (cases "C b") auto

lemma blocks_ok_cong: "fat s' = fat s \<Longrightarrow> ffb s' = ffb s \<Longrightarrow> blocks_ok s' fl C = blocks_ok s fl C"
  by (simp add: blocks_ok_def)

lemma blocks_ok_upd [simp]:
  "blocks_ok (s\<lparr>dir := d\<rparr>) fl C = blocks_ok s fl C" "blocks_ok (s\<lparr>disk := k\<rparr>) fl C = blocks_ok s fl C"
  "blocks_ok (s\<lparr>fdt := v\<rparr>) fl C = blocks_ok s fl C" "blocks_ok (s\<lparr>ops := p\<rparr>) fl C = blocks_ok s fl C"
  by (simp_all add: blocks_ok_def)

lemma blocks_ok_alloc:
  assumes ok: "blocks_ok s (b # fl) C"
  obtains s' where "balloc 1 s = Some (b, s')" and "blocks_ok s' fl (C(b \<mapsto> [b]))"
    and "disk s' = disk s" and "dir s' = dir s" and "fdt s' = fdt s" and "ops s' = ops s"
proof -
  note fr = blocks_ok_free [OF ok]
  then have b: "ffb s = b" "0 \<le> b" "b < 80" "chain (fat s) (fat s b) fl" "b \<notin> set fl"
    using chain_distinct [OF fr] by auto
  let ?n = "if fl = [] then -1 else hd fl"
  let ?s = "s\<lparr>fat := (fat s)(b := -1), ffb := ?n\<rparr>"
  have "balloc 1 s = Some (b, ?s)"
    using balloc_enough [OF fr, of 1] by (cases fl) auto
  moreover have "blocks_ok ?s fl (C(b \<mapsto> [b]))"
    unfolding blocks_ok_def
  proof (intro conjI allI impI, goal_cases)
    case 1
    have "chain (fat s) ?n fl" using b(4) by (cases fl) auto
    with b(5) show ?case by simp
  next
    case (2 a xs)
    then show ?case using blocks_ok_file [OF ok, of a xs] by (auto split: if_splits)
  next
    case (3 a xs)
    then show ?case using blocks_ok_file [OF ok, of a xs] b by (auto split: if_splits)
  next
    case (4 a xs)
    then show ?case using blocks_ok_file [OF ok, of a xs] b by (auto split: if_splits)
  next
    case (5 a c xs ys)
    then show ?case
      using blocks_ok_apart [OF ok, of a xs c ys] blocks_ok_file [OF ok, of a xs]
        blocks_ok_file [OF ok, of c ys] by (auto split: if_splits)
  qed
  ultimately show ?thesis using that by simp
qed

lemma blocks_ok_link:
  assumes ok: "blocks_ok s fl C" and a: "C a = Some xs" and b: "C b = Some [b]" and ab: "a \<noteq> b"
  obtains s' where "add_block (last xs) b s = Some s'" and "blocks_ok s' fl (C(a \<mapsto> xs @ [b], b := None))"
    and "disk s' = disk s" and "dir s' = dir s" and "fdt s' = fdt s" and "ops s' = ops s"
proof -
  note fa = blocks_ok_file [OF ok a] and fb = blocks_ok_file [OF ok b]
  have xb: "b \<notin> set xs" using blocks_ok_apart [OF ok a b ab] by simp
  have l: "last xs \<in> set xs" "0 \<le> last xs" "last xs < 80" "0 \<le> b" "b < 80"
    using fa fb chain_bounds [of "fat s" a xs "last xs"] by auto
  let ?f = "(fat s)(last xs := b, b := -1)"
  have eq: "add_block (last xs) b s = Some (s\<lparr>fat := ?f\<rparr>)"
    using l by (simp add: add_block_def)
  have "chain (fat s) b [b]" using fb by simp
  moreover have "xs = butlast xs @ [last xs]" using fa by simp
  ultimately have "chain ((fat s)(last xs := b)) a (butlast xs @ last xs # [b])"
    using chain_append_upd [of "fat s" a "butlast xs" "last xs" b "[b]"] fa xb by (metis inf_bot_right Int_insert_right list.set(1,2))
  then have "chain ((fat s)(last xs := b)) a (xs @ [b])"
    using fa append_butlast_last_id [of xs] by (metis append_Cons append_Nil append_assoc)
  then have xs': "chain ?f a (xs @ [b])" by (rule chain_cut)
  have "blocks_ok (s\<lparr>fat := ?f\<rparr>) fl (C(a \<mapsto> xs @ [b], b := None))"
    unfolding blocks_ok_def
  proof (intro conjI allI impI, goal_cases)
    case 1
    have "last xs \<notin> set fl" using fa l(1) by blast
    moreover have "b \<notin> set fl" using fb by simp
    ultimately show ?case using blocks_ok_free [OF ok] by simp
  next
    case (2 c ys)
    then show ?case using blocks_ok_file [OF ok, of c ys] by (auto split: if_splits)
  next
    case (3 c ys)
    show ?case
    proof (cases "c = a")
      case True
      with 3 ab xs' show ?thesis by (simp del: fun_upd_apply add: fun_upd_same fun_upd_other)
    next
      case False
      with 3 ab have c: "C c = Some ys" "c \<noteq> b" by (auto split: if_splits)
      have "last xs \<notin> set ys" using blocks_ok_apart [OF ok c(1) a False] l(1) by blast
      moreover have "b \<notin> set ys" using blocks_ok_apart [OF ok c(1) b c(2)] by simp
      ultimately show ?thesis using blocks_ok_file [OF ok c(1)] by simp
    qed
  next
    case (4 c ys)
    then show ?case using blocks_ok_file [OF ok, of c ys] fa fb by (auto split: if_splits)
  next
    case (5 c d ys zs)
    then show ?case
      using blocks_ok_apart [OF ok, of c ys d zs] blocks_ok_apart [OF ok, of c ys a xs]
        blocks_ok_apart [OF ok, of c ys b "[b]"] blocks_ok_apart [OF ok, of d zs a xs]
        blocks_ok_apart [OF ok, of d zs b "[b]"] a b by (auto split: if_splits)
  qed
  with eq that show ?thesis by simp
qed

lemma blocks_ok_freeb:
  assumes ok: "blocks_ok s fl C" and a: "C a = Some xs"
  obtains s' where "freeb a s = Some (0, s')" and "blocks_ok s' (fl @ xs) (C(a := None))"
    and "disk s' = disk s" and "dir s' = dir s" and "fdt s' = fdt s" and "ops s' = ops s"
proof -
  note fa = blocks_ok_file [OF ok a] and fr = blocks_ok_free [OF ok]
  have a': "a \<in> set xs" "0 \<le> a" "a < 80" using fa blocks_ok_hd [OF ok a] chain_bounds [of "fat s" a xs a] by auto
  have rest: "set ys \<inter> set (fl @ xs) = {} \<and> chain (fat s) c ys \<and> ys \<noteq> []"
    if "(C(a := None)) c = Some ys" for c ys
    using that blocks_ok_file [OF ok, of c ys] blocks_ok_apart [OF ok, of c ys a xs] a
    by (auto split: if_splits)
  have apart: "set ys \<inter> set zs = {}" if "c \<noteq> d" "(C(a := None)) c = Some ys" "(C(a := None)) d = Some zs" for c d ys zs
    using that blocks_ok_apart [OF ok, of c ys d zs] by (auto split: if_splits)
  show ?thesis
  proof (cases fl rule: rev_cases)
    case Nil
    with fr have "ffb s = -1" by simp
    then have "freeb a s = Some (0, s\<lparr>ffb := a\<rparr>)" using a' by (simp add: freeb_def)
    moreover have "blocks_ok (s\<lparr>ffb := a\<rparr>) (fl @ xs) (C(a := None))"
      unfolding blocks_ok_def using Nil fa rest apart by auto
    ultimately show ?thesis using that by simp
  next
    case (snoc ys y)
    have y: "0 \<le> y" "y < 80" "fat_last (fat s) (ffb s) = Some y"
      using fr snoc chain_bounds [OF fr, of y] fat_last_chain [of "fat s" "ffb s" ys y] by auto
    have "ffb s \<noteq> -1" using fr snoc by auto
    moreover have "ffb s \<in> set fl" using chain_nonneg [OF fr] \<open>ffb s \<noteq> -1\<close> by auto
    then have "a \<noteq> ffb s" using fa a' by auto
    ultimately have e: "freeb a s = Some (0, s\<lparr>fat := (fat s)(y := a)\<rparr>)"
      using a' y by (simp add: freeb_def)
    have "chain ((fat s)(y := a)) (ffb s) (fl @ xs)"
      using chain_append_upd [of "fat s" "ffb s" ys y a xs] fr fa snoc by auto
    moreover have "chain ((fat s)(y := a)) c zs" if "(C(a := None)) c = Some zs" for c zs
      using rest [OF that] snoc by auto
    ultimately have "blocks_ok (s\<lparr>fat := (fat s)(y := a)\<rparr>) (fl @ xs) (C(a := None))"
      unfolding blocks_ok_def using rest apart by auto
    with e that show ?thesis by simp
  qed
qed

locale block_pool =
  fixes rep :: "'s \<Rightarrow> 'b list \<Rightarrow> ('b \<rightharpoonup> 'b list) \<Rightarrow> bool"
    and alloc :: "'s \<Rightarrow> ('b \<times> 's) option"
    and link :: "'b \<Rightarrow> 'b \<Rightarrow> 's \<Rightarrow> 's option"
    and free :: "'b \<Rightarrow> 's \<Rightarrow> (int \<times> 's) option"
    and none :: 'b
    and view :: "'s \<Rightarrow> 'v"
  assumes alloc_law: "rep s (b # fl) C \<Longrightarrow> \<exists>s'. alloc s = Some (b, s') \<and> rep s' fl (C(b \<mapsto> [b])) \<and> view s' = view s"
    and alloc_none: "rep s [] C \<Longrightarrow> alloc s = Some (none, s)"
    and free_not_none: "rep s fl C \<Longrightarrow> b \<in> set fl \<Longrightarrow> b \<noteq> none"
    and free_not_file: "rep s fl C \<Longrightarrow> b \<in> set fl \<Longrightarrow> C b = None"
    and link_law: "rep s fl C \<Longrightarrow> C a = Some xs \<Longrightarrow> C b = Some [b] \<Longrightarrow> a \<noteq> b \<Longrightarrow>
       \<exists>s'. link (last xs) b s = Some s' \<and> rep s' fl (C(a \<mapsto> xs @ [b], b := None)) \<and> view s' = view s"
    and free_law: "rep s fl C \<Longrightarrow> C a = Some xs \<Longrightarrow>
       \<exists>s'. free a s = Some (0, s') \<and> rep s' (fl @ xs) (C(a := None)) \<and> view s' = view s"
begin

text \<open>A file grows by one block: the first free one, linked after its last.\<close>

lemma extend:
  assumes r: "rep s (b # fl) C" and a: "C a = Some xs"
  obtains s1 s2 where "alloc s = Some (b, s1)" and "link (last xs) b s1 = Some s2"
    and "rep s2 fl (C(a \<mapsto> xs @ [b]))" and "view s2 = view s" and "b \<noteq> none"
proof -
  have Cb: "C b = None" and nb: "b \<noteq> none"
    using free_not_file [OF r] free_not_none [OF r] by auto
  obtain s1 where s1: "alloc s = Some (b, s1)" "rep s1 fl (C(b \<mapsto> [b]))" "view s1 = view s"
    using alloc_law [OF r] by blast
  have ab: "a \<noteq> b" using a Cb by auto
  then have "(C(b \<mapsto> [b])) a = Some xs" using a by simp
  from link_law [OF s1(2) this fun_upd_same ab] obtain s2 where
    s2: "link (last xs) b s1 = Some s2" "rep s2 fl (C(b \<mapsto> [b], a \<mapsto> xs @ [b], b := None))" "view s2 = view s1"
    by blast
  have "C(b \<mapsto> [b], a \<mapsto> xs @ [b], b := None) = C(a \<mapsto> xs @ [b])"
    using Cb ab by (auto simp: fun_eq_iff)
  with s1 s2 nb that show ?thesis by metis
qed

text \<open>Freeing a file and taking its blocks back again reuses them after the free list.\<close>

lemma free_then_alloc:
  assumes r: "rep s [] C" and a: "C a = Some (x # xs)"
  obtains s1 s2 where "free a s = Some (0, s1)" and "alloc s1 = Some (x, s2)"
    and "rep s2 xs (C(a := None, x \<mapsto> [x]))"
  using free_law [OF r a] alloc_law by (metis append_Nil)

end

definition fs_view :: "fs_state \<Rightarrow> fs_state" where
  "fs_view s = s\<lparr>fat := (\<lambda>_. 0), ffb := 0\<rparr>"

lemma fs_view_eqI: "disk s' = disk s \<Longrightarrow> dir s' = dir s \<Longrightarrow> fdt s' = fdt s \<Longrightarrow> ops s' = ops s \<Longrightarrow> fs_view s' = fs_view s"
  by (simp add: fs_view_def)

lemma fs_viewD: "fs_view s' = fs_view s \<Longrightarrow> disk s' = disk s \<and> dir s' = dir s \<and> fdt s' = fdt s \<and> ops s' = ops s"
  by (cases s; cases s') (simp add: fs_view_def)

interpretation bp: block_pool blocks_ok "balloc 1" add_block freeb "-1" fs_view
proof unfold_locales
  fix s fl C a b xs
  show "blocks_ok s (b # fl) C \<Longrightarrow> \<exists>s'. balloc 1 s = Some (b, s') \<and> blocks_ok s' fl (C(b \<mapsto> [b])) \<and> fs_view s' = fs_view s"
    by (erule blocks_ok_alloc) (metis fs_view_eqI)
  show "blocks_ok s [] C \<Longrightarrow> balloc 1 s = Some (-1, s)"
    using balloc_fail [of s "[]" 1] by (simp add: blocks_ok_def)
  show "blocks_ok s fl C \<Longrightarrow> b \<in> set fl \<Longrightarrow> b \<noteq> -1"
    using chain_bounds [of "fat s" "ffb s" fl b] by (auto simp: blocks_ok_def)
  show "blocks_ok s fl C \<Longrightarrow> b \<in> set fl \<Longrightarrow> C b = None" by (rule blocks_ok_free_not_file)
  show "blocks_ok s fl C \<Longrightarrow> C a = Some xs \<Longrightarrow> C b = Some [b] \<Longrightarrow> a \<noteq> b \<Longrightarrow>
      \<exists>s'. add_block (last xs) b s = Some s' \<and> blocks_ok s' fl (C(a \<mapsto> xs @ [b], b := None)) \<and> fs_view s' = fs_view s"
    by (erule (3) blocks_ok_link) (metis fs_view_eqI)
  show "blocks_ok s fl C \<Longrightarrow> C a = Some xs \<Longrightarrow>
      \<exists>s'. freeb a s = Some (0, s') \<and> blocks_ok s' (fl @ xs) (C(a := None)) \<and> fs_view s' = fs_view s"
    by (erule (1) blocks_ok_freeb) (metis fs_view_eqI)
qed

section \<open>The block pool\<close>

lemma initZeosFat_chain: "chain (fat (initZeosFat s)) (ffb (initZeosFat s)) [0..79]"
proof -
  have "chain f a [a..79]" if "\<forall>i. 0 \<le> i \<and> i < 79 \<longrightarrow> f i = i + 1" "f 79 = -1" "0 \<le> a" "a \<le> 79" for f a
    using that
  proof (induction "nat (79 - a)" arbitrary: a)
    case (Suc k)
    then have "chain f (a + 1) [a + 1..79]" by simp
    then show ?case using Suc by (simp add: upto_rec1)
  qed simp
  then show ?thesis by (simp add: initZeosFat_def for_to_fill)
qed

lemma upto_79: "[0..79] = 0 # [1..79 :: int]"
  using upto_rec1 [of 0 79] by simp

text \<open>The globals before \<open>init_filesystem\<close>: static storage starts as zeros.\<close>

definition blank_fs :: fs_state where
  "blank_fs = \<lparr>fat = (\<lambda>_. 0), ffb = 0, disk = (\<lambda>_ _. 0),
     dir = (\<lambda>_. \<lparr>name = (\<lambda>_. 0), access_mode_allow = 0, operations = None, first_block = 0, n_blocks = 0, fsize = 0, n_refs = 0\<rparr>),
     ops = (\<lambda>_. no_ops), fdt = (\<lambda>_. \<lparr>access_mode = 0, refs = 0, voffset = 0, logic_dev = None\<rparr>)\<rparr>"

text \<open>The directory and the open file table after the initialisation.\<close>

lemma keyboard_name:
  "copy_data (lit_ld KEYBOARD_str) name_st 0 0 8 n =
     Some (n(0 := 0x4B, 1 := 0x45, 2 := 0x59, 3 := 0x42, 4 := 0x4F, 5 := 0x41, 6 := 0x52, 7 := 0x44))"
  by (simp add: copy_data_def copy_words.simps copy_bytes.simps copy4_def lit_ld_def name_st_def wr_def KEYBOARD_str_def)

lemma display_name:
  "copy_data (lit_ld DISPLAY_str) name_st 0 0 7 n =
     Some (n(0 := 0x44, 1 := 0x49, 2 := 0x53, 3 := 0x50, 4 := 0x4C, 5 := 0x41, 6 := 0x59))"
  by (simp add: copy_data_def copy_words.simps copy_bytes.simps copy4_def lit_ld_def name_st_def wr_def DISPLAY_str_def)

lemma clear_dir:
  "for_to 0 10 (\<lambda>i s. s\<lparr>dir := (dir s)(i := (dir s i)\<lparr>operations := Some i, n_refs := -1\<rparr>), ops := (ops s)(i := no_ops)\<rparr>) s =
     s\<lparr>dir := (\<lambda>i. if 0 \<le> i \<and> i < 10 then (dir s i)\<lparr>operations := Some i, n_refs := -1\<rparr> else dir s i),
       ops := (\<lambda>i. if 0 \<le> i \<and> i < 10 then no_ops else ops s i)\<rparr>"
proof -
  let ?I = "\<lambda>k t. 0 \<le> k \<and> t = s\<lparr>dir := (\<lambda>i. if 0 \<le> i \<and> i < k then (dir s i)\<lparr>operations := Some i, n_refs := -1\<rparr> else dir s i),
       ops := (\<lambda>i. if 0 \<le> i \<and> i < k then no_ops else ops s i)\<rparr>"
  have "?I 10 (for_to 0 10 (\<lambda>i s. s\<lparr>dir := (dir s)(i := (dir s i)\<lparr>operations := Some i, n_refs := -1\<rparr>), ops := (ops s)(i := no_ops)\<rparr>) s)"
  proof (rule for_to_inv [where I = ?I])
    show "?I 0 s" by (intro conjI fs_state.equality ext) auto
    fix k t
    assume k: "0 \<le> k" "k < 10" and "?I k t"
    then have t: "t = s\<lparr>dir := (\<lambda>i. if 0 \<le> i \<and> i < k then (dir s i)\<lparr>operations := Some i, n_refs := -1\<rparr> else dir s i),
       ops := (\<lambda>i. if 0 \<le> i \<and> i < k then no_ops else ops s i)\<rparr>" by blast
    show "?I (k + 1) (t\<lparr>dir := (dir t)(k := (dir t k)\<lparr>operations := Some k, n_refs := -1\<rparr>), ops := (ops t)(k := no_ops)\<rparr>)"
      unfolding t using k by (intro conjI fs_state.equality ext) auto
  qed simp
  then show ?thesis by blast
qed

lemma init_filesystem_ok:
  obtains s' where "init_filesystem s = Some s'"
    and "\<forall>i. 2 \<le> i \<and> i < 10 \<longrightarrow> dir s' i = (dir s i)\<lparr>operations := Some i, n_refs := -1\<rparr> \<and> ops s' i = no_ops"
    and "name (dir s' 0) = (name (dir s 0))(0 := 0x4B, 1 := 0x45, 2 := 0x59, 3 := 0x42, 4 := 0x4F, 5 := 0x41, 6 := 0x52, 7 := 0x44)"
    and "name (dir s' 1) = (name (dir s 1))(0 := 0x44, 1 := 0x49, 2 := 0x53, 3 := 0x50, 4 := 0x4C, 5 := 0x41, 6 := 0x59)"
    and "operations (dir s' 0) = Some 0" and "operations (dir s' 1) = Some 1" and "n_refs (dir s' 0) = 0" and "n_refs (dir s' 1) = 0"
    and "access_mode_allow (dir s' 0) = O_RDONLY" and "access_mode_allow (dir s' 1) = O_WRONLY"
    and "ops s' 0 = no_ops\<lparr>sys_read_dev := Some F_sys_read_keyboard\<rparr>" and "ops s' 1 = no_ops\<lparr>sys_write_dev := Some F_sys_write_console\<rparr>"
    and "\<forall>v. 0 \<le> v \<and> v < 15 \<longrightarrow> fdt s' v = \<lparr>access_mode = 0, refs = 0, voffset = 0, logic_dev = None\<rparr>"
    and "blocks_ok s' [0..79] Map.empty"
proof -
  obtain s1 where s1: "init_dir s = Some s1" "\<forall>i. 2 \<le> i \<and> i < 10 \<longrightarrow> dir s1 i = (dir s i)\<lparr>operations := Some i, n_refs := -1\<rparr> \<and> ops s1 i = no_ops"
    "name (dir s1 0) = (name (dir s 0))(0 := 0x4B, 1 := 0x45, 2 := 0x59, 3 := 0x42, 4 := 0x4F, 5 := 0x41, 6 := 0x52, 7 := 0x44)"
    "name (dir s1 1) = (name (dir s 1))(0 := 0x44, 1 := 0x49, 2 := 0x53, 3 := 0x50, 4 := 0x4C, 5 := 0x41, 6 := 0x59)"
    "operations (dir s1 0) = Some 0" "operations (dir s1 1) = Some 1" "n_refs (dir s1 0) = 0" "n_refs (dir s1 1) = 0"
    "access_mode_allow (dir s1 0) = O_RDONLY" "access_mode_allow (dir s1 1) = O_WRONLY"
    "ops s1 0 = no_ops\<lparr>sys_read_dev := Some F_sys_read_keyboard\<rparr>" "ops s1 1 = no_ops\<lparr>sys_write_dev := Some F_sys_write_console\<rparr>"
    by (simp add: init_dir_def clear_dir keyboard_name display_name)
  let ?s = "initZeosFat (init_disk (init_fdt s1))"
  have fd: "dir ?s = dir s1" "ops ?s = ops s1" "\<forall>v. 0 \<le> v \<and> v < 15 \<longrightarrow> fdt ?s v = \<lparr>access_mode = 0, refs = 0, voffset = 0, logic_dev = None\<rparr>"
    by (simp_all add: initZeosFat_def init_disk_def init_fdt_def for_to_fill)
  have blocks: "blocks_ok ?s [0..79] Map.empty" using initZeosFat_chain by (simp add: blocks_ok_def del: upto_rec_numeral)
  have "init_filesystem s = Some ?s" using s1(1) by (simp add: init_filesystem_def)
  then show ?thesis using that s1(2-) fd blocks by simp
qed

text \<open>C21: the blocks of the disk are partitioned between the free list and the files: it is so after
  \<open>initZeosFat\<close>, and \<open>balloc\<close>, \<open>add_block\<close> and \<open>freeb\<close> keep it, moving the blocks they are asked to
  move and no other; an empty free list makes \<open>balloc\<close> fail with no change.\<close>

theorem block_pool_conserved:
  shows "blocks_ok (initZeosFat s0) [0..79] Map.empty \<and>
    (blocks_ok s fl C \<longrightarrow>
      (\<forall>b fl'. fl = b # fl' \<longrightarrow> (\<exists>s'. balloc 1 s = Some (b, s') \<and> blocks_ok s' fl' (C(b \<mapsto> [b])) \<and> fs_view s' = fs_view s)) \<and>
      (fl = [] \<longrightarrow> balloc 1 s = Some (-1, s)) \<and>
      (\<forall>a b xs. C a = Some xs \<and> C b = Some [b] \<and> a \<noteq> b \<longrightarrow>
         (\<exists>s'. add_block (last xs) b s = Some s' \<and> blocks_ok s' fl (C(a \<mapsto> xs @ [b], b := None)) \<and> fs_view s' = fs_view s)) \<and>
      (\<forall>a xs. C a = Some xs \<longrightarrow>
         (\<exists>s'. freeb a s = Some (0, s') \<and> blocks_ok s' (fl @ xs) (C(a := None)) \<and> fs_view s' = fs_view s)))"
proof (intro conjI impI allI)
  show "blocks_ok (initZeosFat s0) [0..79] Map.empty" using initZeosFat_chain by (simp add: blocks_ok_def)
  assume ok: "blocks_ok s fl C"
  show "\<exists>s'. balloc 1 s = Some (b, s') \<and> blocks_ok s' fl' (C(b \<mapsto> [b])) \<and> fs_view s' = fs_view s" if "fl = b # fl'" for b fl'
    using bp.alloc_law ok that by blast
  show "balloc 1 s = Some (-1, s)" if "fl = []" using bp.alloc_none ok that by blast
  show "\<exists>s'. add_block (last xs) b s = Some s' \<and> blocks_ok s' fl (C(a \<mapsto> xs @ [b], b := None)) \<and> fs_view s' = fs_view s"
    if "C a = Some xs \<and> C b = Some [b] \<and> a \<noteq> b" for a b xs
    using bp.link_law ok that by blast
  show "\<exists>s'. freeb a s = Some (0, s') \<and> blocks_ok s' (fl @ xs) (C(a := None)) \<and> fs_view s' = fs_view s" if "C a = Some xs" for a xs
    using bp.free_law ok that by blast
qed

theorem block_pool_conserved_witness:
  "\<exists>s'. balloc 1 (initZeosFat blank_fs) = Some (0, s') \<and> blocks_ok s' [1..79] [0 \<mapsto> [0]] \<and> fs_view s' = fs_view (initZeosFat blank_fs)"
proof -
  have "blocks_ok (initZeosFat blank_fs) [0..79] Map.empty" using block_pool_conserved by blast
  then show ?thesis using block_pool_conserved [of blank_fs "initZeosFat blank_fs" "0 # [1..79]" Map.empty] unfolding upto_79 by blast
qed

text \<open>\<open>balloc(n)\<close> cuts the first \<open>n\<close> blocks off the free list, or returns -1 and changes nothing when
  there are fewer or \<open>n\<close> is not positive.\<close>

theorem balloc_takes_prefix:
  assumes "chain (fat s) (ffb s) xs"
  shows "balloc n s = Some (if 1 \<le> n \<and> n \<le> int (length xs)
     then (hd xs, s\<lparr>fat := (fat s)(xs ! nat (n - 1) := -1), ffb := (if n = int (length xs) then -1 else xs ! nat n)\<rparr>)
     else (-1, s))"
proof (cases "1 \<le> n")
  case True
  then show ?thesis using balloc_enough [OF assms] balloc_fail [OF assms] by auto
qed (simp add: balloc_def)

theorem balloc_takes_prefix_witness:
  "balloc 80 (initZeosFat blank_fs) = Some (0, (initZeosFat blank_fs)\<lparr>fat := (fat (initZeosFat blank_fs))(79 := -1), ffb := -1\<rparr>)"
proof -
  have "length [0..79 :: int] = 80" "[0..79 :: int] ! 79 = 79" "hd [0..79 :: int] = 0" by (simp_all add: nth_upto upto_79 del: upto_rec_numeral)
  then show ?thesis using balloc_takes_prefix [OF initZeosFat_chain, of 80 blank_fs] by (simp del: upto_rec_numeral)
qed

end
