(* ===== verification/Files.thy ===== *)
theory Files
  imports Filesystem
begin

text \<open>
  The file routines of \<open>zeos/devices.c\<close>: \<open>sys_write_file\<close>, \<open>sys_read_file\<close> and
  \<open>sys_release_file\<close>. They only touch the file system and, for a read, user memory; the
  open file and its logical device are the indices \<open>vi\<close> and \<open>di\<close> that the kernel
  looks up in the descriptor table of the running process.

  \<open>file_bytes\<close> is the abstract contents of a file: the bytes of its chain of blocks. The
  lemmas show that a write at the end of the file appends to it, and that a read copies a
  part of it.
\<close>

section \<open>The routines\<close>

text \<open>A store into \<open>disk[blk]\<close>, and the loads and stores of the kernel in user memory: below
  \<open>L_USER_START\<close> lie the kernel's own objects, an access there is outside the model.\<close>

definition disk_st :: "int \<Rightarrow> fs_state store" where
  "disk_st blk s j b = do {
     row \<leftarrow> rd MAX_BLOCKS (disk s) blk;
     row \<leftarrow> wr BLOCK_SIZE row j b;
     Some (s\<lparr>disk := (disk s)(blk := row)\<rparr>)
   }"

definition uld :: "mm_state load" where
  "uld m a = (if L_USER_START \<le> a then vread m a else None)"

definition ust :: "mm_state store" where
  "ust m a b = (if L_USER_START \<le> a then vwrite m a b else None)"

definition set_size :: "int \<Rightarrow> int \<Rightarrow> fs_state \<Rightarrow> fs_state" where
  "set_size di n s = s\<lparr>dir := (dir s)(di := (dir s di)\<lparr>fsize := n\<rparr>)\<rparr>"

definition set_offset :: "int \<Rightarrow> int \<Rightarrow> fs_state \<Rightarrow> fs_state" where
  "set_offset vi n s = s\<lparr>fdt := (fdt s)(vi := (fdt s vi)\<lparr>voffset := n\<rparr>)\<rparr>"

text \<open>One turn of the loop of \<open>sys_write_file\<close>: a new block when the size is a positive
  multiple of the block size, then one byte. \<open>Inl\<close> is an early return.\<close>

definition write_room :: "int \<Rightarrow> int \<Rightarrow> int \<Rightarrow> fs_state \<Rightarrow> ((int + int \<times> int) \<times> fs_state) option" where
  "write_room di destBlock destByte s =
     (if fsize (dir s di) mod BLOCK_SIZE = 0 \<and> fsize (dir s di) \<noteq> 0
      then do {
        (newBlock, s) \<leftarrow> balloc 1 s;
        if newBlock = -1 then Some (Inl (- ENOSPC), s)
        else do {
          s \<leftarrow> add_block destBlock newBlock s;
          Some (Inr (newBlock, 0), s\<lparr>dir := (dir s)(di := (dir s di)\<lparr>n_blocks := n_blocks (dir s di) + 1\<rparr>)\<rparr>)
        }
      }
      else Some (Inr (destBlock, destByte), s))"

definition write_step ::
  "(int \<Rightarrow> 8 word option) \<Rightarrow> int \<Rightarrow> int \<Rightarrow> int \<Rightarrow> int \<Rightarrow> int \<Rightarrow> fs_state \<Rightarrow> ((int + int \<times> int) \<times> fs_state) option" where
  "write_step ld addr vi di destBlock destByte s = do {
     (r, s) \<leftarrow> write_room di destBlock destByte s;
     case r of
       Inl e \<Rightarrow> Some (Inl e, s)
     | Inr (destBlock, destByte) \<Rightarrow> do {
         (rc, s) \<leftarrow> copy_from_user (\<lambda>_. ld) (disk_st destBlock) addr destByte 1 s;
         if rc \<noteq> 0 then Some (Inl (- EFAULT), s)
         else do {
           let s = set_offset vi (voffset (fdt s vi) + 1) s;
           let s = (if fsize (dir s di) < voffset (fdt s vi) then set_size di (fsize (dir s di) + 1) s else s);
           Some (Inr (destBlock, destByte + 1), s)
         }
       }
   }"

function write_loop ::
  "(int \<Rightarrow> 8 word option) \<Rightarrow> int \<Rightarrow> int \<Rightarrow> int \<Rightarrow> int \<Rightarrow> int \<Rightarrow> int \<Rightarrow> int \<Rightarrow> fs_state \<Rightarrow> (int \<times> fs_state) option" where
  "write_loop ld buffer n vi di i destBlock destByte s =
     (if i < n
      then Option.bind (write_step ld (buffer + i) vi di destBlock destByte s)
        (\<lambda>(r, s). case r of Inl e \<Rightarrow> Some (e, s)
           | Inr (destBlock, destByte) \<Rightarrow> write_loop ld buffer n vi di (i + 1) destBlock destByte s)
      else Some (i, s))"
  by pat_completeness auto
termination
  by (relation "measure (\<lambda>(ld, buffer, n, vi, di, i, _). nat (n - i))") auto

declare write_loop.simps [simp del]

definition sys_write_file :: "(int \<Rightarrow> 8 word option) \<Rightarrow> int \<Rightarrow> int \<Rightarrow> int \<Rightarrow> int \<Rightarrow> fs_state \<Rightarrow> (int \<times> fs_state) option" where
  "sys_write_file ld vi di buffer n s = do {
     let destByte = voffset (fdt s vi) mod BLOCK_SIZE;
     destBlock \<leftarrow> fat_last (fat s) (first_block (dir s di));
     write_loop ld buffer n vi di 0 destBlock destByte s
   }"

text \<open>\<open>for (i = 0; i < nthBlock; i++) block0 = fat[block0];\<close>\<close>

definition nth_block :: "int arr \<Rightarrow> int \<Rightarrow> int \<Rightarrow> int option" where
  "nth_block f nthBlock block0 = for_opt 0 nthBlock (\<lambda>_ b. rd MAX_BLOCKS f b) block0"

text \<open>The loop of \<open>sys_read_file\<close>; \<open>n\<close> is the requested size.\<close>

definition read_step :: "int \<Rightarrow> int \<Rightarrow> int \<Rightarrow> int \<Rightarrow> int \<Rightarrow> fs_state \<times> mm_state \<Rightarrow>
    ((int \<times> int) option \<times> fs_state \<times> mm_state) option" where
  "read_step addr n vi block0 byte0 sm = do {
     let (s, m) = sm;
     r \<leftarrow> (if byte0 mod BLOCK_SIZE = 0 \<and> byte0 \<noteq> 0
       then if voffset (fdt s vi) = n then Some None
         else do {
           e \<leftarrow> rd MAX_BLOCKS (fat s) block0;
           if e = -1 then Some None else Some (Some (e, 0))
         }
       else Some (Some (block0, byte0)));
     case r of
       None \<Rightarrow> Some (None, s, m)
     | Some (block0, byte0) \<Rightarrow> do {
         row \<leftarrow> rd MAX_BLOCKS (disk s) block0;
         b \<leftarrow> rd BLOCK_SIZE row byte0;
         m \<leftarrow> ust m addr b;
         Some (Some (block0, byte0 + 1), set_offset vi (voffset (fdt s vi) + 1) s, m)
       }
   }"

function read_loop :: "int \<Rightarrow> int \<Rightarrow> int \<Rightarrow> int \<Rightarrow> int \<Rightarrow> int \<Rightarrow> int \<Rightarrow> fs_state \<times> mm_state \<Rightarrow>
    (int \<times> fs_state \<times> mm_state) option" where
  "read_loop buffer n vi di i block0 byte0 sm =
     (if i < n \<and> voffset (fdt (fst sm) vi) < fsize (dir (fst sm) di)
      then Option.bind (read_step (buffer + i) n vi block0 byte0 sm)
        (\<lambda>(r, sm). case r of None \<Rightarrow> Some (i, sm)
           | Some (block0, byte0) \<Rightarrow> read_loop buffer n vi di (i + 1) block0 byte0 sm)
      else Some (i, sm))"
  by pat_completeness auto
termination
  by (relation "measure (\<lambda>(buffer, n, vi, di, i, _). nat (n - i))") auto

declare read_loop.simps [simp del]

definition sys_read_file :: "int \<Rightarrow> int \<Rightarrow> int \<Rightarrow> int \<Rightarrow> fs_state \<times> mm_state \<Rightarrow> (int \<times> fs_state \<times> mm_state) option" where
  "sys_read_file vi di buffer n sm = do {
     let (s, m) = sm;
     let nthBlock = voffset (fdt s vi) div BLOCK_SIZE;
     let byte0 = voffset (fdt s vi) mod BLOCK_SIZE;
     block0 \<leftarrow> nth_block (fat s) nthBlock (first_block (dir s di));
     read_loop buffer n vi di 0 block0 byte0 (s, m)
   }"

definition sys_release_file :: "int \<Rightarrow> fs_state \<Rightarrow> (int \<times> fs_state) option" where
  "sys_release_file entry s = do {
     (_, s) \<leftarrow> freeb (first_block (dir s entry)) s;
     Some (0, s\<lparr>dir := (dir s)(entry := (dir s entry)\<lparr>n_blocks := 0, fsize := 0\<rparr>)\<rparr>)
   }"

section \<open>The contents of a file\<close>

definition file_bytes :: "fs_state \<Rightarrow> int list \<Rightarrow> nat \<Rightarrow> 8 word list" where
  "file_bytes s xs n = map (\<lambda>k. disk s (xs ! (k div 256)) (int (k mod 256))) [0..<n]"

text \<open>The file of entry \<open>di\<close> has the chain \<open>xs\<close>, with as many blocks as its size needs.\<close>

definition file_at :: "fs_state \<Rightarrow> int list \<Rightarrow> (int \<rightharpoonup> int list) \<Rightarrow> int \<Rightarrow> int list \<Rightarrow> bool" where
  "file_at s fl C di xs \<longleftrightarrow> blocks_ok s fl C \<and> C (first_block (dir s di)) = Some xs \<and>
     0 \<le> fsize (dir s di) \<and> fsize (dir s di) \<le> 256 * int (length xs) \<and>
     (length xs = 1 \<or> 256 * (int (length xs) - 1) < fsize (dir s di))"

lemma length_file_bytes [simp]: "length (file_bytes s xs n) = n"
  by (simp add: file_bytes_def)

lemma file_bytes_0 [simp]: "file_bytes s xs 0 = []"
  by (simp add: file_bytes_def)

lemma file_bytes_Suc: "file_bytes s xs (Suc n) = file_bytes s xs n @ [disk s (xs ! (n div 256)) (int (n mod 256))]"
  by (simp add: file_bytes_def)

lemma file_bytes_cong:
  assumes "\<And>k. k < n \<Longrightarrow> ys ! (k div 256) = xs ! (k div 256)"
    and "\<And>k. k < n \<Longrightarrow> disk t (xs ! (k div 256)) (int (k mod 256)) = disk s (xs ! (k div 256)) (int (k mod 256))"
  shows "file_bytes t ys n = file_bytes s xs n"
  using assms by (simp add: file_bytes_def)

lemma nth_file_bytes: "k < n \<Longrightarrow> file_bytes s xs n ! k = disk s (xs ! (k div 256)) (int (k mod 256))"
  by (simp add: file_bytes_def)

section \<open>Writing at the end of a file\<close>

lemma file_at_blocks: "file_at s fl C di xs \<Longrightarrow> blocks_ok s fl C \<and> C (first_block (dir s di)) = Some xs \<and> xs \<noteq> []"
  using blocks_ok_file [of s fl C "first_block (dir s di)" xs] by (simp add: file_at_def)

text \<open>A file that fills its blocks exactly is the only one that needs another block.\<close>

lemma file_at_full:
  assumes "file_at s fl C di xs" "fsize (dir s di) mod 256 = 0" "fsize (dir s di) \<noteq> 0"
  shows "fsize (dir s di) = 256 * int (length xs)"
proof -
  obtain q where q: "fsize (dir s di) = 256 * q" using assms(2) by (auto simp: mod_eq_0_iff_dvd)
  with assms show ?thesis by (auto simp: file_at_def)
qed

lemma write_room_ok:
  assumes F: "file_at s fl C di xs"
    and db: "destByte = fsize (dir s di) mod 256 \<or> fsize (dir s di) mod 256 = 0 \<and> fsize (dir s di) \<noteq> 0"
    and room: "fsize (dir s di) < 256 * int (length xs + length fl)"
  obtains s' ys fl' where "write_room di (last xs) destByte s = Some (Inr (last (xs @ ys), fsize (dir s di) mod 256), s')"
    and "ys @ fl' = fl" and "blocks_ok s' fl' (C(first_block (dir s di) \<mapsto> xs @ ys))"
    and "disk s' = disk s" and "fdt s' = fdt s" and "ops s' = ops s"
    and "\<exists>n. dir s' = (dir s)(di := (dir s di)\<lparr>n_blocks := n\<rparr>)"
    and "256 * (int (length (xs @ ys)) - 1) \<le> fsize (dir s di)" and "fsize (dir s di) < 256 * int (length (xs @ ys))"
proof (cases "fsize (dir s di) mod 256 = 0 \<and> fsize (dir s di) \<noteq> 0")
  case True
  note full = file_at_full [OF F] and bx = file_at_blocks [OF F]
  with True room obtain b gl where fl: "fl = b # gl" by (cases fl) auto
  have ok: "blocks_ok s (b # gl) C" using bx fl by simp
  obtain s1 s2 where s: "balloc 1 s = Some (b, s1)" "add_block (last xs) b s1 = Some s2"
    "blocks_ok s2 gl (C(first_block (dir s di) \<mapsto> xs @ [b]))" "fs_view s2 = fs_view s" "b \<noteq> -1"
    using bp.extend [OF ok] bx by metis
  note v = fs_viewD [OF s(4)]
  let ?s = "s2\<lparr>dir := (dir s2)(di := (dir s2 di)\<lparr>n_blocks := n_blocks (dir s2 di) + 1\<rparr>)\<rparr>"
  have r: "write_room di (last xs) destByte s = Some (Inr (b, 0), ?s)"
    using True s by (simp add: write_room_def)
  show ?thesis
    by (rule that [of "[b]" ?s gl]) (use r s v True fl full in auto)
next
  case False
  then have r: "write_room di (last xs) destByte s = Some (Inr (last xs, fsize (dir s di) mod 256), s)"
    using db by (auto simp: write_room_def)
  have "fsize (dir s di) \<noteq> 256 * int (length xs)" using False file_at_blocks [OF F] by auto
  then have len: "256 * (int (length xs) - 1) \<le> fsize (dir s di)" "fsize (dir s di) < 256 * int (length xs)"
    using F by (auto simp: file_at_def)
  have "C(first_block (dir s di) \<mapsto> xs) = C" using file_at_blocks [OF F] by (simp add: fun_upd_idem)
  moreover have "dir s = (dir s)(di := (dir s di)\<lparr>n_blocks := n_blocks (dir s di)\<rparr>)" by simp
  ultimately show ?thesis
    using that [of "[]" s fl] r len file_at_blocks [OF F] by (metis append_Nil append_Nil2)
qed

lemma write_room_full:
  assumes F: "file_at s fl C di xs" and room: "256 * int (length xs + length fl) \<le> fsize (dir s di)"
  shows "write_room di (last xs) destByte s = Some (Inl (- ENOSPC), s) \<and> fl = []"
proof -
  have "fsize (dir s di) \<le> 256 * int (length xs)" using F by (simp add: file_at_def)
  moreover from this room have "int (length fl) \<le> 0" unfolding of_nat_add distrib_left by linarith
  then have "fl = []" by simp
  ultimately have e: "fsize (dir s di) = 256 * int (length xs)" "fl = []" "xs \<noteq> []"
    using room file_at_blocks [OF F] by simp_all
  have "balloc 1 s = Some (-1, s)" using bp.alloc_none [of s C] file_at_blocks [OF F] e by simp
  with e show ?thesis by (simp add: write_room_def)
qed

lemma copy_one: "ld a = Some b \<Longrightarrow> copy_from_user (\<lambda>_. ld) st a q 1 s = map_option (Pair 0) (st s q b)"
  by (cases "st s q b") (simp_all add: copy_from_user_def copy_words.simps copy_bytes.simps)

lemma disk_st_in: "0 \<le> blk \<Longrightarrow> blk < 80 \<Longrightarrow> 0 \<le> j \<Longrightarrow> j < 256 \<Longrightarrow>
    disk_st blk s j b = Some (s\<lparr>disk := (disk s)(blk := (disk s blk)(j := b))\<rparr>)"
  by (simp add: disk_st_def)

text \<open>One byte is appended: the file's blocks and the free list only shift the blocks between them.\<close>

definition set_contents :: "int \<Rightarrow> int \<Rightarrow> int \<Rightarrow> 8 word \<Rightarrow> int \<Rightarrow> int \<Rightarrow> fs_state \<Rightarrow> fs_state" where
  "set_contents blk j n b vi di s = set_size di n (set_offset vi n (s\<lparr>disk := (disk s)(blk := (disk s blk)(j := b))\<rparr>))"

text \<open>The byte after the last one of a file, stored at its place in the last block.\<close>

lemma file_bytes_put:
  assumes d: "distinct (xs @ ys)" and k: "n div 256 = length (xs @ ys) - 1" "xs @ ys \<noteq> []" and xs: "n \<le> 256 * length xs"
    and t: "disk t = (disk s)(last (xs @ ys) := (disk s (last (xs @ ys)))(int (n mod 256) := b))"
  shows "file_bytes t (xs @ ys) (Suc n) = file_bytes s xs n @ [b]"
proof -
  let ?xs = "xs @ ys"
  have last: "?xs ! (n div 256) = last ?xs" using k by (simp add: last_conv_nth del: last_append)
  have "file_bytes t ?xs n = file_bytes s xs n"
  proof (rule file_bytes_cong)
    fix j
    assume j: "j < n"
    then have jx: "j div 256 < length xs" using xs by auto
    then show e: "?xs ! (j div 256) = xs ! (j div 256)" by (simp add: nth_append)
    have "j div 256 \<noteq> n div 256 \<or> j mod 256 \<noteq> n mod 256" using j by (metis div_mult_mod_eq nat_neq_iff)
    moreover have "j div 256 = n div 256" if "?xs ! (j div 256) = last ?xs"
      using that last d k jx nth_eq_iff_index_eq [of ?xs "j div 256" "n div 256"] by auto
    ultimately have "xs ! (j div 256) \<noteq> last ?xs \<or> int (j mod 256) \<noteq> int (n mod 256)" unfolding e of_nat_eq_iff by blast
    then show "disk t (xs ! (j div 256)) (int (j mod 256)) = disk s (xs ! (j div 256)) (int (j mod 256))" unfolding t by auto
  qed
  moreover have "disk t (?xs ! (n div 256)) (int (n mod 256)) = b" unfolding last t by simp
  ultimately show ?thesis by (simp add: file_bytes_Suc)
qed

text \<open>
  What a write does: the bytes \<open>bs\<close> are behind the contents, in the blocks \<open>ys\<close> taken from the free list where the last block
  was full, the offset is at the end again, and nothing else has changed.
\<close>

definition wrote :: "int \<Rightarrow> int \<Rightarrow> (int \<rightharpoonup> int list) \<Rightarrow> int list \<Rightarrow> int list \<Rightarrow> fs_state \<Rightarrow> 8 word list \<Rightarrow> int list \<Rightarrow> int list \<Rightarrow> fs_state \<Rightarrow> bool" where
  "wrote vi di C xs fl s bs ys fl' s' \<longleftrightarrow> ys @ fl' = fl \<and> file_at s' fl' (C(first_block (dir s di) \<mapsto> xs @ ys)) di (xs @ ys) \<and>
     fsize (dir s' di) = fsize (dir s di) + int (length bs) \<and> voffset (fdt s' vi) = fsize (dir s' di) \<and>
     first_block (dir s' di) = first_block (dir s di) \<and>
     file_bytes s' (xs @ ys) (nat (fsize (dir s' di))) = file_bytes s xs (nat (fsize (dir s di))) @ bs \<and>
     (\<forall>blk. blk \<notin> set (xs @ ys) \<longrightarrow> disk s' blk = disk s blk) \<and> (\<forall>e. e \<noteq> di \<longrightarrow> dir s' e = dir s e) \<and>
     (\<forall>v. v \<noteq> vi \<longrightarrow> fdt s' v = fdt s v)"

lemma wrote_nothing:
  assumes "file_at s fl C di xs" and "voffset (fdt s vi) = fsize (dir s di)"
  shows "wrote vi di C xs fl s [] [] fl s"
  using assms file_at_blocks [OF assms(1)] by (simp add: wrote_def fun_upd_idem)

lemma wrote_trans:
  assumes "wrote vi di C xs fl s bs ys fl1 s1" and "wrote vi di (C(first_block (dir s di) \<mapsto> xs @ ys)) (xs @ ys) fl1 s1 cs zs fl2 s2"
  shows "wrote vi di C xs fl s (bs @ cs) (ys @ zs) fl2 s2"
  using assms by (auto simp: wrote_def)

lemma write_step_append:
  assumes F: "file_at s fl C di xs" and off: "voffset (fdt s vi) = fsize (dir s di)"
    and db: "destByte = fsize (dir s di) mod 256 \<or> fsize (dir s di) mod 256 = 0 \<and> fsize (dir s di) \<noteq> 0"
    and room: "fsize (dir s di) < 256 * int (length xs + length fl)"
    and ld: "ld addr = Some b"
  obtains s' ys fl' where
    "write_step ld addr vi di (last xs) destByte s = Some (Inr (last (xs @ ys), fsize (dir s di) mod 256 + 1), s')"
    and "wrote vi di C xs fl s [b] ys fl' s'"
proof -
  let ?z = "fsize (dir s di)" and ?fb = "first_block (dir s di)"
  obtain s1 ys fl' n where r: "write_room di (last xs) destByte s = Some (Inr (last (xs @ ys), ?z mod 256), s1)"
    "ys @ fl' = fl" "blocks_ok s1 fl' (C(?fb \<mapsto> xs @ ys))" "disk s1 = disk s" "fdt s1 = fdt s" "ops s1 = ops s"
    "dir s1 = (dir s)(di := (dir s di)\<lparr>n_blocks := n\<rparr>)"
    "256 * (int (length (xs @ ys)) - 1) \<le> ?z" "?z < 256 * int (length (xs @ ys))"
    using write_room_ok [OF F db room] by metis
  let ?xs = "xs @ ys" and ?s = "set_contents (last (xs @ ys)) (?z mod 256) (?z + 1) b vi di s1"
  have ne: "?xs \<noteq> []" using file_at_blocks [OF F] by simp
  have ch: "chain (fat s1) ?fb ?xs" using blocks_ok_file [OF r(3), of ?fb ?xs] by simp
  have lb: "0 \<le> last ?xs" "last ?xs < 80" using chain_bounds [OF ch last_in_set [OF ne]] by auto
  have z: "0 \<le> ?z" "nat ?z \<le> 256 * length xs" "int (nat ?z mod 256) = ?z mod 256" using F by (auto simp: file_at_def zmod_int)
  have len: "nat ?z div 256 = length ?xs - 1" using r(8,9) z ne by (cases ?xs) auto
  have w: "write_step ld addr vi di (last xs) destByte s = Some (Inr (last ?xs, ?z mod 256 + 1), ?s)"
    using r(1,5,7) ld lb off
    by (simp add: write_step_def copy_one disk_st_in set_contents_def set_offset_def set_size_def del: last_append)
  have dir': "dir ?s = (dir s)(di := (dir s di)\<lparr>n_blocks := n, fsize := ?z + 1\<rparr>)"
    and disk': "disk ?s = (disk s)(last ?xs := (disk s (last ?xs))(int (nat ?z mod 256) := b))"
    and off': "voffset (fdt ?s vi) = ?z + 1" and fdt': "\<forall>v. v \<noteq> vi \<longrightarrow> fdt ?s v = fdt s v"
    using r(4,5,7) z(3) by (simp_all add: set_contents_def set_size_def set_offset_def del: last_append)
  have F': "file_at ?s fl' (C(?fb \<mapsto> ?xs)) di ?xs"
    using r(3,7,8,9) z by (auto simp: file_at_def set_contents_def set_size_def set_offset_def)
  have "file_bytes ?s ?xs (Suc (nat ?z)) = file_bytes s xs (nat ?z) @ [b]"
    by (rule file_bytes_put [OF chain_distinct [OF ch] len ne z(2) disk'])
  moreover have "\<forall>blk. blk \<notin> set ?xs \<longrightarrow> disk ?s blk = disk s blk" using disk' last_in_set [OF ne] by auto
  ultimately have "wrote vi di C xs fl s [b] ys fl' ?s"
    using r(2) F' dir' off' fdt' z(1) by (simp add: wrote_def Suc_nat_eq_nat_zadd1 add.commute)
  then show ?thesis using that [OF w] by blast
qed

lemma succ_div_mod:
  "(z + 1) mod (256 :: int) = z mod 256 + 1 \<and> (z + 1) mod 256 \<noteq> 0 \<and> (z + 1) div 256 = z div 256 \<or>
   (z + 1) mod 256 = 0 \<and> z mod 256 = 255 \<and> (z + 1) div 256 = z div 256 + 1"
proof -
  define d r where "d = z div 256" and "r = z mod 256"
  have z: "z + 1 = 256 * d + (r + 1)" by (simp add: d_def r_def)
  have r: "0 \<le> r" "r < 256" by (simp_all add: r_def)
  consider "r + 1 < 256" | "r = 255" using r by linarith
  then show ?thesis
  proof cases
    case 1
    then have "(z + 1) div 256 = d" "(z + 1) mod 256 = r + 1"
      using r unfolding z by (simp_all add: div_pos_pos_trivial mod_pos_pos_trivial)
    then show ?thesis using r by (simp flip: d_def r_def)
  next
    case 2
    then have "z + 1 = 256 * (d + 1)" using z by simp
    then have "(z + 1) div 256 = d + 1" "(z + 1) mod 256 = 0" by simp_all
    then show ?thesis using 2 by (simp flip: d_def r_def)
  qed
qed

text \<open>The loop appends the bytes of the buffer as long as there are blocks for them.\<close>

lemma write_loop_append:
  assumes "file_at s fl C di xs" "voffset (fdt s vi) = fsize (dir s di)"
    and "destByte = fsize (dir s di) mod 256 \<or> fsize (dir s di) mod 256 = 0 \<and> fsize (dir s di) \<noteq> 0"
    and "load_list (\<lambda>_. ld) () (buffer + i) (length bs) = Some bs" and "n = i + int (length bs)"
    and "cap = nat (256 * int (length xs + length fl) - fsize (dir s di))"
  shows "\<exists>s' ys fl'. write_loop ld buffer n vi di i (last xs) destByte s = Some (if length bs \<le> cap then n else - ENOSPC, s') \<and>
    wrote vi di C xs fl s (take cap bs) ys fl' s'"
  using assms
proof (induction bs arbitrary: i destByte s fl C xs cap)
  case Nil
  then show ?case using wrote_nothing [OF Nil.prems(1,2)] by (intro exI [of _ s] exI [of _ "[]"] exI [of _ fl]) (simp add: write_loop.simps)
next
  case (Cons b bs)
  note F = Cons.prems(1)
  have z: "0 \<le> fsize (dir s di)" using F by (simp add: file_at_def)
  have i: "i < n" using Cons.prems(5) by simp
  have ld: "ld (buffer + i) = Some b" "load_list (\<lambda>_. ld) () (buffer + (i + 1)) (length bs) = Some bs"
    using Cons.prems(4) by (auto simp: add.assoc dest!: bind_SomeD)
  show ?case
  proof (cases "cap = 0")
    case True
    then have "256 * int (length xs + length fl) \<le> fsize (dir s di)" using Cons.prems(6) by simp
    from write_room_full [OF F this] have "write_step ld (buffer + i) vi di (last xs) destByte s = Some (Inl (- ENOSPC), s)"
      by (simp add: write_step_def)
    then show ?thesis
      using wrote_nothing [OF Cons.prems(1,2)] True i
      by (intro exI [of _ s] exI [of _ "[]"] exI [of _ fl]) (simp add: write_loop.simps [of _ _ _ _ _ i])
  next
    case False
    then have room: "fsize (dir s di) < 256 * int (length xs + length fl)" and c: "cap = Suc (cap - 1)" using Cons.prems(6) by auto
    obtain s1 ys fl1 where s1: "write_step ld (buffer + i) vi di (last xs) destByte s = Some (Inr (last (xs @ ys), fsize (dir s di) mod 256 + 1), s1)"
      and w1: "wrote vi di C xs fl s [b] ys fl1 s1"
      using write_step_append [where ld = ld and addr = "buffer + i", OF F Cons.prems(2,3) room ld(1)] by metis
    have sz: "fsize (dir s1 di) = fsize (dir s di) + 1" "voffset (fdt s1 vi) = fsize (dir s1 di)" "ys @ fl1 = fl"
      and F1: "file_at s1 fl1 (C(first_block (dir s di) \<mapsto> xs @ ys)) di (xs @ ys)" using w1 by (simp_all add: wrote_def)
    have db: "fsize (dir s di) mod 256 + 1 = fsize (dir s1 di) mod 256 \<or> fsize (dir s1 di) mod 256 = 0 \<and> fsize (dir s1 di) \<noteq> 0"
      using sz(1) z succ_div_mod [of "fsize (dir s di)"] by auto
    have "n = i + 1 + int (length bs)" "cap - 1 = nat (256 * int (length (xs @ ys) + length fl1) - fsize (dir s1 di))"
      using Cons.prems(5,6) sz(1,3) by auto
    from Cons.IH [OF F1 sz(2) db ld(2) this] obtain s' zs fl2 where
      l: "write_loop ld buffer n vi di (i + 1) (last (xs @ ys)) (fsize (dir s di) mod 256 + 1) s1 =
        Some (if length bs \<le> cap - 1 then n else - ENOSPC, s')"
      and w2: "wrote vi di (C(first_block (dir s di) \<mapsto> xs @ ys)) (xs @ ys) fl1 s1 (take (cap - 1) bs) zs fl2 s'" by blast
    have "write_loop ld buffer n vi di i (last xs) destByte s = Some (if length (b # bs) \<le> cap then n else - ENOSPC, s')"
      using i s1 l False by (auto simp: write_loop.simps [of _ _ _ _ _ i])
    moreover have "take cap (b # bs) = [b] @ take (cap - 1) bs" by (subst c) simp
    ultimately show ?thesis using wrote_trans [OF w1 w2] by metis
  qed
qed

lemma sys_write_file_append:
  assumes F: "file_at s fl C di xs" and off: "voffset (fdt s vi) = fsize (dir s di)"
    and bs: "load_list (\<lambda>_. ld) () buffer (length bs) = Some bs"
    and cap: "cap = nat (256 * int (length xs + length fl) - fsize (dir s di))"
  shows "\<exists>s' ys fl'. sys_write_file ld vi di buffer (int (length bs)) s =
      Some (if length bs \<le> cap then int (length bs) else - ENOSPC, s') \<and>
    ys @ fl' = fl \<and> file_at s' fl' (C(first_block (dir s di) \<mapsto> xs @ ys)) di (xs @ ys) \<and>
    fsize (dir s' di) = fsize (dir s di) + int (min (length bs) cap) \<and> voffset (fdt s' vi) = fsize (dir s' di) \<and>
    file_bytes s' (xs @ ys) (nat (fsize (dir s' di))) = file_bytes s xs (nat (fsize (dir s di))) @ take cap bs \<and>
    (\<forall>blk. blk \<notin> set (xs @ ys) \<longrightarrow> disk s' blk = disk s blk) \<and> (\<forall>e. e \<noteq> di \<longrightarrow> dir s' e = dir s e) \<and>
    (\<forall>v. v \<noteq> vi \<longrightarrow> fdt s' v = fdt s v)"
proof -
  note b = file_at_blocks [OF F]
  have "chain (fat s) (first_block (dir s di)) (butlast xs @ [last xs])"
    using b blocks_ok_file [of s fl C "first_block (dir s di)" xs] by simp
  then have fl: "fat_last (fat s) (first_block (dir s di)) = Some (last xs)" by (rule fat_last_chain)
  have "load_list (\<lambda>_. ld) () (buffer + 0) (length bs) = Some bs" using bs by simp
  moreover have "int (length bs) = 0 + int (length bs)" by simp
  moreover have "sys_write_file ld vi di buffer (int (length bs)) s =
      write_loop ld buffer (int (length bs)) vi di 0 (last xs) (fsize (dir s di) mod 256) s"
    using off fl by (simp add: sys_write_file_def)
  ultimately obtain s' ys fl' where "sys_write_file ld vi di buffer (int (length bs)) s = Some (if length bs \<le> cap then int (length bs) else - ENOSPC, s')"
    "wrote vi di C xs fl s (take cap bs) ys fl' s'"
    using write_loop_append [OF F off disjI1 [OF refl] _ _ cap] by metis
  then show ?thesis unfolding wrote_def length_take by blast
qed

section \<open>Reading a file\<close>

text \<open>
  The offset at which a read of \<open>n\<close> bytes from offset \<open>o0\<close> stops. The loop also stops at
  a block boundary when the offset happens to equal the requested size.
\<close>

definition read_end :: "int \<Rightarrow> int \<Rightarrow> int \<Rightarrow> int" where
  "read_end n z o0 = (if 0 < o0 \<and> o0 < n \<and> n mod 256 = 0 \<and> n < z then n else min (o0 + n) z)"

text \<open>Where the loop stands at offset \<open>o1\<close>: inside a block, or past the end of one.\<close>

definition read_pos :: "int list \<Rightarrow> int \<Rightarrow> int \<Rightarrow> int \<Rightarrow> int \<Rightarrow> int \<Rightarrow> bool" where
  "read_pos xs z o0 o1 block0 byte0 \<longleftrightarrow>
     byte0 = o1 mod 256 \<and> (o1 mod 256 \<noteq> 0 \<or> o1 = o0) \<and> (o1 < z \<longrightarrow> block0 = xs ! nat (o1 div 256)) \<or>
     byte0 = 256 \<and> o1 mod 256 = 0 \<and> o0 < o1 \<and> block0 = xs ! nat (o1 div 256 - 1)"

lemma chain_nth: "chain f b xs \<Longrightarrow> Suc k < length xs \<Longrightarrow> f (xs ! k) = xs ! Suc k"
proof (induction xs arbitrary: b k)
  case (Cons x xs)
  then show ?case by (cases k; cases xs) auto
qed simp

lemma nth_block_chain:
  assumes c: "chain f b xs" and k: "k \<le> length xs"
  shows "nth_block f (int k) b = Some (if k = length xs then -1 else xs ! k)"
proof -
  let ?I = "\<lambda>j t. 0 \<le> j \<and> t = (if nat j = length xs then -1 else xs ! nat j)"
  have "\<exists>t. for_opt 0 (int k) (\<lambda>_ b. rd MAX_BLOCKS f b) b = Some t \<and> ?I (int k) t"
  proof (rule for_opt_inv)
    show "?I 0 b" using c by (cases xs) auto
    fix j t
    assume j: "0 \<le> j" "j < int k" "?I j t"
    then have l: "nat j < length xs" "t = xs ! nat j" "nat (j + 1) = Suc (nat j)" using k by auto
    then have "0 \<le> t" "t < 80" using chain_bounds [OF c, of t] by auto
    moreover have "f t = (if Suc (nat j) = length xs then -1 else xs ! Suc (nat j))"
    proof (cases "Suc (nat j) = length xs")
      case True
      then have "nat j = length xs - 1" "xs \<noteq> []" using l by auto
      then show ?thesis using chain_last [OF c] l True by (simp add: last_conv_nth)
    next
      case False
      then show ?thesis using chain_nth [OF c, of "nat j"] l by auto
    qed
    ultimately show "\<exists>t'. rd MAX_BLOCKS f t = Some t' \<and> ?I (j + 1) t'" using l j by simp
  qed simp
  then show ?thesis by (simp add: nth_block_def)
qed

lemma set_offset_id: "voffset (fdt s vi) = n \<Longrightarrow> set_offset vi n s = s"
  by (simp add: set_offset_def fun_upd_idem)

lemma set_offset_simps [simp]:
  "fat (set_offset vi n s) = fat s" "disk (set_offset vi n s) = disk s" "dir (set_offset vi n s) = dir s"
  "voffset (fdt (set_offset vi n s) vi) = n" "set_offset vi k (set_offset vi n s) = set_offset vi k s"
  by (simp_all add: set_offset_def)

text \<open>One turn of the loop copies the byte at the current offset.\<close>

lemma read_step_spec:
  assumes c: "chain (fat s) b xs" and z: "z \<le> 256 * int (length xs)"
    and o1: "voffset (fdt s vi) = o1" "0 \<le> o0" "o0 \<le> o1" "o1 < z"
    and pos: "read_pos xs z o0 o1 block0 byte0" and go: "o1 = n \<Longrightarrow> byte0 \<noteq> 256"
  obtains block1 byte1 where "read_pos xs z o0 (o1 + 1) block1 byte1"
    and "read_step addr n vi block0 byte0 (s, m) =
      map_option (\<lambda>m. (Some (block1, byte1), set_offset vi (o1 + 1) s, m))
        (ust m addr (disk s (xs ! nat (o1 div 256)) (o1 mod 256)))"
proof -
  let ?q = "nat (o1 div 256)"
  have q: "?q < length xs" "0 \<le> o1 div 256" using o1 z by auto
  then have blk: "0 \<le> xs ! ?q" "xs ! ?q < 80" using chain_bounds [OF c, of "xs ! ?q"] by auto
  have r: "(if byte0 mod 256 = 0 \<and> byte0 \<noteq> 0
       then if voffset (fdt s vi) = n then Some None
         else Option.bind (rd 80 (fat s) block0) (\<lambda>e. if e = -1 then Some None else Some (Some (e, 0)))
       else Some (Some (block0, byte0))) = Some (Some (xs ! ?q, o1 mod 256))"
  proof (cases "byte0 = 256")
    case False
    with pos o1 have "byte0 = o1 mod 256" "block0 = xs ! ?q" by (auto simp: read_pos_def)
    then show ?thesis by auto
  next
    case True
    then have p: "o1 mod 256 = 0" "o0 < o1" "block0 = xs ! nat (o1 div 256 - 1)" "o1 \<noteq> n"
      using pos go by (auto simp: read_pos_def)
    have "0 < o1 div 256" using p o1 by (auto simp: div_greater_zero_iff) 
    then have s: "Suc (nat (o1 div 256 - 1)) = ?q" by simp
    have "fat s block0 = xs ! ?q" using chain_nth [OF c, of "nat (o1 div 256 - 1)"] s q p by simp
    moreover have "0 \<le> block0" "block0 < 80" using chain_bounds [OF c, of block0] s q p by auto
    ultimately show ?thesis using True p o1 blk by simp
  qed
  have pos': "read_pos xs z o0 (o1 + 1) (xs ! ?q) (o1 mod 256 + 1)"
    using succ_div_mod [of o1] o1 by (auto simp: read_pos_def)
  show ?thesis
    by (rule that [OF pos'])
      (use r blk in \<open>cases "ust m addr (disk s (xs ! ?q) (o1 mod 256))"; simp add: read_step_def o1(1)\<close>)
qed

text \<open>The bytes of a file from one offset to another.\<close>

definition file_part :: "fs_state \<Rightarrow> int list \<Rightarrow> int \<Rightarrow> int \<Rightarrow> 8 word list" where
  "file_part s xs a b = map (\<lambda>k. disk s (xs ! nat (k div 256)) (k mod 256)) [a..b - 1]"

lemma file_part_empty [simp]: "file_part s xs a a = []"
  by (simp add: file_part_def)

lemma file_part_step: "a < b \<Longrightarrow>
    file_part s xs a b = disk s (xs ! nat (a div 256)) (a mod 256) # file_part s xs (a + 1) b"
  by (simp add: file_part_def upto_rec1)

lemma file_part_cong: "disk s' = disk s \<Longrightarrow> file_part s' xs a b = file_part s xs a b"
  by (simp add: file_part_def)

lemma file_part_bytes: "0 \<le> a \<Longrightarrow> a \<le> b \<Longrightarrow> b \<le> z \<Longrightarrow>
    file_part s xs a b = take (nat (b - a)) (drop (nat a) (file_bytes s xs (nat z)))"
proof (rule nth_equalityI)
  fix i
  assume ab: "0 \<le> a" "a \<le> b" "b \<le> z" and i: "i < length (file_part s xs a b)"
  then have lt: "i < nat (b - a)" by (simp add: file_part_def)
  then have "nat a + i < nat z" using ab by linarith
  moreover have "nat ((a + int i) div 256) = (nat a + i) div 256" "(a + int i) mod 256 = int ((nat a + i) mod 256)"
    using ab by (simp_all add: zmod_int nat_div_distrib nat_add_distrib)
  moreover have "[a..b - 1] ! i = a + int i" using lt by (intro nth_upto) linarith
  ultimately show "file_part s xs a b ! i = take (nat (b - a)) (drop (nat a) (file_bytes s xs (nat z))) ! i"
    using lt by (simp add: file_part_def nth_file_bytes)
qed (simp add: file_part_def)

lemma read_loop_spec:
  assumes F: "chain (fat s) b xs" "fsize (dir s di) = z" "z \<le> 256 * int (length xs)"
    and o0: "0 \<le> o0" "o0 \<le> z" "0 \<le> n"
    and o1: "voffset (fdt s vi) = o1" "o0 \<le> o1" "o1 \<le> read_end n z o0" "i = o1 - o0"
    and pos: "read_pos xs z o0 o1 block0 byte0"
  shows "read_loop buffer n vi di i block0 byte0 (s, m) =
    map_option (\<lambda>m. (read_end n z o0 - o0, set_offset vi (read_end n z o0) s, m))
      (store_list ust (buffer + i) (file_part s xs o1 (read_end n z o0)) m)"
  using F o1 pos
proof (induction "nat (read_end n z o0 - o1)" arbitrary: o1 i s m block0 byte0)
  case 0
  then have e: "read_end n z o0 = o1" by simp
  have stop: "read_step (buffer + i) n vi block0 byte0 (s, m) = Some (None, s, m)" if "i < n" "o1 < z"
  proof -
    have "0 < o0" "o1 = n" "n mod 256 = 0" "o0 < n"
      using that e 0 o0 by (auto simp: read_end_def split: if_splits)
    moreover from this have "byte0 = 256" using 0 by (auto simp: read_pos_def)
    ultimately show ?thesis using 0 by (simp add: read_step_def)
  qed
  show ?case
    unfolding read_loop.simps [of buffer n vi di i] using 0 stop e by (auto simp: set_offset_id)
next
  case (Suc k)
  let ?e = "read_end n z o0"
  have lt: "o1 < ?e" using Suc by simp
  have ez: "?e \<le> z" "?e - o0 \<le> n" using o0 by (auto simp: read_end_def)
  have "i < n" "o1 < z" using lt ez Suc by auto
  have go: "byte0 \<noteq> 256" if "o1 = n"
    using that lt Suc(10) by (auto simp: read_end_def read_pos_def split: if_splits)
  obtain block1 byte1 where st: "read_pos xs z o0 (o1 + 1) block1 byte1"
    "read_step (buffer + i) n vi block0 byte0 (s, m) =
      map_option (\<lambda>m. (Some (block1, byte1), set_offset vi (o1 + 1) s, m))
        (ust m (buffer + i) (disk s (xs ! nat (o1 div 256)) (o1 mod 256)))"
    using read_step_spec [of s b xs z vi o1 o0 block0 byte0 n "buffer + i" m] Suc \<open>o1 < z\<close> o0 go by metis
  show ?case
  proof (cases "ust m (buffer + i) (disk s (xs ! nat (o1 div 256)) (o1 mod 256))")
    case None
    then show ?thesis
      unfolding read_loop.simps [of buffer n vi di i]
      using st(2) \<open>i < n\<close> \<open>o1 < z\<close> Suc(3-6) lt by (simp add: file_part_step)
  next
    case (Some m1)
    have "read_loop buffer n vi di (i + 1) block1 byte1 (set_offset vi (o1 + 1) s, m1) =
      map_option (\<lambda>m. (?e - o0, set_offset vi ?e s, m)) (store_list ust (buffer + (i + 1)) (file_part s xs (o1 + 1) ?e) m1)"
      using Suc(1) [of "o1 + 1" "set_offset vi (o1 + 1) s" "i + 1" block1 byte1 m1] Suc(2-) st(1) lt
      by (simp add: file_part_cong [of "set_offset vi (o1 + 1) s" s])
    then show ?thesis
      unfolding read_loop.simps [of buffer n vi di i]
      using Some st(2) \<open>i < n\<close> \<open>o1 < z\<close> Suc(3-6) lt by (simp add: file_part_step add.assoc)
  qed
qed

lemma sys_read_file_spec:
  assumes F: "file_at s fl C di xs" and off: "voffset (fdt s vi) = o0" "0 \<le> o0" "o0 \<le> fsize (dir s di)" and n: "0 \<le> n"
  defines "e \<equiv> read_end n (fsize (dir s di)) o0"
  shows "sys_read_file vi di buffer n (s, m) =
    map_option (\<lambda>m. (e - o0, set_offset vi e s, m)) (store_list ust buffer (file_part s xs o0 e) m)"
proof -
  note b = file_at_blocks [OF F]
  have c: "chain (fat s) (first_block (dir s di)) xs"
    using b blocks_ok_file [of s fl C "first_block (dir s di)" xs] by simp
  have z: "fsize (dir s di) \<le> 256 * int (length xs)" using F by (simp add: file_at_def)
  have "nat (o0 div 256) \<le> length xs" using off z by linarith
  then obtain block0 where nb: "nth_block (fat s) (o0 div 256) (first_block (dir s di)) = Some block0"
    "nat (o0 div 256) < length xs \<longrightarrow> block0 = xs ! nat (o0 div 256)"
    using nth_block_chain [OF c, of "nat (o0 div 256)"] off(2) pos_imp_zdiv_nonneg_iff [of 256 o0] by auto
  have "nat (o0 div 256) < length xs" if "o0 < fsize (dir s di)" using that off z by linarith
  then have "read_pos xs (fsize (dir s di)) o0 o0 block0 (o0 mod 256)" using nb by (auto simp: read_pos_def)
  moreover have "o0 \<le> e" using off n by (auto simp: e_def read_end_def)
  ultimately have "read_loop buffer n vi di 0 block0 (o0 mod 256) (s, m) =
    map_option (\<lambda>m. (e - o0, set_offset vi e s, m)) (store_list ust (buffer + 0) (file_part s xs o0 e) m)"
    unfolding e_def by (intro read_loop_spec [OF c refl z]) (use off n in auto)
  then show ?thesis using nb off by (simp add: sys_read_file_def)
qed

section \<open>Writing and reading back\<close>

text \<open>A file in its first block, on a disk with nothing else: a state to evaluate the properties at.\<close>

definition one_file :: fs_state where
  "one_file = (initZeosFat blank_fs)\<lparr>fat := (fat (initZeosFat blank_fs))(0 := -1), ffb := 1\<rparr>"

lemma one_file_at: "file_at one_file [1..79] [0 \<mapsto> [0]] 2 [0]"
proof -
  have "blocks_ok (initZeosFat blank_fs) (0 # [1..79]) Map.empty"
    using initZeosFat_chain unfolding upto_79 by (simp add: blocks_ok_def)
  then obtain s' where s': "balloc 1 (initZeosFat blank_fs) = Some (0, s')" "blocks_ok s' [1..79] [0 \<mapsto> [0]]"
    by (rule blocks_ok_alloc) auto
  have "length [0..79 :: int] = 80" "[0..79 :: int] ! 1 = 1" by (simp_all add: nth_upto del: upto_rec_numeral)
  then have "s' = one_file"
    using s'(1) balloc_enough [OF initZeosFat_chain, of 1 blank_fs] unfolding upto_79 by (simp add: one_file_def del: upto_rec_numeral)
  then show ?thesis using s'(2) by (simp add: file_at_def one_file_def initZeosFat_def blank_fs_def)
qed

text \<open>C12: \<open>sys_write_file\<close> at the end of a file appends the bytes of the buffer as far as the disk has room: it returns
  their number when all fit and -ENOSPC otherwise, the old contents stay in front, the blocks come from the free list,
  and no other file, block or descriptor changes.\<close>

theorem sys_write_file_appends:
  assumes F: "file_at s fl C di xs" and off: "voffset (fdt s vi) = fsize (dir s di)"
    and bs: "load_list (\<lambda>_. ld) () buffer (length bs) = Some bs"
  defines "cap \<equiv> nat (256 * int (length xs + length fl) - fsize (dir s di))"
  shows "\<exists>s' ys fl'. sys_write_file ld vi di buffer (int (length bs)) s =
      Some (if length bs \<le> cap then int (length bs) else - ENOSPC, s') \<and>
    ys @ fl' = fl \<and> file_at s' fl' (C(first_block (dir s di) \<mapsto> xs @ ys)) di (xs @ ys) \<and>
    fsize (dir s' di) = fsize (dir s di) + int (min (length bs) cap) \<and> voffset (fdt s' vi) = fsize (dir s' di) \<and>
    file_bytes s' (xs @ ys) (nat (fsize (dir s' di))) = file_bytes s xs (nat (fsize (dir s di))) @ take cap bs \<and>
    (\<forall>blk. blk \<notin> set (xs @ ys) \<longrightarrow> disk s' blk = disk s blk) \<and> (\<forall>e. e \<noteq> di \<longrightarrow> dir s' e = dir s e) \<and>
    (\<forall>v. v \<noteq> vi \<longrightarrow> fdt s' v = fdt s v)"
  using sys_write_file_append [OF F off bs] cap_def by blast

theorem sys_write_file_appends_witness:
  "\<exists>s' ys fl'. sys_write_file (\<lambda>a. Some (word_of_int a)) 4 2 1000 (int (length [232, 233 :: 8 word])) one_file = Some (2, s') \<and>
    ys @ fl' = [1..79] \<and> file_bytes s' ([0] @ ys) 2 = [232, 233]"
proof -
  have b: "load_list (\<lambda>_ a. Some (word_of_int a)) () 1000 (length [232, 233 :: 8 word]) = Some [232, 233]" by simp
  have z: "voffset (fdt one_file 4) = fsize (dir one_file 2)" "fsize (dir one_file 2) = 0"
    by (simp_all add: one_file_def initZeosFat_def blank_fs_def)
  have e: "nat (256 * int (length [0 :: int] + length [1..79 :: int]) - 0) = 20480" by (simp del: upto_rec_numeral)
  obtain s' ys fl' where r: "sys_write_file (\<lambda>a. Some (word_of_int a)) 4 2 1000 (int (length [232, 233 :: 8 word])) one_file =
      Some (if length [232, 233 :: 8 word] \<le> 20480 then int (length [232, 233 :: 8 word]) else - ENOSPC, s')"
    "ys @ fl' = [1..79]" "fsize (dir s' 2) = 0 + int (min (length [232, 233 :: 8 word]) 20480)"
    "file_bytes s' ([0] @ ys) (nat (fsize (dir s' 2))) = file_bytes one_file [0] (nat 0) @ take 20480 [232, 233]"
    using sys_write_file_appends [OF one_file_at z(1) b] unfolding e z(2) by blast
  have "file_bytes s' ([0] @ ys) 2 = [232, 233]" using r(3,4) by simp
  moreover have "sys_write_file (\<lambda>a. Some (word_of_int a)) 4 2 1000 (int (length [232, 233 :: 8 word])) one_file = Some (2, s')"
    using r(1) by simp
  ultimately show ?thesis using r(2) by blast
qed

text \<open>C11: what is written to an empty file is read back: if the data fits on the disk, \<open>sys_write_file\<close> stores it and a
  later \<open>sys_read_file\<close> of \<open>n\<close> bytes through any descriptor at offset 0 delivers its first \<open>n\<close> bytes to the caller's
  buffer, returns their number and advances the offset by it.\<close>

theorem write_then_read:
  assumes F: "file_at s fl C di xs" and empty: "fsize (dir s di) = 0" and off: "voffset (fdt s vi) = 0"
    and bs: "load_list (\<lambda>_. ld) () buffer (length bs) = Some bs" and fits: "length bs \<le> 256 * (length xs + length fl)"
  shows "\<exists>s'. sys_write_file ld vi di buffer (int (length bs)) s = Some (int (length bs), s') \<and>
    (\<forall>vj n dest m. vj \<noteq> vi \<and> voffset (fdt s vj) = 0 \<and> 0 \<le> n \<longrightarrow>
      sys_read_file vj di dest n (s', m) =
        map_option (\<lambda>m. (min n (int (length bs)), set_offset vj (min n (int (length bs))) s', m))
          (store_list ust dest (take (nat n) bs) m))"
proof -
  let ?cap = "nat (256 * int (length xs + length fl) - fsize (dir s di))"
  have cap: "length bs \<le> ?cap" using fits empty by auto
  obtain s' ys fl' where s': "sys_write_file ld vi di buffer (int (length bs)) s = Some (int (length bs), s')"
    "file_at s' fl' (C(first_block (dir s di) \<mapsto> xs @ ys)) di (xs @ ys)" "fsize (dir s' di) = int (length bs)"
    "file_bytes s' (xs @ ys) (length bs) = bs" "\<forall>v. v \<noteq> vi \<longrightarrow> fdt s' v = fdt s v"
    using sys_write_file_append [OF F _ bs refl, of vi] off empty cap by (auto simp: min_def)
  have "sys_read_file vj di dest n (s', m) = map_option (\<lambda>m. (min n (int (length bs)), set_offset vj (min n (int (length bs))) s', m))
      (store_list ust dest (take (nat n) bs) m)"
    if "vj \<noteq> vi" "voffset (fdt s vj) = 0" "0 \<le> n" for vj n dest m
  proof -
    have e: "read_end n (int (length bs)) 0 = min n (int (length bs))" by (simp add: read_end_def)
    have "file_part s' (xs @ ys) 0 (min n (int (length bs))) = take (nat (min n (int (length bs)))) bs"
      using file_part_bytes [of 0 "min n (int (length bs))" "int (length bs)" s' "xs @ ys"] that(3) s'(4) by simp
    also have "\<dots> = take (nat n) bs" by (simp add: min_def)
    finally show ?thesis
      using sys_read_file_spec [OF s'(2), of vj 0 n dest m] that s'(3,5) by (simp add: e)
  qed
  with s'(1) show ?thesis by blast
qed

theorem write_then_read_witness:
  "\<exists>s'. sys_write_file (\<lambda>a. Some (word_of_int a)) 4 2 1000 (int (length [232, 233 :: 8 word])) one_file = Some (2, s') \<and>
    sys_read_file 5 2 1048576 1 (s', blank_mm\<lparr>pagusr_table := (\<lambda>_. user_pte 0)\<rparr>) =
      Some (1, set_offset 5 1 s', blank_mm\<lparr>pagusr_table := (\<lambda>_. user_pte 0), ram := (\<lambda>_. 0)(0 := 232)\<rparr>)"
proof -
  have b: "load_list (\<lambda>_ a. Some (word_of_int a)) () 1000 (length [232, 233 :: 8 word]) = Some [232, 233]" by simp
  have z: "fsize (dir one_file 2) = 0" "voffset (fdt one_file v) = 0" for v
    by (simp_all add: one_file_def initZeosFat_def blank_fs_def)
  have f: "length [232, 233 :: 8 word] \<le> 256 * (length [0 :: int] + length [1..79 :: int])" by (simp del: upto_rec_numeral)
  have "ust (blank_mm\<lparr>pagusr_table := (\<lambda>_. user_pte 0)\<rparr>) 1048576 232 =
      Some (blank_mm\<lparr>pagusr_table := (\<lambda>_. user_pte 0), ram := (\<lambda>_. 0)(0 := 232)\<rparr>)"
    by (simp add: ust_def vwrite_def translate_def pte_base_user_pte blank_mm_def)
  then show ?thesis using write_then_read [OF one_file_at z(1) z(2) b f, of 4]
    by (elim exE) (rule exI, erule conjE, rule conjI, simp, drule spec [of _ 5], simp add: z)
qed

end
