(* ===== verification/ListHead.thy ===== *)
theory ListHead
  imports ZPrelude
begin

text \<open>
  \<open>zeos/include/list.h\<close>: the circular doubly linked lists of the kernel. A node is the
  address of a \<open>struct list_head\<close>, of some type \<open>'n\<close>; the heap gives its \<open>next\<close>
  and \<open>prev\<close> fields, \<open>None\<close> being the NULL pointer. Every store through a pointer is
  \<open>None\<close> (undefined) when the pointer is NULL.

  The abstraction is a family of disjoint FIFO queues, \<open>Q :: 'n \<rightharpoonup> 'n list\<close>, one list
  of entries per list head. The locale \<open>fifo_heap\<close> is the contract the scheduler relies
  on; it is interpreted on the operations of \<open>list.h\<close> at the end.
\<close>

section \<open>The operations\<close>

record 'n list_heap =
  nxt :: "'n \<Rightarrow> 'n option"
  prv :: "'n \<Rightarrow> 'n option"

definition set_nxt :: "'n list_heap \<Rightarrow> 'n option \<Rightarrow> 'n option \<Rightarrow> 'n list_heap option" where
  "set_nxt h ptr v = (case ptr of None \<Rightarrow> None | Some a \<Rightarrow> Some (h\<lparr>nxt := (nxt h)(a := v)\<rparr>))"

definition set_prv :: "'n list_heap \<Rightarrow> 'n option \<Rightarrow> 'n option \<Rightarrow> 'n list_heap option" where
  "set_prv h ptr v = (case ptr of None \<Rightarrow> None | Some a \<Rightarrow> Some (h\<lparr>prv := (prv h)(a := v)\<rparr>))"

definition INIT_LIST_HEAD :: "'n list_heap \<Rightarrow> 'n \<Rightarrow> 'n list_heap" where
  "INIT_LIST_HEAD h l = h\<lparr>nxt := (nxt h)(l := Some l), prv := (prv h)(l := Some l)\<rparr>"

text \<open>\<open>__list_add(new, prev, next)\<close>\<close>

definition list_add_between ::
  "'n list_heap \<Rightarrow> 'n option \<Rightarrow> 'n option \<Rightarrow> 'n option \<Rightarrow> 'n list_heap option" where
  "list_add_between h new' prev' next' = do {
     h \<leftarrow> set_prv h next' new';
     h \<leftarrow> set_nxt h new' next';
     h \<leftarrow> set_prv h new' prev';
     set_nxt h prev' new'
   }"

definition list_add :: "'n list_heap \<Rightarrow> 'n \<Rightarrow> 'n \<Rightarrow> 'n list_heap option" where
  "list_add h new' head = list_add_between h (Some new') (Some head) (nxt h head)"

definition list_add_tail :: "'n list_heap \<Rightarrow> 'n \<Rightarrow> 'n \<Rightarrow> 'n list_heap option" where
  "list_add_tail h new' head = list_add_between h (Some new') (prv h head) (Some head)"

text \<open>\<open>__list_del(prev, next)\<close>\<close>

definition list_del_between ::
  "'n list_heap \<Rightarrow> 'n option \<Rightarrow> 'n option \<Rightarrow> 'n list_heap option" where
  "list_del_between h prev' next' = do {
     h \<leftarrow> set_prv h next' prev';
     set_nxt h prev' next'
   }"

definition list_del :: "'n list_heap \<Rightarrow> 'n \<Rightarrow> 'n list_heap option" where
  "list_del h entry = do {
     h \<leftarrow> list_del_between h (prv h entry) (nxt h entry);
     h \<leftarrow> set_nxt h (Some entry) None;
     set_prv h (Some entry) None
   }"

definition list_is_last :: "'n list_heap \<Rightarrow> 'n \<Rightarrow> 'n \<Rightarrow> bool" where
  "list_is_last h l head \<longleftrightarrow> nxt h l = Some head"

definition list_empty :: "'n list_heap \<Rightarrow> 'n \<Rightarrow> bool" where
  "list_empty h head \<longleftrightarrow> nxt h head = Some head"

definition list_first :: "'n list_heap \<Rightarrow> 'n \<Rightarrow> 'n option" where
  "list_first h head = nxt h head"

definition list_last :: "'n list_heap \<Rightarrow> 'n \<Rightarrow> 'n option" where
  "list_last h head = prv h head"

text \<open>
  \<open>list_for_each(pos, head)\<close>: the nodes the loop visits, in order; \<open>None\<close> when it
  runs into a NULL pointer or never comes back to the head.
\<close>

partial_function (option) list_walk :: "'n list_heap \<Rightarrow> 'n \<Rightarrow> 'n option \<Rightarrow> 'n list option" where
  "list_walk h head pos = (case pos of None \<Rightarrow> None
     | Some a \<Rightarrow> if a = head then Some []
         else Option.bind (list_walk h head (nxt h a)) (\<lambda>xs. Some (a # xs)))"

definition list_for_each :: "'n list_heap \<Rightarrow> 'n \<Rightarrow> 'n list option" where
  "list_for_each h head = list_walk h head (nxt h head)"

lemmas list_ops_defs = set_nxt_def set_prv_def list_add_between_def list_del_between_def

section \<open>List segments\<close>

text \<open>\<open>seg h a xs b\<close>: from \<open>a\<close> the links run through \<open>xs\<close> to \<open>b\<close>, and back.\<close>

fun seg :: "'n list_heap \<Rightarrow> 'n \<Rightarrow> 'n list \<Rightarrow> 'n \<Rightarrow> bool" where
  "seg h a [] b \<longleftrightarrow> nxt h a = Some b \<and> prv h b = Some a"
| "seg h a (x # xs) b \<longleftrightarrow> nxt h a = Some x \<and> prv h x = Some a \<and> seg h x xs b"

lemma seg_append: "seg h a (xs @ y # ys) b \<longleftrightarrow> seg h a xs y \<and> seg h y ys b"
  by (induction xs arbitrary: a) auto

lemma seg_nxt: "seg h a xs b \<Longrightarrow> nxt h a = Some (hd (xs @ [b]))"
  by (cases xs) auto

lemma seg_prv: "seg h a xs b \<Longrightarrow> prv h b = Some (last (a # xs))"
  by (induction xs arbitrary: a) auto

text \<open>A segment does not see changes of \<open>next\<close> outside \<open>a # xs\<close> or of \<open>prev\<close>
  outside \<open>xs @ [b]\<close>.\<close>

lemma seg_cong:
  assumes "\<And>n. n \<in> set (a # xs) \<Longrightarrow> nxt h' n = nxt h n"
    and "\<And>n. n \<in> set (xs @ [b]) \<Longrightarrow> prv h' n = prv h n"
  shows "seg h' a xs b \<longleftrightarrow> seg h a xs b"
  using assms by (induction xs arbitrary: a) auto

lemma seg_upd_nxt [simp]:
  "n \<notin> set (a # xs) \<Longrightarrow> seg (h\<lparr>nxt := (nxt h)(n := v)\<rparr>) a xs b = seg h a xs b"
  by (rule seg_cong) auto

lemma seg_upd_prv [simp]:
  "n \<notin> set (xs @ [b]) \<Longrightarrow> seg (h\<lparr>prv := (prv h)(n := v)\<rparr>) a xs b = seg h a xs b"
  by (rule seg_cong) auto

section \<open>Rings\<close>

definition ring :: "'n list_heap \<Rightarrow> 'n \<Rightarrow> 'n list \<Rightarrow> bool" where
  "ring h head xs \<longleftrightarrow> distinct (head # xs) \<and> seg h head xs head"

lemma ring_cong:
  assumes "\<And>n. n \<in> set (head # xs) \<Longrightarrow> nxt h' n = nxt h n \<and> prv h' n = prv h n"
  shows "ring h' head xs \<longleftrightarrow> ring h head xs"
  unfolding ring_def using seg_cong [of head xs h' h head] assms by auto

lemma ring_first: "ring h head xs \<Longrightarrow> list_first h head = Some (hd (xs @ [head]))"
  by (simp add: ring_def list_first_def seg_nxt)

lemma ring_last: "ring h head xs \<Longrightarrow> list_last h head = Some (last (head # xs))"
  unfolding ring_def list_last_def by (blast dest: seg_prv)

lemma ring_empty_iff: "ring h head xs \<Longrightarrow> list_empty h head \<longleftrightarrow> xs = []"
  by (cases xs) (auto simp: ring_def list_empty_def)

text \<open>The unique contents: \<open>list_for_each\<close> ends and visits exactly the entries.\<close>

lemma list_walk_seg:
  "seg h a xs b \<Longrightarrow> b \<notin> set xs \<Longrightarrow> list_walk h b (nxt h a) = Some xs"
proof (induction xs arbitrary: a)
  case Nil
  then show ?case by (subst list_walk.simps) simp
next
  case (Cons x xs)
  then have "list_walk h b (nxt h x) = Some xs" by simp
  with Cons.prems show ?case by (subst list_walk.simps) auto
qed

lemma ring_for_each: "ring h head xs \<Longrightarrow> list_for_each h head = Some xs"
  by (simp add: ring_def list_for_each_def list_walk_seg)

lemma ring_unique: "ring h head xs \<Longrightarrow> ring h head ys \<Longrightarrow> xs = ys"
  using ring_for_each [of h head xs] ring_for_each [of h head ys] by simp

lemma ring_init: "ring (INIT_LIST_HEAD h l) l []"
  by (simp add: ring_def INIT_LIST_HEAD_def)

section \<open>Adding and deleting an entry of one ring\<close>

lemma seg_add_between:
  assumes "seg h a [] b" and "n \<noteq> a" and "n \<noteq> b"
  shows "\<exists>h'. list_add_between h (Some n) (Some a) (Some b) = Some h' \<and> seg h' a [n] b \<and>
    nxt h' = (nxt h)(n := Some b, a := Some n) \<and> prv h' = (prv h)(b := Some n, n := Some a)"
  using assms by (simp add: list_ops_defs)

lemma ring_add_tail:
  assumes r: "ring h head xs" and n: "n \<notin> set (head # xs)"
  obtains h' where "list_add_tail h n head = Some h'" and "ring h' head (xs @ [n])"
    and "\<And>m. m \<notin> set (n # head # xs) \<Longrightarrow> nxt h' m = nxt h m \<and> prv h' m = prv h m"
proof -
  let ?l = "last (head # xs)"
  from r have p: "prv h head = Some ?l" unfolding ring_def by (blast dest: seg_prv)
  let ?h = "h\<lparr>nxt := (nxt h)(n := Some head, ?l := Some n),
              prv := (prv h)(head := Some n, n := Some ?l)\<rparr>"
  have l: "?l \<in> set (head # xs)" by (rule last_in_set) simp
  have eq: "list_add_tail h n head = Some ?h"
    by (simp add: list_add_tail_def list_ops_defs p)
  have "seg ?h head (xs @ [n]) head"
  proof (cases xs rule: rev_cases)
    case Nil
    with n show ?thesis by simp
  next
    case (snoc ys y)
    from r have s: "seg h head ys y" "distinct (head # ys @ [y])"
      by (auto simp: ring_def snoc seg_append)
    have "seg ?h head ys y \<longleftrightarrow> seg h head ys y"
      by (rule seg_cong) (use s(2) n in \<open>auto simp: snoc\<close>)
    with s n show ?thesis by (auto simp: snoc seg_append)
  qed
  with r n have "ring ?h head (xs @ [n])" by (auto simp: ring_def)
  moreover have "nxt ?h m = nxt h m \<and> prv ?h m = prv h m" if "m \<notin> set (n # head # xs)" for m
    using that l by auto
  ultimately show ?thesis using that [OF eq] by blast
qed

lemma ring_add_head:
  assumes r: "ring h head xs" and n: "n \<notin> set (head # xs)"
  obtains h' where "list_add h n head = Some h'" and "ring h' head (n # xs)"
    and "\<And>m. m \<notin> set (n # head # xs) \<Longrightarrow> nxt h' m = nxt h m \<and> prv h' m = prv h m"
proof -
  let ?f = "hd (xs @ [head])"
  from r have p: "nxt h head = Some ?f" by (simp add: ring_def seg_nxt)
  let ?h = "h\<lparr>nxt := (nxt h)(n := Some ?f, head := Some n),
              prv := (prv h)(?f := Some n, n := Some head)\<rparr>"
  have f: "?f \<in> set (head # xs)" by (cases xs) auto
  have eq: "list_add h n head = Some ?h"
    by (simp add: list_add_def list_ops_defs p)
  have "seg ?h head (n # xs) head"
  proof (cases xs)
    case Nil
    with n show ?thesis by simp
  next
    case (Cons y ys)
    from r have s: "seg h y ys head" "distinct (head # y # ys)" by (auto simp: ring_def Cons)
    have "seg ?h y ys head \<longleftrightarrow> seg h y ys head"
      by (rule seg_cong) (use s(2) n Cons in \<open>simp_all, blast+\<close>)
    with s n show ?thesis by (auto simp: Cons)
  qed
  with r n have "ring ?h head (n # xs)" by (auto simp: ring_def)
  moreover have "nxt ?h m = nxt h m \<and> prv ?h m = prv h m" if "m \<notin> set (n # head # xs)" for m
    using that f by auto
  ultimately show ?thesis using that [OF eq] by blast
qed

lemma ring_del:
  assumes r: "ring h head (xs @ e # ys)"
  obtains h' where "list_del h e = Some h'" and "ring h' head (xs @ ys)"
    and "nxt h' e = None" and "prv h' e = None"
    and "\<And>m. m \<notin> set (head # xs @ e # ys) \<Longrightarrow> nxt h' m = nxt h m \<and> prv h' m = prv h m"
proof -
  let ?a = "last (head # xs)" and ?b = "hd (ys @ [head])"
  from r have s: "seg h head xs e" "seg h e ys head" and d: "distinct (head # xs @ e # ys)"
    by (auto simp: ring_def seg_append)
  from s have p: "prv h e = Some ?a" "nxt h e = Some ?b" by (auto dest: seg_prv seg_nxt)
  let ?h = "h\<lparr>nxt := (nxt h)(?a := Some ?b, e := None),
              prv := (prv h)(?b := Some ?a, e := None)\<rparr>"
  have ab: "?a \<in> set (head # xs)" "?b \<in> set (head # ys)"
    by (rule last_in_set, simp) (cases ys, auto)
  have eq: "list_del h e = Some ?h" by (simp add: list_del_def list_ops_defs p)
  have "seg ?h head (xs @ ys) head"
  proof (cases xs rule: rev_cases)
    case Nil
    show ?thesis
    proof (cases ys)
      case Nil
      with \<open>xs = []\<close> d show ?thesis by simp
    next
      case (Cons y zs)
      have "seg ?h y zs head \<longleftrightarrow> seg h y zs head"
        by (rule seg_cong) (use d in \<open>auto simp: Cons \<open>xs = []\<close>\<close>)
      with s d show ?thesis by (auto simp: Cons \<open>xs = []\<close>)
    qed
  next
    case (snoc us u)
    have u: "seg ?h head us u \<longleftrightarrow> seg h head us u"
      by (rule seg_cong) (use d ab(2) in \<open>auto simp: snoc\<close>)
    show ?thesis
    proof (cases ys)
      case Nil
      with s d u show ?thesis by (auto simp: snoc seg_append)
    next
      case (Cons y zs)
      have "seg ?h y zs head \<longleftrightarrow> seg h y zs head"
        by (rule seg_cong) (use d in \<open>auto simp: Cons snoc\<close>)
      with s d u show ?thesis by (auto simp: Cons snoc seg_append)
    qed
  qed
  with d have "ring ?h head (xs @ ys)" by (simp add: ring_def)
  moreover have "nxt ?h m = nxt h m \<and> prv ?h m = prv h m" if "m \<notin> set (head # xs @ e # ys)" for m
    using that ab by auto
  ultimately show ?thesis using that [OF eq] by auto
qed

section \<open>Families of queues\<close>

definition nodes :: "('n \<rightharpoonup> 'n list) \<Rightarrow> 'n set" where
  "nodes Q = {n. \<exists>hd xs. Q hd = Some xs \<and> (n = hd \<or> n \<in> set xs)}"

definition apart :: "('n \<rightharpoonup> 'n list) \<Rightarrow> bool" where
  "apart Q \<longleftrightarrow> (\<forall>a b xs ys. a \<noteq> b \<longrightarrow> Q a = Some xs \<longrightarrow> Q b = Some ys \<longrightarrow>
     set (a # xs) \<inter> set (b # ys) = {})"

definition rings :: "'n list_heap \<Rightarrow> ('n \<rightharpoonup> 'n list) \<Rightarrow> bool" where
  "rings h Q \<longleftrightarrow> apart Q \<and> (\<forall>a xs. Q a = Some xs \<longrightarrow> ring h a xs)"

lemma nodes_in: "Q a = Some xs \<Longrightarrow> n \<in> set (a # xs) \<Longrightarrow> n \<in> nodes Q"
  by (auto simp: nodes_def)

lemma apart_set: "apart Q \<Longrightarrow> Q a = Some xs \<Longrightarrow> Q b = Some ys \<Longrightarrow> x \<in> set (a # xs) \<Longrightarrow>
    x \<in> set (b # ys) \<Longrightarrow> a = b"
  unfolding apart_def by blast

lemma apart_disj: "apart Q \<Longrightarrow> a \<noteq> b \<Longrightarrow> Q a = Some xs \<Longrightarrow> Q b = Some ys \<Longrightarrow>
    set (a # xs) \<inter> set (b # ys) = {}"
  unfolding apart_def by blast

text \<open>One queue of the family changes: its nodes stay apart from the others' and the heap
  is the same at the others' nodes.\<close>

lemma rings_upd:
  assumes r: "rings h Q" and new: "ring h' head ys"
    and own: "\<And>b zs n. b \<noteq> head \<Longrightarrow> Q b = Some zs \<Longrightarrow> n \<in> set (b # zs) \<Longrightarrow>
       n \<notin> set (head # ys) \<and> nxt h' n = nxt h n \<and> prv h' n = prv h n"
  shows "rings h' (Q(head \<mapsto> ys))"
  unfolding rings_def
proof (intro conjI allI impI)
  show "apart (Q(head \<mapsto> ys))"
    unfolding apart_def
  proof (intro allI impI)
    fix a b us vs
    assume ab: "a \<noteq> b" "(Q(head \<mapsto> ys)) a = Some us" "(Q(head \<mapsto> ys)) b = Some vs"
    show "set (a # us) \<inter> set (b # vs) = {}"
    proof -
      consider "a = head" | "b = head" | "a \<noteq> head" "b \<noteq> head" by blast
      then show ?thesis
      proof cases
        case 1
        with ab have "Q b = Some vs" "us = ys" "b \<noteq> head" by auto
        with own 1 show ?thesis by blast
      next
        case 2
        with ab have "Q a = Some us" "vs = ys" "a \<noteq> head" by auto
        with own 2 show ?thesis by blast
      next
        case 3
        then show ?thesis using ab apart_disj [of Q a b us vs] r by (simp add: rings_def)
      qed
    qed
  qed
next
  fix a us
  assume a: "(Q(head \<mapsto> ys)) a = Some us"
  show "ring h' a us"
  proof (cases "a = head")
    case True
    with a new show ?thesis by simp
  next
    case False
    with a have q: "Q a = Some us" by simp
    with r have "ring h a us" by (simp add: rings_def)
    with ring_cong [of a us h' h] own [OF False q] show ?thesis by blast
  qed
qed

lemma rings_add_tail:
  assumes r: "rings h Q" and q: "Q head = Some xs" and n: "n \<notin> nodes Q"
  obtains h' where "list_add_tail h n head = Some h'" and "rings h' (Q(head \<mapsto> xs @ [n]))"
proof -
  from r q have "ring h head xs" by (simp add: rings_def)
  moreover have "n \<notin> set (head # xs)" using n nodes_in [of Q head xs n] q by blast
  ultimately obtain h' where h': "list_add_tail h n head = Some h'" "ring h' head (xs @ [n])"
    "\<And>m. m \<notin> set (n # head # xs) \<Longrightarrow> nxt h' m = nxt h m \<and> prv h' m = prv h m"
    by (rule ring_add_tail) blast
  have ap: "apart Q" using r by (simp add: rings_def)
  have "rings h' (Q(head \<mapsto> xs @ [n]))"
  proof (rule rings_upd [OF r h'(2)])
    fix b zs m
    assume b: "b \<noteq> head" "Q b = Some zs" "m \<in> set (b # zs)"
    have "m \<noteq> n" using nodes_in [of Q b zs m] b n by blast
    moreover have "m \<notin> set (head # xs)" using apart_set [OF ap b(2) q b(3)] b(1) by blast
    ultimately show "m \<notin> set (head # xs @ [n]) \<and> nxt h' m = nxt h m \<and> prv h' m = prv h m"
      using h'(3) by auto
  qed
  with h'(1) that show ?thesis by blast
qed

lemma rings_add_head:
  assumes r: "rings h Q" and q: "Q head = Some xs" and n: "n \<notin> nodes Q"
  obtains h' where "list_add h n head = Some h'" and "rings h' (Q(head \<mapsto> n # xs))"
proof -
  from r q have "ring h head xs" by (simp add: rings_def)
  moreover have "n \<notin> set (head # xs)" using n nodes_in [of Q head xs n] q by blast
  ultimately obtain h' where h': "list_add h n head = Some h'" "ring h' head (n # xs)"
    "\<And>m. m \<notin> set (n # head # xs) \<Longrightarrow> nxt h' m = nxt h m \<and> prv h' m = prv h m"
    by (rule ring_add_head) blast
  have ap: "apart Q" using r by (simp add: rings_def)
  have "rings h' (Q(head \<mapsto> n # xs))"
  proof (rule rings_upd [OF r h'(2)])
    fix b zs m
    assume b: "b \<noteq> head" "Q b = Some zs" "m \<in> set (b # zs)"
    have "m \<noteq> n" using nodes_in [of Q b zs m] b n by blast
    moreover have "m \<notin> set (head # xs)" using apart_set [OF ap b(2) q b(3)] b(1) by blast
    ultimately show "m \<notin> set (head # n # xs) \<and> nxt h' m = nxt h m \<and> prv h' m = prv h m"
      using h'(3) by auto
  qed
  with h'(1) that show ?thesis by blast
qed

lemma rings_del:
  assumes r: "rings h Q" and q: "Q head = Some xs" and e: "e \<in> set xs"
  obtains h' where "list_del h e = Some h'" and "rings h' (Q(head \<mapsto> remove1 e xs))"
proof -
  obtain us vs where xs: "xs = us @ e # vs" "e \<notin> set us"
    using split_list_first [OF e] by blast
  from r q have rg: "ring h head (us @ e # vs)" by (simp add: rings_def xs)
  then obtain h' where h': "list_del h e = Some h'" "ring h' head (us @ vs)"
    "\<And>m. m \<notin> set (head # us @ e # vs) \<Longrightarrow> nxt h' m = nxt h m \<and> prv h' m = prv h m"
    by (rule ring_del) blast
  have ap: "apart Q" using r by (simp add: rings_def)
  have "rings h' (Q(head \<mapsto> us @ vs))"
  proof (rule rings_upd [OF r h'(2)])
    fix b zs m
    assume b: "b \<noteq> head" "Q b = Some zs" "m \<in> set (b # zs)"
    have "m \<notin> set (head # xs)" using apart_set [OF ap b(2) q b(3)] b(1) by blast
    then show "m \<notin> set (head # us @ vs) \<and> nxt h' m = nxt h m \<and> prv h' m = prv h m"
      using h'(3) by (auto simp: xs)
  qed
  with h'(1) that xs show ?thesis by (simp add: remove1_append)
qed

lemma rings_init:
  assumes r: "rings h Q" and l: "l \<notin> nodes Q \<or> Q l = Some []"
  shows "rings (INIT_LIST_HEAD h l) (Q(l \<mapsto> []))"
proof (rule rings_upd [OF r ring_init])
  fix b zs n
  assume b: "b \<noteq> l" "Q b = Some zs" "n \<in> set (b # zs)"
  have "n \<noteq> l"
  proof
    assume "n = l"
    with nodes_in [of Q b zs n] b l have "Q l = Some []" by auto
    with r b \<open>n = l\<close> have "l = b" using apart_set [of Q l "[]" b zs l] by (auto simp: rings_def)
    with b show False by simp
  qed
  then show "n \<notin> set [l] \<and> nxt (INIT_LIST_HEAD h l) n = nxt h n \<and> prv (INIT_LIST_HEAD h l) n = prv h n"
    by (simp add: INIT_LIST_HEAD_def)
qed

section \<open>The contract of a family of FIFO queues\<close>

locale fifo_heap =
  fixes rep :: "'h \<Rightarrow> ('n \<rightharpoonup> 'n list) \<Rightarrow> bool"
    and enq :: "'h \<Rightarrow> 'n \<Rightarrow> 'n \<Rightarrow> 'h option"
    and del :: "'h \<Rightarrow> 'n \<Rightarrow> 'h option"
    and front :: "'h \<Rightarrow> 'n \<Rightarrow> 'n option"
    and rear :: "'h \<Rightarrow> 'n \<Rightarrow> 'n option"
    and isempty :: "'h \<Rightarrow> 'n \<Rightarrow> bool"
  assumes rep_apart: "rep h Q \<Longrightarrow> apart Q"
    and rep_distinct: "rep h Q \<Longrightarrow> Q a = Some xs \<Longrightarrow> distinct (a # xs)"
    and enq_law: "rep h Q \<Longrightarrow> Q a = Some xs \<Longrightarrow> n \<notin> nodes Q \<Longrightarrow>
       \<exists>h'. enq h n a = Some h' \<and> rep h' (Q(a \<mapsto> xs @ [n]))"
    and del_law: "rep h Q \<Longrightarrow> Q a = Some xs \<Longrightarrow> n \<in> set xs \<Longrightarrow>
       \<exists>h'. del h n = Some h' \<and> rep h' (Q(a \<mapsto> remove1 n xs))"
    and front_law: "rep h Q \<Longrightarrow> Q a = Some xs \<Longrightarrow> front h a = Some (hd (xs @ [a]))"
    and rear_law: "rep h Q \<Longrightarrow> Q a = Some xs \<Longrightarrow> rear h a = Some (last (a # xs))"
    and isempty_law: "rep h Q \<Longrightarrow> Q a = Some xs \<Longrightarrow> isempty h a \<longleftrightarrow> xs = []"
begin

text \<open>An entry leaves the nodes of the family when it is deleted from its queue.\<close>

lemma not_node_after_del:
  assumes "rep h Q" "Q a = Some xs" "n \<in> set xs"
  shows "n \<notin> nodes (Q(a \<mapsto> remove1 n xs))"
proof
  assume "n \<in> nodes (Q(a \<mapsto> remove1 n xs))"
  then obtain b zs where b: "(Q(a \<mapsto> remove1 n xs)) b = Some zs" "n \<in> set (b # zs)"
    by (auto simp: nodes_def)
  have d: "distinct (a # xs)" using rep_distinct [OF assms(1,2)] .
  show False
  proof (cases "b = a")
    case True
    with b d assms(3) show ?thesis by auto
  next
    case False
    with b have "Q b = Some zs" by simp
    with apart_set [OF rep_apart [OF assms(1)] assms(2) this] assms(3) b(2) False
    show ?thesis by auto
  qed
qed

text \<open>Moving an entry to the tail of another queue, or of its own (rotation).\<close>

lemma move:
  assumes r: "rep h Q" and a: "Q a = Some xs" "n \<in> set xs" and b: "Q b = Some ys" "a \<noteq> b"
  obtains h1 h2 where "del h n = Some h1" and "enq h1 n b = Some h2"
    and "rep h2 (Q(a \<mapsto> remove1 n xs, b \<mapsto> ys @ [n]))"
proof -
  obtain h1 where h1: "del h n = Some h1" "rep h1 (Q(a \<mapsto> remove1 n xs))"
    using del_law [OF r a] by blast
  have "(Q(a \<mapsto> remove1 n xs)) b = Some ys" using b by simp
  then obtain h2 where "enq h1 n b = Some h2" "rep h2 (Q(a \<mapsto> remove1 n xs, b \<mapsto> ys @ [n]))"
    using enq_law [OF h1(2) _ not_node_after_del [OF r a]] by blast
  with h1 that show ?thesis by blast
qed

lemma rotate:
  assumes r: "rep h Q" and a: "Q a = Some xs" "n \<in> set xs"
  obtains h1 h2 where "del h n = Some h1" and "enq h1 n a = Some h2"
    and "rep h2 (Q(a \<mapsto> remove1 n xs @ [n]))"
proof -
  obtain h1 where h1: "del h n = Some h1" "rep h1 (Q(a \<mapsto> remove1 n xs))"
    using del_law [OF r a] by blast
  obtain h2 where "enq h1 n a = Some h2" "rep h2 (Q(a \<mapsto> remove1 n xs, a \<mapsto> remove1 n xs @ [n]))"
    using enq_law [OF h1(2) fun_upd_same not_node_after_del [OF r a]] by blast
  with h1 that show ?thesis by simp
qed

text \<open>A queue has one entry or none exactly when its first and last entries coincide.\<close>

lemma single_iff:
  assumes r: "rep h Q" and a: "Q a = Some xs"
  shows "front h a = rear h a \<longleftrightarrow> length xs \<le> 1"
proof -
  have d: "distinct (a # xs)" using rep_distinct [OF r a] .
  have "hd (xs @ [a]) = last (a # xs) \<longleftrightarrow> length xs \<le> 1"
  proof (cases xs)
    case (Cons y ys)
    show ?thesis
    proof (cases ys rule: rev_cases)
      case (snoc zs z)
      with Cons d show ?thesis by auto
    qed (simp add: Cons)
  qed simp
  then show ?thesis by (simp add: front_law [OF r a] rear_law [OF r a] del: last.simps)
qed

end

interpretation lh: fifo_heap rings list_add_tail list_del list_first list_last list_empty
proof unfold_locales
  fix h :: "'a list_heap" and Q a xs n
  assume r: "rings h Q"
  show "apart Q" using r by (simp add: rings_def)
  assume a: "Q a = Some xs"
  then have rg: "ring h a xs" using r by (simp add: rings_def)
  show "distinct (a # xs)" using rg by (simp add: ring_def)
  show "list_first h a = Some (hd (xs @ [a]))" using rg by (rule ring_first)
  show "list_last h a = Some (last (a # xs))" using rg by (rule ring_last)
  show "list_empty h a \<longleftrightarrow> xs = []" using rg by (rule ring_empty_iff)
  show "n \<notin> nodes Q \<Longrightarrow> \<exists>h'. list_add_tail h n a = Some h' \<and> rings h' (Q(a \<mapsto> xs @ [n]))"
    using rings_add_tail [OF r a] by metis
  show "n \<in> set xs \<Longrightarrow> \<exists>h'. list_del h n = Some h' \<and> rings h' (Q(a \<mapsto> remove1 n xs))"
    using rings_del [OF r a] by metis
qed

section \<open>The list operations as operations on sequences\<close>

text \<open>C20: every operation of \<open>list.h\<close> implements the operation on sequences it is
  named after: on a heap that holds the lists \<open>Q\<close>, walking, \<open>list_first\<close>, \<open>list_last\<close> and \<open>list_empty\<close>
  read the sequence, \<open>list_add_tail\<close> appends, \<open>list_add\<close> prepends, \<open>list_del\<close> removes, and none of
  them disturbs another list; a deletion followed by an insertion moves a node between lists.\<close>

theorem list_ops_refine:
  assumes r: "rings h Q" and q: "Q a = Some xs"
  shows "list_for_each h a = Some xs \<and> list_first h a = Some (hd (xs @ [a])) \<and> list_last h a = Some (last (a # xs)) \<and>
    (list_empty h a \<longleftrightarrow> xs = []) \<and>
    (\<forall>n. n \<notin> nodes Q \<longrightarrow> (\<exists>h'. list_add_tail h n a = Some h' \<and> rings h' (Q(a \<mapsto> xs @ [n])))) \<and>
    (\<forall>n. n \<notin> nodes Q \<longrightarrow> (\<exists>h'. list_add h n a = Some h' \<and> rings h' (Q(a \<mapsto> n # xs)))) \<and>
    (\<forall>n. n \<in> set xs \<longrightarrow> (\<exists>h'. list_del h n = Some h' \<and> rings h' (Q(a \<mapsto> remove1 n xs)))) \<and>
    (\<forall>n. n \<in> set xs \<longrightarrow> (\<forall>b ys. b \<noteq> a \<and> Q b = Some ys \<longrightarrow> (\<exists>h1 h2. list_del h n = Some h1 \<and>
       list_add_tail h1 n b = Some h2 \<and> rings h2 (Q(a \<mapsto> remove1 n xs, b \<mapsto> ys @ [n])))))"
proof (intro conjI allI impI)
  have ring: "ring h a xs" using r q by (auto simp: rings_def)
  show "list_for_each h a = Some xs" using ring by (rule ring_for_each)
  show "list_first h a = Some (hd (xs @ [a]))" using ring by (rule ring_first)
  show "list_last h a = Some (last (a # xs))" using ring by (rule ring_last)
  show "list_empty h a \<longleftrightarrow> xs = []" using ring by (rule ring_empty_iff)
  fix n
  show "\<exists>h'. list_add_tail h n a = Some h' \<and> rings h' (Q(a \<mapsto> xs @ [n]))" if "n \<notin> nodes Q"
    using rings_add_tail [OF r q that] by blast
  show "\<exists>h'. list_add h n a = Some h' \<and> rings h' (Q(a \<mapsto> n # xs))" if "n \<notin> nodes Q"
    using rings_add_head [OF r q that] by blast
  show "\<exists>h'. list_del h n = Some h' \<and> rings h' (Q(a \<mapsto> remove1 n xs))" if "n \<in> set xs"
    using rings_del [OF r q that] by blast
  fix b ys
  assume n: "n \<in> set xs" and "b \<noteq> a \<and> Q b = Some ys"
  then have b: "Q b = Some ys" "a \<noteq> b" by auto
  show "\<exists>h1 h2. list_del h n = Some h1 \<and> list_add_tail h1 n b = Some h2 \<and> rings h2 (Q(a \<mapsto> remove1 n xs, b \<mapsto> ys @ [n]))"
    using lh.move [OF r q n b] by blast
qed

theorem list_ops_refine_witness:
  "list_for_each (INIT_LIST_HEAD \<lparr>nxt = Map.empty, prv = Map.empty\<rparr> (7 :: nat)) 7 = Some [] \<and>
   (\<exists>h'. list_add_tail (INIT_LIST_HEAD \<lparr>nxt = Map.empty, prv = Map.empty\<rparr> (7 :: nat)) 3 7 = Some h' \<and> rings h' [7 \<mapsto> [3]])"
proof -
  have "rings (INIT_LIST_HEAD \<lparr>nxt = Map.empty, prv = Map.empty\<rparr> (7 :: nat)) [7 \<mapsto> []]"
    by (rule rings_init) (auto simp: rings_def apart_def nodes_def)
  from list_ops_refine [OF this, of 7 "[]"] show ?thesis by (simp add: nodes_def)
qed

end
