(* ===== verification/Io.thy ===== *)
theory Io
  imports Utils
begin

text \<open>
  \<open>zeos/io.c\<close>: the text screen. The state has the cursor (\<open>Byte x, y\<close>), the video memory
  as the 16-bit cells the \<open>movw\<close> instructions write, by address, and the bytes sent to
  port 0xE9. \<open>inb\<close> only reads a port: the byte it returns is an argument of its caller.
\<close>

unbundle bit_operations_syntax

abbreviation (input) "NUM_COLUMNS \<equiv> (80 :: int)"
abbreviation (input) "NUM_ROWS \<equiv> (25 :: int)"
abbreviation (input) "VIDEO \<equiv> (0xb8000 :: int)"

record screen =
  cur_x :: "8 word"
  cur_y :: "8 word"
  video :: "int \<Rightarrow> 16 word"
  debug_port :: "8 word list"

definition cell :: "8 word \<Rightarrow> 16 word" where
  "cell c = (ucast c AND 0x00FF) OR 0x0200"

definition cell_addr :: "int \<Rightarrow> int \<Rightarrow> int" where
  "cell_addr x y = VIDEO + (y * NUM_COLUMNS + x) * 2"

definition printc :: "8 word \<Rightarrow> screen \<Rightarrow> screen" where
  "printc c s =
     (let s = (if c = 10 then s\<lparr>cur_x := 0, cur_y := cur_y s + 1\<rparr>
        else
          let screen = cell_addr (uint (cur_x s)) (uint (cur_y s));
              x = cur_x s + 1;
              (x, y) = (if uint x \<ge> NUM_COLUMNS
                 then (0, if uint (cur_y s + 1) \<ge> NUM_ROWS then 0 else cur_y s + 1)
                 else (x, cur_y s))
          in s\<lparr>cur_x := x, cur_y := y, video := (video s)(screen := cell c)\<rparr>)
      in s\<lparr>debug_port := debug_port s @ [c]\<rparr>)"

text \<open>A string is the list of its bytes; the loop stops at a NUL.\<close>

fun printk :: "8 word list \<Rightarrow> screen \<Rightarrow> screen" where
  "printk [] s = s"
| "printk (c # cs) s = (if c = 0 then s else printk cs (printc c s))"

definition printc_xy :: "int \<Rightarrow> int \<Rightarrow> 8 word \<Rightarrow> screen \<Rightarrow> screen" where
  "printc_xy x y c s = s\<lparr>video := (video s)(cell_addr x y := cell c)\<rparr>"

fun printk_xy :: "int \<Rightarrow> int \<Rightarrow> 8 word list \<Rightarrow> screen \<Rightarrow> screen" where
  "printk_xy x y [] s = s"
| "printk_xy x y (c # cs) s = (if c = 0 then s else printk_xy (x + 1) y cs (printc_xy x y c s))"

definition clean_line :: "int \<Rightarrow> screen \<Rightarrow> screen" where
  "clean_line y s = for_to 0 NUM_COLUMNS (\<lambda>i. printc_xy i y 0) s"

section \<open>The cursor\<close>

text \<open>The position of the next character, as a number of cells from the top left corner.\<close>

definition on_screen :: "screen \<Rightarrow> bool" where
  "on_screen s \<longleftrightarrow> uint (cur_x s) < NUM_COLUMNS \<and> uint (cur_y s) < NUM_ROWS"

definition cursor :: "screen \<Rightarrow> int" where
  "cursor s = uint (cur_y s) * NUM_COLUMNS + uint (cur_x s)"

lemma uint_succ: "uint (x :: 8 word) < 255 \<Longrightarrow> uint (x + 1) = uint x + 1"
  by (simp add: uint_word_ariths mod_pos_pos_trivial)

lemma cursor_bounds: "on_screen s \<Longrightarrow> 0 \<le> cursor s \<and> cursor s < 2000"
  using uint_ge_0 [of "cur_x s"] uint_ge_0 [of "cur_y s"]
  by (simp add: on_screen_def cursor_def del: uint_ge_0)

text \<open>A character other than a newline goes to the cursor, which advances by one cell and wraps
  from the last cell of the screen to the first.\<close>

lemma printc_cell:
  assumes "on_screen s" "c \<noteq> 10"
  shows "on_screen (printc c s)" and "cursor (printc c s) = (cursor s + 1) mod 2000"
    and "video (printc c s) = (video s)(VIDEO + 2 * cursor s := cell c)"
    and "debug_port (printc c s) = debug_port s @ [c]"
proof -
  let ?x = "uint (cur_x s)" and ?y = "uint (cur_y s)"
  have b: "0 \<le> ?x" "?x < 80" "0 \<le> ?y" "?y < 25" using assms by (auto simp: on_screen_def)
  then have u: "uint (cur_x s + 1) = ?x + 1" "uint (cur_y s + 1) = ?y + 1" by (auto intro: uint_succ)
  show "on_screen (printc c s)" using b u assms(2) by (auto simp: printc_def on_screen_def Let_def)
  show "video (printc c s) = (video s)(VIDEO + 2 * cursor s := cell c)"
    using assms(2) by (auto simp: printc_def cursor_def cell_addr_def Let_def)
  show "debug_port (printc c s) = debug_port s @ [c]"
    using assms(2) by (auto simp: printc_def Let_def)
  consider "?x + 1 < 80" | "?x + 1 = 80" "?y + 1 < 25" | "?x + 1 = 80" "?y + 1 = 25" using b by linarith
  then show "cursor (printc c s) = (cursor s + 1) mod 2000"
  proof cases
    case 1
    have "cursor s + 1 < 2000" using 1 b by (simp add: cursor_def)
    then show ?thesis using 1 b u assms(2) by (simp add: printc_def cursor_def Let_def mod_pos_pos_trivial)
  next
    case 2
    then show ?thesis using b u assms(2) by (simp add: printc_def cursor_def Let_def mod_pos_pos_trivial)
  next
    case 3
    then show ?thesis using b u assms(2) by (simp add: printc_def cursor_def Let_def)
  qed
qed

text \<open>A newline on the last row leaves the screen: \<open>y\<close> is not wrapped.\<close>

lemma printc_newline:
  "cur_x (printc 10 s) = 0 \<and> cur_y (printc 10 s) = cur_y s + 1 \<and> video (printc 10 s) = video s"
  by (simp add: printc_def)

lemma printk_on_screen:
  "on_screen s \<Longrightarrow> 10 \<notin> set cs \<Longrightarrow> on_screen (printk cs s)"
proof (induction cs arbitrary: s)
  case (Cons c cs)
  then show ?case using printc_cell(1) [of s c] by auto
qed simp

text \<open>C38: text without newlines keeps the cursor on the screen, which advances by one cell per
  character and wraps at the end of the screen; only cells of the video memory are written and every character also
  goes to the debug port.\<close>

theorem printk_stays_on_screen:
  assumes "on_screen s" "10 \<notin> set cs"
  shows "on_screen (printk cs s) \<and>
    (0 \<notin> set cs \<longrightarrow> cursor (printk cs s) = (cursor s + int (length cs)) mod 2000 \<and> debug_port (printk cs s) = debug_port s @ cs) \<and>
    (\<forall>a. video (printk cs s) a \<noteq> video s a \<longrightarrow> VIDEO \<le> a \<and> a < VIDEO + 4000)"
  using assms
proof (induction cs arbitrary: s)
  case Nil
  then show ?case using cursor_bounds by (simp add: mod_pos_pos_trivial)
next
  case (Cons c cs)
  note c = printc_cell [OF Cons.prems(1), of c]
  have b: "0 \<le> cursor s" "cursor s < 2000" using cursor_bounds Cons.prems(1) by auto
  show ?case
  proof (cases "c = 0")
    case False
    have ih: "on_screen (printk cs (printc c s)) \<and>
      (0 \<notin> set cs \<longrightarrow> cursor (printk cs (printc c s)) = (cursor (printc c s) + int (length cs)) mod 2000 \<and>
        debug_port (printk cs (printc c s)) = debug_port (printc c s) @ cs) \<and>
      (\<forall>a. video (printk cs (printc c s)) a \<noteq> video (printc c s) a \<longrightarrow> VIDEO \<le> a \<and> a < VIDEO + 4000)"
      by (rule Cons.IH) (use Cons.prems c in auto)
    have v: "video (printc c s) a = video s a" if "\<not> (VIDEO \<le> a \<and> a < VIDEO + 4000)" for a
      using c(3) that b Cons.prems(2) by auto
    have m: "((cursor s + 1) mod 2000 + int (length cs)) mod 2000 = (cursor s + int (length (c # cs))) mod 2000"
      unfolding mod_add_left_eq by (simp add: ac_simps)
    have p: "printk (c # cs) s = printk cs (printc c s)" and c10: "c \<noteq> 10" using False Cons.prems(2) by auto
    have w: "VIDEO \<le> a \<and> a < VIDEO + 4000" if "video (printk cs (printc c s)) a \<noteq> video s a" for a
      using ih v [of a] that by metis
    show ?thesis unfolding p using ih w m c(2,4) [OF c10] by simp
  qed (use Cons.prems in auto)
qed

theorem printk_stays_on_screen_witness:
  "on_screen (printk [75, 69, 89] \<lparr>cur_x = 79, cur_y = 24, video = (\<lambda>_. 0), debug_port = []\<rparr>) \<and>
   cursor (printk [75, 69, 89] \<lparr>cur_x = 79, cur_y = 24, video = (\<lambda>_. 0), debug_port = []\<rparr>) = 2"
  using printk_stays_on_screen [of "\<lparr>cur_x = 79, cur_y = 24, video = (\<lambda>_. 0), debug_port = []\<rparr>" "[75, 69, 89]"]
  by (simp add: on_screen_def cursor_def)

end
