(* ===== verification/Kernel.thy ===== *)
theory Kernel
  imports Files ListHead Io
begin

text \<open>
  The global state of the kernel (\<open>zeos/include/sched.h\<close>, \<open>keyboard.h\<close>,
  \<open>interrupt.h\<close> and the globals of the C files), and what the routines share: the running
  process, \<open>list_head_to_task_struct\<close>, the saved context on a kernel stack.

  Objects are addressed by their index in the C array that holds them: a process is an index
  of \<open>task\<close>, an open file an index of \<open>fdt\<close>, a \<open>struct list_head\<close> a value of
  \<open>list_node\<close>. \<open>current()\<close>, which the C code computes from \<open>%esp\<close>, is the index
  \<open>cur\<close>. What the linker chooses is the record \<open>layout\<close>.
\<close>

abbreviation (input) "SEM_MAX_VALUE \<equiv> (26 :: int)"
abbreviation (input) "MAX_FDS \<equiv> (10 :: int)"
abbreviation (input) "CIRCULAR_SIZE \<equiv> (5 :: int)"

section \<open>Data\<close>

text \<open>The \<open>struct list_head\<close> objects: \<open>runqueue\<close>, \<open>keyboard_queue\<close>,
  \<open>sem[n].wait_list\<close> and \<open>task[i].t.task.run_list\<close>.\<close>

datatype list_node = RunQ | KbdQ | SemQ int | TaskL int

text \<open>\<open>union task_union\<close>: the words of \<open>stack\<close> above the \<open>task_struct\<close> are
  disjoint from it, so the union is one record; \<open>run_list\<close> lives in the list heap.\<close>

record task_struct =
  pid :: int
  quantum :: int
  cpu_tics :: int
  remaining :: int
  transitions :: int
  ph_pages :: "int arr"
  owned_sems :: "int arr"
  pending_chars :: int
  t_size :: int
  t_buffer :: int
  file_descriptors :: "int option arr"
  stack :: "32 word arr"

record semaphore =
  count :: int
  init :: int

record layout =
  task_addr :: int
  dir_pages_addr :: "32 word"
  pagusr_table_addr :: int
  tss_addr :: "32 word"
  gdt_addr :: "32 word"
  idt_addr :: "32 word"
  arg_loc :: "int \<Rightarrow> int"

record kernel =
  lay :: layout
  mm :: mm_state
  fs :: fs_state
  scr :: screen
  lists :: "list_node list_heap"
  task :: "task_struct arr"
  sem :: "semaphore arr"
  next_pid :: int
  it_is_int :: int
  left4current :: int
  tics :: int
  cur :: int
  eois :: nat
  circular :: "8 word arr"
  circ_chars :: int
  kp :: int
  kstart :: int

text \<open>A routine returns a value, leaves by a context switch or hangs; \<open>None\<close> is undefined.\<close>

type_synonym 'a routine_result = "('a outcome \<times> kernel) option"

section \<open>Access\<close>

abbreviation current :: "kernel \<Rightarrow> task_struct" where
  "current k \<equiv> task k (cur k)"

definition upd_task :: "int \<Rightarrow> (task_struct \<Rightarrow> task_struct) \<Rightarrow> kernel \<Rightarrow> kernel" where
  "upd_task i f k = k\<lparr>task := (task k)(i := f (task k i))\<rparr>"

definition upd_sem :: "int \<Rightarrow> (semaphore \<Rightarrow> semaphore) \<Rightarrow> kernel \<Rightarrow> kernel" where
  "upd_sem n f k = k\<lparr>sem := (sem k)(n := f (sem k n))\<rparr>"

text \<open>\<open>list_entry (l, struct task_struct, run_list)\<close>: only the \<open>run_list\<close> of a task lies
  inside a \<open>task_struct\<close>.\<close>

definition list_head_to_task_struct :: "list_node option \<Rightarrow> int option" where
  "list_head_to_task_struct l = (case l of Some (TaskL i) \<Rightarrow> Some i | _ \<Rightarrow> None)"

definition lift_mm :: "(mm_state \<Rightarrow> mm_state option) \<Rightarrow> kernel \<Rightarrow> kernel option" where
  "lift_mm f k = map_option (\<lambda>m. k\<lparr>mm := m\<rparr>) (f (mm k))"

definition lift_lists :: "(list_node list_heap \<Rightarrow> list_node list_heap option) \<Rightarrow> kernel \<Rightarrow> kernel option" where
  "lift_lists f k = map_option (\<lambda>h. k\<lparr>lists := h\<rparr>) (f (lists k))"

definition lift_fs :: "(fs_state \<Rightarrow> ('a \<times> fs_state) option) \<Rightarrow> kernel \<Rightarrow> ('a \<times> kernel) option" where
  "lift_fs f k = map_option (\<lambda>(r, s). (r, k\<lparr>fs := s\<rparr>)) (f (fs k))"

text \<open>The slot of \<open>%eax\<close> in the context saved at the top of the kernel stack.\<close>

abbreviation (input) "EAX_SLOT \<equiv> (1014 :: int)"  \<comment> \<open>KERNEL_STACK_SIZE - 10\<close>

definition set_eax :: "int \<Rightarrow> task_struct \<Rightarrow> task_struct" where
  "set_eax v t = t\<lparr>stack := (stack t)(EAX_SLOT := word_of_int v)\<rparr>"

definition saved_eax :: "task_struct \<Rightarrow> int" where
  "saved_eax t = sint (stack t EAX_SLOT)"

text \<open>Address of \<open>task[i].t.stack[n]\<close>.\<close>

definition stack_addr :: "layout \<Rightarrow> int \<Rightarrow> int \<Rightarrow> int" where
  "stack_addr l i n = task_addr l + i * 8192 + 4096 + 4 * n"

text \<open>The stack of the boot, which becomes the kernel stack of process 0.\<close>

definition KERNEL_ESP :: "layout \<Rightarrow> 32 word" where
  "KERNEL_ESP l = word_of_int (stack_addr l 0 KERNEL_STACK_SIZE)"

section \<open>Simplification\<close>

lemma upd_task_simps [simp]:
  "task (upd_task i f k) = (task k)(i := f (task k i))"
  "lay (upd_task i f k) = lay k" "mm (upd_task i f k) = mm k" "fs (upd_task i f k) = fs k"
  "scr (upd_task i f k) = scr k" "lists (upd_task i f k) = lists k" "sem (upd_task i f k) = sem k"
  "next_pid (upd_task i f k) = next_pid k" "it_is_int (upd_task i f k) = it_is_int k"
  "left4current (upd_task i f k) = left4current k" "tics (upd_task i f k) = tics k"
  "cur (upd_task i f k) = cur k" "eois (upd_task i f k) = eois k" "circular (upd_task i f k) = circular k"
  "circ_chars (upd_task i f k) = circ_chars k" "kp (upd_task i f k) = kp k" "kstart (upd_task i f k) = kstart k"
  by (simp_all add: upd_task_def)

lemma upd_sem_simps [simp]:
  "sem (upd_sem i f k) = (sem k)(i := f (sem k i))"
  "lay (upd_sem i f k) = lay k" "mm (upd_sem i f k) = mm k" "fs (upd_sem i f k) = fs k"
  "scr (upd_sem i f k) = scr k" "lists (upd_sem i f k) = lists k" "task (upd_sem i f k) = task k"
  "next_pid (upd_sem i f k) = next_pid k" "it_is_int (upd_sem i f k) = it_is_int k"
  "left4current (upd_sem i f k) = left4current k" "tics (upd_sem i f k) = tics k"
  "cur (upd_sem i f k) = cur k" "eois (upd_sem i f k) = eois k" "circular (upd_sem i f k) = circular k"
  "circ_chars (upd_sem i f k) = circ_chars k" "kp (upd_sem i f k) = kp k" "kstart (upd_sem i f k) = kstart k"
  by (simp_all add: upd_sem_def)

lemma set_eax_simps [simp]:
  "pid (set_eax v t) = pid t" "quantum (set_eax v t) = quantum t" "owned_sems (set_eax v t) = owned_sems t"
  "ph_pages (set_eax v t) = ph_pages t" "file_descriptors (set_eax v t) = file_descriptors t"
  "transitions (set_eax v t) = transitions t" "remaining (set_eax v t) = remaining t"
  "cpu_tics (set_eax v t) = cpu_tics t"
  by (simp_all add: set_eax_def)

lemma saved_eax_set_eax [simp]: "in_int v \<Longrightarrow> saved_eax (set_eax v t) = v"
  by (simp add: saved_eax_def set_eax_def flip: s32_word)

lemma list_head_to_task_struct_simps [simp]:
  "list_head_to_task_struct (Some (TaskL i)) = Some i" "list_head_to_task_struct None = None"
  "list_head_to_task_struct (Some RunQ) = None" "list_head_to_task_struct (Some KbdQ) = None"
  "list_head_to_task_struct (Some (SemQ n)) = None"
  by (simp_all add: list_head_to_task_struct_def)

section \<open>The kernel before the boot\<close>

text \<open>
  Static storage starts as zeros; the addresses are a possible choice of the linker. This is the
  state in which the boot starts, and the properties are evaluated at states built from it.
\<close>

definition blank_task :: task_struct where
  "blank_task = \<lparr>pid = 0, quantum = 0, cpu_tics = 0, remaining = 0, transitions = 0, ph_pages = (\<lambda>_. 0),
     owned_sems = (\<lambda>_. 0), pending_chars = 0, t_size = 0, t_buffer = 0, file_descriptors = (\<lambda>_. None), stack = (\<lambda>_. 0)\<rparr>"

definition blank_kernel :: kernel where
  "blank_kernel = \<lparr>
     lay = \<lparr>task_addr = 0x20000, dir_pages_addr = 0x34000, pagusr_table_addr = 0x35000, tss_addr = 0x1A2B3,
       gdt_addr = 0x901B3, idt_addr = 0x19000, arg_loc = (\<lambda>i. 0x20FC0 + i * 8192)\<rparr>,
     mm = blank_mm, fs = blank_fs, scr = \<lparr>cur_x = 0, cur_y = 15, video = (\<lambda>_. 0), debug_port = []\<rparr>,
     lists = \<lparr>nxt = Map.empty, prv = Map.empty\<rparr>, task = (\<lambda>_. blank_task), sem = (\<lambda>_. \<lparr>count = 0, init = 0\<rparr>),
     next_pid = 0, it_is_int = 0, left4current = 0, tics = 0, cur = 0, eois = 0, circular = (\<lambda>_. 0), circ_chars = 0,
     kp = 0, kstart = 0\<rparr>"

end
