(* ===== verification/Sched.thy ===== *)
theory Sched
  imports Kernel
begin

text \<open>
  \<open>zeos/sched.c\<close>: initialisation of the scheduler and of task 0, the search for a free
  process slot, the context switch and the round-robin scheduler.

  \<open>queues k Q\<close> is the invariant of the process queues: \<open>Q\<close> gives the entries of every
  list head, the running process is the first of the run queue, task 0 never leaves it, and a
  process is live exactly when it is in one of the queues.
\<close>

section \<open>Initialisation\<close>

definition init_sched :: "kernel \<Rightarrow> kernel" where
  "init_sched k = k\<lparr>lists := INIT_LIST_HEAD (INIT_LIST_HEAD (lists k) RunQ) KbdQ,
     next_pid := 0, it_is_int := 0,
     task := for_to 0 NR_TASKS (\<lambda>i t. t(i := (t i)\<lparr>pid := -1\<rparr>)) (task k)\<rparr>"

text \<open>\<open>task[0].t.task.ph_pages[i] = alloc_frame();\<close>\<close>

definition alloc_ph :: "int \<Rightarrow> kernel \<Rightarrow> kernel" where
  "alloc_ph i k = (let (f, m) = alloc_frame (mm k)
     in upd_task 0 (\<lambda>t. t\<lparr>ph_pages := (ph_pages t)(i := f)\<rparr>) (k\<lparr>mm := m\<rparr>))"

definition init_task0 :: "kernel \<Rightarrow> kernel option" where
  "init_task0 k = do {
     let (first_ph, m) = initialize_P0_frames (mm k);
     let m = set_cr3 (dir_pages_addr (lay k)) (set_user_pages m);
     let k = k\<lparr>mm := m\<rparr>;
     let k = upd_task 0 (\<lambda>t. t\<lparr>pid := next_pid k, quantum := 60, cpu_tics := 0, remaining := 60,
       transitions := 1\<rparr>) (k\<lparr>next_pid := s32 (next_pid k + 1)\<rparr>);
     let k = k\<lparr>left4current := quantum (task k 0)\<rparr>;
     let k = for_to 0 NUM_PAG_DATA alloc_ph k;
     let k = upd_task 0 (\<lambda>t. t\<lparr>owned_sems := for_to 0 SEM_MAX_VALUE (\<lambda>i a. a(i := -1)) (owned_sems t),
       file_descriptors := for_to 3 MAX_FDS (\<lambda>i a. a(i := None)) (file_descriptors t)\<rparr>) k;
     let s = fs k;
     let s = s\<lparr>fdt := (fdt s)(0 := \<lparr>access_mode = O_RDONLY, refs = 1, voffset = 0, logic_dev = Some 0\<rparr>),
               dir := (dir s)(0 := (dir s 0)\<lparr>n_refs := 1\<rparr>)\<rparr>;
     let s = s\<lparr>fdt := (fdt s)(1 := \<lparr>access_mode = O_WRONLY, refs = 1, voffset = 0, logic_dev = Some 1\<rparr>),
               dir := (dir s)(1 := (dir s 1)\<lparr>n_refs := 1\<rparr>)\<rparr>;
     let k = upd_task 0 (\<lambda>t. t\<lparr>file_descriptors :=
       (file_descriptors t)(0 := Some 0, 1 := Some 1, 2 := Some 1)\<rparr>) (k\<lparr>fs := s\<rparr>);
     lift_lists (\<lambda>h. list_add h (TaskL 0) RunQ) k
   }"

section \<open>Scheduling\<close>

definition srch_free_task :: "kernel \<Rightarrow> int" where
  "srch_free_task k = (let i = scan 0 NR_TASKS (\<lambda>i. \<not> pid (task k i) < 0)
     in if i < NR_TASKS then i else -1)"

text \<open>
  \<open>task_switch\<close> does not return: it loads the stack pointer of \<open>t\<close>, so that \<open>t\<close> is the
  running process, pops its saved context and executes IRET.
\<close>

definition task_switch :: "int \<Rightarrow> kernel \<Rightarrow> kernel option" where
  "task_switch t k = do {
     let k = upd_task t (\<lambda>p. p\<lparr>transitions := s32 (transitions p + 1)\<rparr>) k;
     let k = k\<lparr>left4current := quantum (task k t)\<rparr>;
     let k = upd_task t (\<lambda>p. p\<lparr>remaining := quantum p\<rparr>) k;
     let k = k\<lparr>mm := (mm k)\<lparr>tss := (tss (mm k))\<lparr>esp0 := word_of_int (stack_addr (lay k) t KERNEL_STACK_SIZE)\<rparr>\<rparr>\<rparr>;
     let n = scan 0 NUM_PAG_DATA (\<lambda>i. ph_pages (task k t) i \<noteq> -1);
     k \<leftarrow> lift_mm (for_opt 0 n (\<lambda>i. set_ss_pag (PAG_LOG_INIT_DATA_P0 + i) (ph_pages (task k t) i))) k;
     let k = k\<lparr>mm := set_cr3 (dir_pages_addr (lay k)) (mm k)\<rparr>;
     let k = k\<lparr>cur := t\<rparr>;
     Some (if it_is_int k = 1 then k\<lparr>eois := eois k + 1, it_is_int := 0\<rparr> else k)
   }"

definition schedule :: "int \<Rightarrow> kernel \<Rightarrow> unit routine_result" where
  "schedule from_int k =
     (if left4current k \<le> 0 then
        if list_first (lists k) RunQ = list_last (lists k) RunQ then
          let k = k\<lparr>left4current := quantum (current k)\<rparr>
          in Some (Return (), upd_task (cur k) (\<lambda>t. t\<lparr>remaining := left4current k\<rparr>) k)
        else do {
          k \<leftarrow> (if pid (current k) \<noteq> -1 then do {
                 k \<leftarrow> lift_lists (\<lambda>h. list_del h (TaskL (cur k))) k;
                 lift_lists (\<lambda>h. list_add_tail h (TaskL (cur k)) RunQ) k
               } else Some k);
          new_task \<leftarrow> list_head_to_task_struct (nxt (lists k) RunQ);
          k \<leftarrow> task_switch new_task (k\<lparr>it_is_int := from_int\<rparr>);
          Some (Switched, k)
        }
      else Some (Return (), k))"

section \<open>The context switch\<close>

text \<open>The pages of the switched-to process, as its \<open>ph_pages\<close> list them up to the first -1.\<close>

definition map_pages :: "task_struct \<Rightarrow> pte arr \<Rightarrow> pte arr" where
  "map_pages p t = (let n = scan 0 NUM_PAG_DATA (\<lambda>i. ph_pages p i \<noteq> -1)
     in (\<lambda>pg. if 264 \<le> pg \<and> pg < 264 + n then user_pte (ph_pages p (pg - 264)) else t pg))"

lemma set_ss_pag_range:
  assumes "0 \<le> b" "b + n \<le> 1024" "0 \<le> n"
  shows "for_opt 0 n (\<lambda>i. set_ss_pag (b + i) (f i)) m =
    Some (m\<lparr>pagusr_table := (\<lambda>pg. if b \<le> pg \<and> pg < b + n then user_pte (f (pg - b)) else pagusr_table m pg)\<rparr>)"
proof -
  let ?I = "\<lambda>j m'. 0 \<le> j \<and> m' = m\<lparr>pagusr_table :=
     (\<lambda>pg. if b \<le> pg \<and> pg < b + j then user_pte (f (pg - b)) else pagusr_table m pg)\<rparr>"
  have "\<exists>m'. for_opt 0 n (\<lambda>i. set_ss_pag (b + i) (f i)) m = Some m' \<and> ?I n m'"
  proof (rule for_opt_inv)
    show "?I 0 m" by (cases m) (auto simp: fun_eq_iff)
    fix j m'
    assume j: "0 \<le> j" "j < n" and I: "?I j m'"
    have "set_ss_pag (b + j) (f j) m' = Some (m'\<lparr>pagusr_table := (pagusr_table m')(b + j := user_pte (f j))\<rparr>)"
      by (rule set_ss_pag_user) (use j assms in auto)
    with I j show "\<exists>t'. set_ss_pag (b + j) (f j) m' = Some t' \<and> ?I (j + 1) t'"
      by (auto simp: fun_eq_iff)
  qed (use assms in simp)
  then show ?thesis by blast
qed

definition switched :: "int \<Rightarrow> kernel \<Rightarrow> kernel" where
  "switched t k = k\<lparr>
     task := (task k)(t := (task k t)\<lparr>transitions := s32 (transitions (task k t) + 1), remaining := quantum (task k t)\<rparr>),
     left4current := quantum (task k t),
     mm := (mm k)\<lparr>tss := (tss (mm k))\<lparr>esp0 := word_of_int (stack_addr (lay k) t 1024)\<rparr>,
        pagusr_table := map_pages (task k t) (pagusr_table (mm k)), cr3 := dir_pages_addr (lay k)\<rparr>,
     cur := t,
     eois := eois k + (if it_is_int k = 1 then 1 else 0),
     it_is_int := (if it_is_int k = 1 then 0 else it_is_int k)\<rparr>"

text \<open>A context switch never fails, and this is all it does.\<close>

lemma task_switch_eq: "task_switch t k = Some (switched t k)"
proof -
  let ?n = "scan 0 20 (\<lambda>i. ph_pages (task k t) i \<noteq> -1)"
  have n: "0 \<le> ?n" "264 + ?n \<le> 1024" using scan_ge [of 0 20] scan_le [of 0 20 "\<lambda>i. ph_pages (task k t) i \<noteq> -1"] by auto
  have "0 \<le> (264 :: int)" by simp
  show ?thesis
    using set_ss_pag_range [OF \<open>0 \<le> 264\<close> n(2) n(1)]
    by (auto simp: task_switch_def switched_def lift_mm_def upd_task_def map_pages_def set_cr3_def Let_def
        intro!: kernel.equality mm_state.equality)
qed

lemma switched_simps [simp]:
  "cur (switched t k) = t" "lists (switched t k) = lists k" "sem (switched t k) = sem k" "fs (switched t k) = fs k"
  "next_pid (switched t k) = next_pid k" "left4current (switched t k) = quantum (task k t)" "tics (switched t k) = tics k"
  "scr (switched t k) = scr k" "circular (switched t k) = circular k" "circ_chars (switched t k) = circ_chars k"
  "kp (switched t k) = kp k" "kstart (switched t k) = kstart k" "lay (switched t k) = lay k"
  "eois (switched t k) = eois k + (if it_is_int k = 1 then 1 else 0)"
  "it_is_int (switched t k) = (if it_is_int k = 1 then 0 else it_is_int k)"
  "pid (task (switched t k) i) = pid (task k i)" "quantum (task (switched t k) i) = quantum (task k i)"
  "stack (task (switched t k) i) = stack (task k i)" "ph_pages (task (switched t k) i) = ph_pages (task k i)"
  "owned_sems (task (switched t k) i) = owned_sems (task k i)"
  "file_descriptors (task (switched t k) i) = file_descriptors (task k i)"
  "phys_mem (mm (switched t k)) = phys_mem (mm k)" "ram (mm (switched t k)) = ram (mm k)"
  "pagusr_table (mm (switched t k)) = map_pages (task k t) (pagusr_table (mm k))"
  by (simp_all add: switched_def)

text \<open>With a full set of frames every data page shows the frame of the new process.\<close>

lemma map_pages_full:
  assumes "\<And>i. 0 \<le> i \<Longrightarrow> i < 20 \<Longrightarrow> ph_pages p i \<noteq> -1"
  shows "map_pages p t pg = (if 264 \<le> pg \<and> pg < 284 then user_pte (ph_pages p (pg - 264)) else t pg)"
proof -
  have "scan 0 20 (\<lambda>i. ph_pages p i \<noteq> -1) = 20" using assms by (simp add: scan_full_iff)
  then show ?thesis by (simp add: map_pages_def)
qed

section \<open>The process queues\<close>

definition live :: "kernel \<Rightarrow> int \<Rightarrow> bool" where
  "live k i \<longleftrightarrow> 0 \<le> i \<and> i < NR_TASKS \<and> 0 \<le> pid (task k i)"

text \<open>The entries of the queues of \<open>Q\<close> are the live processes.\<close>

definition members :: "(list_node \<rightharpoonup> list_node list) \<Rightarrow> list_node set" where
  "members Q = {n. \<exists>a xs. Q a = Some xs \<and> n \<in> set xs}"

definition queues :: "kernel \<Rightarrow> (list_node \<rightharpoonup> list_node list) \<Rightarrow> bool" where
  "queues k Q \<longleftrightarrow> rings (lists k) Q \<and>
     dom Q = {RunQ, KbdQ} \<union> SemQ ` {n. 0 \<le> n \<and> n < SEM_MAX_VALUE \<and> init (sem k n) = 1} \<and>
     members Q = TaskL ` {i. live k i} \<and>
     (\<exists>rq. Q RunQ = Some (TaskL (cur k) # rq)) \<and> (\<exists>rq. Q RunQ = Some rq \<and> TaskL 0 \<in> set rq) \<and>
     (\<forall>i. 0 \<le> i \<and> i < NR_TASKS \<longrightarrow> (pid (task k i) = 0 \<longleftrightarrow> i = 0) \<and> -1 \<le> pid (task k i)) \<and>
     (\<forall>n xs. Q (SemQ n) = Some xs \<and> xs \<noteq> [] \<longrightarrow> count (sem k n) = 0)"

lemma queues_rings: "queues k Q \<Longrightarrow> rings (lists k) Q"
  and queues_dom: "queues k Q \<Longrightarrow> dom Q = {RunQ, KbdQ} \<union> SemQ ` {n. 0 \<le> n \<and> n < SEM_MAX_VALUE \<and> init (sem k n) = 1}"
  and queues_members: "queues k Q \<Longrightarrow> members Q = TaskL ` {i. live k i}"
  and queues_pid: "queues k Q \<Longrightarrow> 0 \<le> i \<Longrightarrow> i < NR_TASKS \<Longrightarrow> (pid (task k i) = 0 \<longleftrightarrow> i = 0) \<and> -1 \<le> pid (task k i)"
  and queues_count: "queues k Q \<Longrightarrow> Q (SemQ n) = Some xs \<Longrightarrow> xs \<noteq> [] \<Longrightarrow> count (sem k n) = 0"
  by (simp_all add: queues_def)

lemma queues_run:
  assumes "queues k Q"
  obtains rq where "Q RunQ = Some (TaskL (cur k) # rq)" and "TaskL 0 \<in> set (TaskL (cur k) # rq)"
  using assms by (auto simp: queues_def)

lemma queues_cur: "queues k Q \<Longrightarrow> live k (cur k)"
proof -
  assume q: "queues k Q"
  then obtain rq where "Q RunQ = Some (TaskL (cur k) # rq)" by (rule queues_run) blast
  then have "TaskL (cur k) \<in> members Q" unfolding members_def by fastforce
  with queues_members [OF q] show ?thesis by auto
qed

lemma queues_kbd: "queues k Q \<Longrightarrow> \<exists>xs. Q KbdQ = Some xs"
  using queues_dom [of k Q] by auto

lemma queues_sem: "queues k Q \<Longrightarrow> 0 \<le> n \<Longrightarrow> n < SEM_MAX_VALUE \<Longrightarrow> init (sem k n) = 1 \<Longrightarrow> \<exists>xs. Q (SemQ n) = Some xs"
  using queues_dom [of k Q] by (auto simp: domD)

lemma queues_entry: "queues k Q \<Longrightarrow> Q a = Some xs \<Longrightarrow> n \<in> set xs \<Longrightarrow> \<exists>i. n = TaskL i \<and> live k i"
proof -
  assume q: "queues k Q" and "Q a = Some xs" "n \<in> set xs"
  then have "n \<in> members Q" by (auto simp: members_def)
  with queues_members [OF q] show ?thesis by auto
qed

text \<open>The invariant only looks at these parts of the state.\<close>

lemma queues_cong:
  assumes "lists k' = lists k" "cur k' = cur k" "\<And>i. pid (task k' i) = pid (task k i)"
    "\<And>n. init (sem k' n) = init (sem k n)" "\<And>n. count (sem k' n) = count (sem k n)"
  shows "queues k' Q = queues k Q"
  using assms by (simp add: queues_def live_def)

lemma members_upd: "members (Q(a \<mapsto> xs)) = set xs \<union> members (Q(a := None))"
  by (auto simp: members_def split: if_splits)

lemma members_split: "Q a = Some xs \<Longrightarrow> members Q = set xs \<union> members (Q(a := None))"
  using members_upd [of Q a xs] by (simp add: fun_upd_idem)

lemma set_remove1_snoc: "n \<in> set xs \<Longrightarrow> set (remove1 n xs @ [n]) = set xs"
  by (induction xs) auto

lemma members_rotate: "Q a = Some xs \<Longrightarrow> n \<in> set xs \<Longrightarrow> members (Q(a \<mapsto> remove1 n xs @ [n])) = members Q"
  unfolding members_upd using members_split [of Q a xs] set_remove1_snoc [of n xs] by simp

lemma members_move:
  assumes "Q a = Some xs" "Q b = Some ys" "a \<noteq> b" "n \<in> set xs"
  shows "members (Q(a \<mapsto> remove1 n xs, b \<mapsto> ys @ [n])) = members Q"
proof -
  have "members Q = set xs \<union> (set ys \<union> members (Q(a := None, b := None)))"
    using members_split [of Q a xs] members_split [of "Q(a := None)" b ys] assms by simp
  moreover have "members (Q(a \<mapsto> remove1 n xs, b \<mapsto> ys @ [n])) =
      set (ys @ [n]) \<union> (set (remove1 n xs) \<union> members (Q(a := None, b := None)))"
    using assms(3) unfolding members_upd by (simp add: fun_upd_twist [of a b] members_upd)
  ultimately show ?thesis using set_remove1_snoc [OF assms(4)] by auto
qed

lemma members_add: "Q a = Some xs \<Longrightarrow> members (Q(a \<mapsto> xs @ [n])) = insert n (members Q)"
  unfolding members_upd using members_split [of Q a xs] by simp

section \<open>Round robin\<close>

text \<open>A heap update that keeps the heads and the members keeps the invariant, whoever runs then.\<close>

lemma queues_step:
  assumes q: "queues k Q" and r: "rings h Q'" and d: "dom Q' = dom Q" and m: "members Q' = members Q"
    and run: "Q' RunQ = Some (TaskL t # rq)" "TaskL 0 \<in> set (TaskL t # rq)"
    and sems: "\<And>n xs. Q' (SemQ n) = Some xs \<Longrightarrow> xs \<noteq> [] \<Longrightarrow> count (sem k n) = 0"
    and k': "lists k' = h" "cur k' = t" "\<And>i. pid (task k' i) = pid (task k i)" "sem k' = sem k"
  shows "queues k' Q'"
  using assms by (auto simp: queues_def live_def)

text \<open>Nothing happens while the quantum lasts; a lone process gets a new quantum.\<close>

lemma schedule_lone:
  assumes q: "queues k Q" and l: "left4current k \<le> 0" and one: "Q RunQ = Some [TaskL (cur k)]"
  shows "schedule b k = Some (Return (), upd_task (cur k) (\<lambda>t. t\<lparr>remaining := quantum t\<rparr>)
    (k\<lparr>left4current := quantum (current k)\<rparr>))"
proof -
  have "list_first (lists k) RunQ = list_last (lists k) RunQ"
    using lh.single_iff [OF queues_rings [OF q] one] by simp
  then show ?thesis using l by (simp add: schedule_def upd_task_def)
qed

text \<open>Otherwise the running process goes to the end of the run queue and the next one runs.\<close>

lemma schedule_rotate:
  assumes q: "queues k Q" and l: "left4current k \<le> 0" and rq: "Q RunQ = Some (TaskL (cur k) # TaskL t # rq)"
  obtains h where "schedule b k = Some (Switched, switched t (k\<lparr>lists := h, it_is_int := b\<rparr>))"
    and "rings h (Q(RunQ \<mapsto> TaskL t # rq @ [TaskL (cur k)]))"
    and "queues (switched t (k\<lparr>lists := h, it_is_int := b\<rparr>)) (Q(RunQ \<mapsto> TaskL t # rq @ [TaskL (cur k)]))"
proof -
  note r = queues_rings [OF q]
  let ?c = "TaskL (cur k)" and ?Q = "Q(RunQ \<mapsto> TaskL t # rq @ [TaskL (cur k)])"
  have d: "distinct (RunQ # ?c # TaskL t # rq)" using lh.rep_distinct [OF r rq] .
  obtain h1 h where h: "list_del (lists k) ?c = Some h1" "list_add_tail h1 ?c RunQ = Some h"
    "rings h (Q(RunQ \<mapsto> remove1 ?c (?c # TaskL t # rq) @ [?c]))"
    using lh.rotate [OF r rq, of ?c] by (metis list.set_intros(1))
  then have rh: "rings h ?Q" by simp
  have "pid (current k) \<noteq> -1" using queues_cur [OF q] by (simp add: live_def)
  moreover have "list_first (lists k) RunQ \<noteq> list_last (lists k) RunQ"
    using lh.single_iff [OF r rq] by simp
  moreover have "nxt h RunQ = Some (TaskL t)" using lh.front_law [OF rh fun_upd_same] by (simp add: list_first_def)
  ultimately have s: "schedule b k = Some (Switched, switched t (k\<lparr>lists := h, it_is_int := b\<rparr>))"
    using h l by (simp add: schedule_def lift_lists_def task_switch_eq)
  have m: "members ?Q = members Q" using members_rotate [of Q RunQ "?c # TaskL t # rq" ?c] rq by simp
  have "queues (switched t (k\<lparr>lists := h, it_is_int := b\<rparr>)) ?Q"
  proof (rule queues_step [OF q rh _ m])
    show "dom ?Q = dom Q" using rq by auto
    show "TaskL 0 \<in> set (TaskL t # rq @ [?c])" using q rq by (auto simp: queues_def)
    show "\<And>n xs. ?Q (SemQ n) = Some xs \<Longrightarrow> xs \<noteq> [] \<Longrightarrow> count (sem k n) = 0"
      using queues_count [OF q] by simp
  qed simp_all
  then show ?thesis using that s rh by blast
qed

section \<open>The state after booting\<close>

text \<open>The frames of task 0 in its \<open>task_struct\<close>: twenty even ones from the first free frame on.\<close>

lemma alloc_ph_loop:
  assumes ff: "free_from a (mm k)" and a: "256 \<le> a" "even a" "a + 40 \<le> 1024"
  shows "\<exists>m. for_to 0 20 alloc_ph k = upd_task 0 (\<lambda>t. t\<lparr>ph_pages := (\<lambda>i. if 0 \<le> i \<and> i < 20 then a + 2 * i else ph_pages t i)\<rparr>)
     (k\<lparr>mm := m\<rparr>) \<and> free_from (a + 40) m \<and> mm_rest m = mm_rest (mm k)"
proof -
  let ?I = "\<lambda>j k'. \<exists>m. k' = upd_task 0 (\<lambda>t. t\<lparr>ph_pages := (\<lambda>i. if 0 \<le> i \<and> i < j then a + 2 * i else ph_pages t i)\<rparr>)
     (k\<lparr>mm := m\<rparr>) \<and> free_from (a + 2 * j) m \<and> mm_rest m = mm_rest (mm k)"
  have "?I 20 (for_to 0 20 alloc_ph k)"
  proof (rule for_to_inv [where I = ?I])
    have "k = upd_task 0 (\<lambda>t. t\<lparr>ph_pages := (\<lambda>i. if 0 \<le> i \<and> i < 0 then a + 2 * i else ph_pages t i)\<rparr>) (k\<lparr>mm := mm k\<rparr>)"
      by (auto simp: upd_task_def intro!: kernel.equality task_struct.equality ext)
    then show "?I 0 k" using ff by (intro exI [of _ "mm k"]) simp
    fix j u
    assume j: "0 \<le> j" "j < 20" and "?I j u"
    then obtain m where m: "u = upd_task 0 (\<lambda>t. t\<lparr>ph_pages := (\<lambda>i. if 0 \<le> i \<and> i < j then a + 2 * i else ph_pages t i)\<rparr>) (k\<lparr>mm := m\<rparr>)"
      "free_from (a + 2 * j) m" "mm_rest m = mm_rest (mm k)" by blast
    let ?m = "m\<lparr>phys_mem := (phys_mem m)(a + 2 * j := USED_FRAME)\<rparr>"
    have al: "alloc_frame m = (a + 2 * j, ?m)" and fr: "free_from (a + 2 * (j + 1)) ?m"
      using free_from_alloc [OF m(2)] a j by (simp_all add: algebra_simps)
    have "alloc_ph j u = upd_task 0 (\<lambda>t. t\<lparr>ph_pages := (\<lambda>i. if 0 \<le> i \<and> i < j + 1 then a + 2 * i else ph_pages t i)\<rparr>) (k\<lparr>mm := ?m\<rparr>)"
      using j by (auto simp: alloc_ph_def m(1) al upd_task_def intro!: kernel.equality task_struct.equality ext)
    then show "?I (j + 1) (alloc_ph j u)" using fr m(3) by (intro exI [of _ ?m]) (simp add: mm_rest_def)
  qed simp
  then show ?thesis by simp
qed

lemma init_sched_rings: "rings (lists (init_sched k)) [RunQ \<mapsto> [], KbdQ \<mapsto> []]"
proof -
  have "rings (lists k) Map.empty" by (simp add: rings_def apart_def)
  then have "rings (INIT_LIST_HEAD (lists k) RunQ) [RunQ \<mapsto> []]" by (rule rings_init) (simp add: nodes_def)
  then have "rings (INIT_LIST_HEAD (INIT_LIST_HEAD (lists k) RunQ) KbdQ) [RunQ \<mapsto> [], KbdQ \<mapsto> []]"
    by (rule rings_init) (simp add: nodes_def)
  then show ?thesis by (simp add: init_sched_def)
qed

lemma init_sched_pid: "0 \<le> i \<Longrightarrow> i < 10 \<Longrightarrow> pid (task (init_sched k) i) = -1"
proof -
  assume i: "0 \<le> i" "i < 10"
  let ?t = "for_to 0 NR_TASKS (\<lambda>i t. t(i := (t i)\<lparr>pid := -1\<rparr>)) (task k)"
  have "\<forall>j. 0 \<le> j \<and> j < 10 \<longrightarrow> pid (?t j) = -1"
    by (rule for_to_inv [where I = "\<lambda>n t. \<forall>j. 0 \<le> j \<and> j < n \<longrightarrow> pid (t j) = -1"]) auto
  then show ?thesis using i by (simp add: init_sched_def)
qed

text \<open>
  After \<open>init_sched\<close> and \<open>init_task0\<close> task 0 runs alone. The data pages its page table
  shows are the frames 264, 266, .. that \<open>set_user_pages\<close> took, while its
  \<open>task_struct\<close> lists the frames 304, 306, ..
\<close>

lemma init_task0_ok:
  assumes k: "k = init_sched k0" and P: "mm k = init_frames m0"
    and sems: "\<And>n. init (sem k n) \<noteq> 1" and c: "cur k = 0"
  obtains k' where "init_task0 k = Some k'" and "queues k' [RunQ \<mapsto> [TaskL 0], KbdQ \<mapsto> []]"
    and "\<forall>i. 0 \<le> i \<and> i < 20 \<longrightarrow> ph_pages (task k' 0) i = 304 + 2 * i"
    and "\<forall>p. 264 \<le> p \<and> p < 284 \<longrightarrow> pagusr_table (mm k') p = user_pte (264 + 2 * (p - 264))"
    and "free_from 344 (mm k')" and "next_pid k' = 1" and "lay k' = lay k" and "scr k' = scr k" and "sem k' = sem k" and "cur k' = 0"
    and "\<forall>p. 256 \<le> p \<and> p < 264 \<longrightarrow> pagusr_table (mm k') p = code_pte p"
    and "\<forall>p. p < 256 \<longrightarrow> pagusr_table (mm k') p = pagusr_table (mm k) p" and "ram (mm k') = ram (mm k)"
    and "fs k' = (fs k)\<lparr>fdt := (fdt (fs k))(0 := \<lparr>access_mode = O_RDONLY, refs = 1, voffset = 0, logic_dev = Some 0\<rparr>,
        1 := \<lparr>access_mode = O_WRONLY, refs = 1, voffset = 0, logic_dev = Some 1\<rparr>),
      dir := (dir (fs k))(0 := (dir (fs k) 0)\<lparr>n_refs := 1\<rparr>, 1 := (dir (fs k) 1)\<lparr>n_refs := 1\<rparr>)\<rparr>"
    and "\<forall>i. 0 \<le> i \<and> i < 10 \<longrightarrow> file_descriptors (task k' 0) i = (if i = 0 then Some 0 else if i < 3 then Some 1 else None)"
    and "circ_chars k' = circ_chars k \<and> kp k' = kp k \<and> kstart k' = kstart k \<and> left4current k' = 60 \<and> quantum (task k' 0) = 60 \<and>
      it_is_int k' = it_is_int k \<and> eois k' = eois k"
    and "tss (mm k') = tss (mm k)"
proof -
  let ?m = "set_cr3 (dir_pages_addr (lay k)) (set_user_pages (snd (initialize_P0_frames (mm k))))"
  have tab: "free_from 304 ?m" "\<forall>p. 264 \<le> p \<and> p < 284 \<longrightarrow> pagusr_table ?m p = user_pte (264 + 2 * (p - 264))"
    using set_user_pages_boot(1,2) [where ?m0.0 = m0] P by (simp_all add: set_cr3_def free_from_def)
  have rest: "\<forall>p. 256 \<le> p \<and> p < 264 \<longrightarrow> pagusr_table ?m p = code_pte p" "\<forall>p. p < 256 \<longrightarrow> pagusr_table ?m p = pagusr_table (mm k) p"
    "ram ?m = ram (mm k)" "tss ?m = tss (mm k)"
    using set_user_pages_boot(3-6) [where ?m0.0 = m0] P by (simp_all add: set_cr3_def init_frames_def)
  let ?k1 = "(upd_task 0 (\<lambda>t. t\<lparr>pid := next_pid k, quantum := 60, cpu_tics := 0, remaining := 60,
       transitions := 1\<rparr>) (k\<lparr>mm := ?m, next_pid := s32 (next_pid k + 1)\<rparr>))\<lparr>left4current := 60\<rparr>"
  obtain m where m: "for_to 0 20 alloc_ph ?k1 = upd_task 0 (\<lambda>t. t\<lparr>ph_pages := (\<lambda>i. if 0 \<le> i \<and> i < 20 then 304 + 2 * i else ph_pages t i)\<rparr>)
     (?k1\<lparr>mm := m\<rparr>)" "free_from 344 m" "mm_rest m = mm_rest ?m"
    using alloc_ph_loop [of 304 ?k1] tab(1) by auto
  have "rings (lists k) [RunQ \<mapsto> [], KbdQ \<mapsto> []]" using init_sched_rings k by simp
  moreover have "TaskL 0 \<notin> nodes [RunQ \<mapsto> [], KbdQ \<mapsto> []]" by (auto simp: nodes_def split: if_splits)
  moreover have "[RunQ \<mapsto> [], KbdQ \<mapsto> [], RunQ \<mapsto> [TaskL 0]] = [RunQ \<mapsto> [TaskL 0], KbdQ \<mapsto> []]" by auto
  ultimately obtain h where h: "list_add (lists k) (TaskL 0) RunQ = Some h" "rings h [RunQ \<mapsto> [TaskL 0], KbdQ \<mapsto> []]"
    using rings_add_head [of "lists k" "[RunQ \<mapsto> [], KbdQ \<mapsto> []]" RunQ "[]" "TaskL 0"]
    by (metis fun_upd_other fun_upd_same list_node.simps(3))
  obtain k' where k': "init_task0 k = Some k'" "lists k' = h" "cur k' = 0" "sem k' = sem k" "mm k' = m"
    "\<forall>i. pid (task k' i) = (if i = 0 then next_pid k else pid (task k i))"
    "\<forall>i. 0 \<le> i \<and> i < 20 \<longrightarrow> ph_pages (task k' 0) i = 304 + 2 * i" "next_pid k' = s32 (next_pid k + 1)" "lay k' = lay k" "scr k' = scr k"
    "fs k' = (fs k)\<lparr>fdt := (fdt (fs k))(0 := \<lparr>access_mode = O_RDONLY, refs = 1, voffset = 0, logic_dev = Some 0\<rparr>,
        1 := \<lparr>access_mode = O_WRONLY, refs = 1, voffset = 0, logic_dev = Some 1\<rparr>),
      dir := (dir (fs k))(0 := (dir (fs k) 0)\<lparr>n_refs := 1\<rparr>, 1 := (dir (fs k) 1)\<lparr>n_refs := 1\<rparr>)\<rparr>"
    "\<forall>i. 0 \<le> i \<and> i < 10 \<longrightarrow> file_descriptors (task k' 0) i = (if i = 0 then Some 0 else if i < 3 then Some 1 else None)"
    "circ_chars k' = circ_chars k \<and> kp k' = kp k \<and> kstart k' = kstart k \<and> left4current k' = 60 \<and> quantum (task k' 0) = 60 \<and>
      it_is_int k' = it_is_int k \<and> eois k' = eois k"
    using h(1) m(1) c by (simp add: init_task0_def lift_lists_def initialize_P0_frames_def Let_def for_to_fill)
  have np: "next_pid k = 0" using k by (simp add: init_sched_def)
  have pids: "pid (task k' i) = (if i = 0 then 0 else -1)" if "0 \<le> i" "i < 10" for i
    using that k'(6) np init_sched_pid [of i k0] k by simp
  have lv: "{i. live k' i} = {0}" by (auto simp: live_def pids split: if_splits)
  have mem: "members [RunQ \<mapsto> [TaskL 0], KbdQ \<mapsto> []] = {TaskL 0}" by (auto simp: members_def split: if_splits)
  have "queues k' [RunQ \<mapsto> [TaskL 0], KbdQ \<mapsto> []]"
    unfolding queues_def lv mem using h(2) k'(2-4) sems pids by (auto split: if_splits)
  moreover have "pagusr_table m = pagusr_table ?m" "ram m = ram ?m" "tss m = tss ?m"
    using m(3) by (metis mm_rest_table, metis mm_rest_ram, metis mm_rest_tss)
  ultimately show ?thesis using that [OF k'(1)] k' tab(2) rest m(2) np by (simp add: in_int_def)
qed

end
