(* ===== verification/Semaphores.thy ===== *)
theory Semaphores
  imports Sched
begin

text \<open>
  The semaphore calls of \<open>zeos/sys.c\<close>. The lemmas show each call on every branch against
  the queues: a process that finds the count at zero goes to the end of the semaphore's queue and
  the next process runs; a signal wakes the first waiter; destroying wakes all of them.
\<close>

section \<open>The calls\<close>

definition sys_sem_init :: "int \<Rightarrow> int \<Rightarrow> kernel \<Rightarrow> int \<times> kernel" where
  "sys_sem_init n_sem value k =
     (if n_sem < 0 \<or> n_sem \<ge> SEM_MAX_VALUE then (- EINVAL, k)
      else if init (sem k n_sem) = 1 then (- EBUSY, k)
      else
        let k = upd_sem n_sem (\<lambda>s. s\<lparr>count := u32 value, init := 1\<rparr>) k;
            k = upd_task (cur k) (\<lambda>t. t\<lparr>owned_sems := (owned_sems t)(n_sem := 1)\<rparr>) k
        in (0, k\<lparr>lists := INIT_LIST_HEAD (lists k) (SemQ n_sem)\<rparr>))"

definition sys_sem_wait :: "int \<Rightarrow> kernel \<Rightarrow> int routine_result" where
  "sys_sem_wait n_sem k =
     (if pid (current k) = 0 then Some (Return (- EPERM), k)
      else if n_sem < 0 \<or> n_sem \<ge> SEM_MAX_VALUE \<or> init (sem k n_sem) \<noteq> 1 then Some (Return (- EINVAL), k)
      else if count (sem k n_sem) \<le> 0 then do {
        k \<leftarrow> lift_lists (\<lambda>h. list_del h (TaskL (cur k))) k;
        k \<leftarrow> lift_lists (\<lambda>h. list_add_tail h (TaskL (cur k)) (SemQ n_sem)) k;
        new_task \<leftarrow> list_head_to_task_struct (nxt (lists k) RunQ);
        k \<leftarrow> task_switch new_task (k\<lparr>it_is_int := 0\<rparr>);
        Some (Switched, k)
      }
      else Some (Return 0, upd_sem n_sem (\<lambda>s. s\<lparr>count := u32 (count s - 1)\<rparr>) k))"

text \<open>The first waiter leaves the queue of the semaphore with \<open>v\<close> as the result of its call.\<close>

definition wake_first :: "int \<Rightarrow> int \<Rightarrow> kernel \<Rightarrow> kernel option" where
  "wake_first n_sem v k = do {
     blocked_task \<leftarrow> nxt (lists k) (SemQ n_sem);
     k \<leftarrow> lift_lists (\<lambda>h. list_del h blocked_task) k;
     i \<leftarrow> list_head_to_task_struct (Some blocked_task);
     let k = upd_task i (set_eax v) k;
     lift_lists (\<lambda>h. list_add_tail h blocked_task RunQ) k
   }"

definition sys_sem_signal :: "int \<Rightarrow> kernel \<Rightarrow> (int \<times> kernel) option" where
  "sys_sem_signal n_sem k =
     (if n_sem < 0 \<or> n_sem \<ge> SEM_MAX_VALUE \<or> init (sem k n_sem) \<noteq> 1 then Some (- EINVAL, k)
      else if \<not> list_empty (lists k) (SemQ n_sem) then map_option (Pair 0) (wake_first n_sem 0 k)
      else Some (0, upd_sem n_sem (\<lambda>s. s\<lparr>count := u32 (count s + 1)\<rparr>) k))"

partial_function (option) wake_all :: "int \<Rightarrow> kernel \<Rightarrow> kernel option" where
  "wake_all n_sem k =
     (if list_empty (lists k) (SemQ n_sem) then Some k
      else Option.bind (wake_first n_sem (-1) k) (wake_all n_sem))"

definition sys_sem_destroy :: "int \<Rightarrow> kernel \<Rightarrow> (int \<times> kernel) option" where
  "sys_sem_destroy n_sem k =
     (if n_sem < 0 \<or> n_sem \<ge> SEM_MAX_VALUE then Some (- EINVAL, k)
      else if init (sem k n_sem) \<noteq> 1 then Some (- EINVAL, k)
      else if owned_sems (current k) n_sem \<noteq> 1 then Some (- EPERM, k)
      else do {
        k \<leftarrow> wake_all n_sem k;
        let k = upd_sem n_sem (\<lambda>s. s\<lparr>init := 0\<rparr>) k;
        Some (0, upd_task (cur k) (\<lambda>t. t\<lparr>owned_sems := (owned_sems t)(n_sem := -1)\<rparr>) k)
      })"

section \<open>Creating a semaphore\<close>

lemma sys_sem_init_ok:
  assumes q: "queues k Q" and n: "0 \<le> n" "n < 26" "init (sem k n) \<noteq> 1"
  obtains k' where "sys_sem_init n v k = (0, k')" and "queues k' (Q(SemQ n \<mapsto> []))"
    and "sem k' = (sem k)(n := \<lparr>count = u32 v, init = 1\<rparr>)" and "owned_sems (current k') n = 1"
    and "cur k' = cur k"
proof -
  let ?k = "(upd_task (cur k) (\<lambda>t. t\<lparr>owned_sems := (owned_sems t)(n := 1)\<rparr>)
    (upd_sem n (\<lambda>s. s\<lparr>count := u32 v, init := 1\<rparr>) k))\<lparr>lists := INIT_LIST_HEAD (lists k) (SemQ n)\<rparr>"
  let ?Q = "Q(SemQ n \<mapsto> [])"
  have e: "sys_sem_init n v k = (0, ?k)" using n by (simp add: sys_sem_init_def)
  have Qn: "Q (SemQ n) = None" using queues_dom [OF q] n by (auto simp: domIff)
  have "SemQ n \<notin> nodes Q"
  proof
    assume "SemQ n \<in> nodes Q"
    then obtain a xs where a: "Q a = Some xs" "SemQ n = a \<or> SemQ n \<in> set xs" by (auto simp: nodes_def)
    then have "SemQ n \<in> set xs" using Qn by auto
    with queues_entry [OF q a(1)] show False by blast
  qed
  then have r: "rings (INIT_LIST_HEAD (lists k) (SemQ n)) ?Q"
    using rings_init [OF queues_rings [OF q]] by blast
  have "Q(SemQ n := None) = Q" using Qn by auto
  then have m: "members ?Q = members Q" by (simp add: members_upd)
  have lv: "live ?k = live k" by (auto simp: live_def fun_eq_iff)
  have sm: "sem ?k = (sem k)(n := \<lparr>count = u32 v, init = 1\<rparr>)" by (cases "sem k n") simp
  have "queues ?k ?Q"
    unfolding queues_def lv m sm
    using r q n by (auto simp: queues_def split: if_splits)
  then show ?thesis using that e sm by simp
qed

section \<open>Waking a waiter\<close>

lemma wake_first_ok:
  assumes q: "queues k Q" and w: "Q (SemQ n) = Some (TaskL i # ws)" and rq: "Q RunQ = Some rq"
  obtains h where "wake_first n v k = Some ((upd_task i (set_eax v) k)\<lparr>lists := h\<rparr>)"
    and "queues ((upd_task i (set_eax v) k)\<lparr>lists := h\<rparr>) (Q(SemQ n \<mapsto> ws, RunQ \<mapsto> rq @ [TaskL i]))"
proof -
  note r = queues_rings [OF q]
  let ?Q = "Q(SemQ n \<mapsto> ws, RunQ \<mapsto> rq @ [TaskL i])"
  obtain h1 h where h: "list_del (lists k) (TaskL i) = Some h1" "list_add_tail h1 (TaskL i) RunQ = Some h"
    "rings h (Q(SemQ n \<mapsto> remove1 (TaskL i) (TaskL i # ws), RunQ \<mapsto> rq @ [TaskL i]))"
    using lh.move [OF r w _ rq, of "TaskL i"] by (metis list.set_intros(1) list_node.distinct(3))
  have f: "nxt (lists k) (SemQ n) = Some (TaskL i)" using lh.front_law [OF r w] by (simp add: list_first_def)
  have e: "wake_first n v k = Some ((upd_task i (set_eax v) k)\<lparr>lists := h\<rparr>)"
    using h f by (simp add: wake_first_def lift_lists_def upd_task_def)
  obtain rq' where rq': "Q RunQ = Some (TaskL (cur k) # rq')" "TaskL 0 \<in> set (TaskL (cur k) # rq')"
    using q by (rule queues_run) blast
  have m: "members ?Q = members Q" using members_move [of Q "SemQ n" "TaskL i # ws" RunQ rq "TaskL i"] w rq by simp
  have "queues ((upd_task i (set_eax v) k)\<lparr>lists := h\<rparr>) ?Q"
  proof (rule queues_step [OF q _ _ m, where rq = "rq' @ [TaskL i]"])
    show "rings h ?Q" using h(3) by simp
    show "dom ?Q = dom Q" using w rq by auto
    show "\<And>c xs. ?Q (SemQ c) = Some xs \<Longrightarrow> xs \<noteq> [] \<Longrightarrow> count (sem k c) = 0"
      using queues_count [OF q] w by (auto split: if_splits)
  qed (use rq rq' in auto)
  with e that show ?thesis by blast
qed

section \<open>Signal\<close>

lemma sys_sem_signal_empty:
  assumes q: "queues k Q" and n: "0 \<le> n" "n < 26" "init (sem k n) = 1" and w: "Q (SemQ n) = Some []"
  shows "sys_sem_signal n k = Some (0, upd_sem n (\<lambda>s. s\<lparr>count := u32 (count s + 1)\<rparr>) k)"
    and "queues (upd_sem n (\<lambda>s. s\<lparr>count := u32 (count s + 1)\<rparr>) k) Q"
proof -
  show "sys_sem_signal n k = Some (0, upd_sem n (\<lambda>s. s\<lparr>count := u32 (count s + 1)\<rparr>) k)"
    using lh.isempty_law [OF queues_rings [OF q] w] n by (simp add: sys_sem_signal_def)
  show "queues (upd_sem n (\<lambda>s. s\<lparr>count := u32 (count s + 1)\<rparr>) k) Q"
    using q w by (auto simp: queues_def live_def)
qed

lemma sys_sem_signal_wake:
  assumes q: "queues k Q" and n: "0 \<le> n" "n < 26" "init (sem k n) = 1"
    and w: "Q (SemQ n) = Some (TaskL i # ws)" and rq: "Q RunQ = Some rq"
  obtains h where "sys_sem_signal n k = Some (0, (upd_task i (set_eax 0) k)\<lparr>lists := h\<rparr>)"
    and "queues ((upd_task i (set_eax 0) k)\<lparr>lists := h\<rparr>) (Q(SemQ n \<mapsto> ws, RunQ \<mapsto> rq @ [TaskL i]))"
proof -
  have "\<not> list_empty (lists k) (SemQ n)" using lh.isempty_law [OF queues_rings [OF q] w] by simp
  then have e: "sys_sem_signal n k = map_option (Pair 0) (wake_first n 0 k)" using n by (simp add: sys_sem_signal_def)
  obtain h where "wake_first n 0 k = Some ((upd_task i (set_eax 0) k)\<lparr>lists := h\<rparr>)"
    "queues ((upd_task i (set_eax 0) k)\<lparr>lists := h\<rparr>) (Q(SemQ n \<mapsto> ws, RunQ \<mapsto> rq @ [TaskL i]))"
    using q w rq by (rule wake_first_ok) blast
  with e that show ?thesis by simp
qed

section \<open>Wait\<close>

lemma sys_sem_wait_pass:
  assumes q: "queues k Q" and p: "pid (current k) \<noteq> 0" and n: "0 \<le> n" "n < 26" "init (sem k n) = 1"
    and c: "0 < count (sem k n)"
  shows "sys_sem_wait n k = Some (Return 0, upd_sem n (\<lambda>s. s\<lparr>count := u32 (count s - 1)\<rparr>) k)"
    and "queues (upd_sem n (\<lambda>s. s\<lparr>count := u32 (count s - 1)\<rparr>) k) Q"
proof -
  show "sys_sem_wait n k = Some (Return 0, upd_sem n (\<lambda>s. s\<lparr>count := u32 (count s - 1)\<rparr>) k)"
    using p n c by (simp add: sys_sem_wait_def)
  have "Q (SemQ n) \<noteq> Some xs" if "xs \<noteq> []" for xs using queues_count [OF q, of n xs] c that by auto
  then show "queues (upd_sem n (\<lambda>s. s\<lparr>count := u32 (count s - 1)\<rparr>) k) Q"
    using q by (auto simp: queues_def live_def)
qed

text \<open>The process blocks: it leaves the head of the run queue and the next process runs.\<close>

lemma block_current:
  assumes q: "queues k Q" and p: "pid (current k) \<noteq> 0" and a: "Q a = Some ws" "a \<noteq> RunQ"
    and c: "\<And>n. a = SemQ n \<Longrightarrow> count (sem k n) = 0"
  obtains h1 h t rq where "Q RunQ = Some (TaskL (cur k) # TaskL t # rq)"
    and "list_del (lists k) (TaskL (cur k)) = Some h1" and "list_add_tail h1 (TaskL (cur k)) a = Some h"
    and "nxt h RunQ = Some (TaskL t)" and "rings h (Q(RunQ \<mapsto> TaskL t # rq, a \<mapsto> ws @ [TaskL (cur k)]))"
    and "\<And>k'. lists k' = h \<Longrightarrow> cur k' = t \<Longrightarrow> (\<And>i. pid (task k' i) = pid (task k i)) \<Longrightarrow> sem k' = sem k \<Longrightarrow>
      queues k' (Q(RunQ \<mapsto> TaskL t # rq, a \<mapsto> ws @ [TaskL (cur k)]))"
proof -
  note r = queues_rings [OF q]
  obtain rq where rq: "Q RunQ = Some (TaskL (cur k) # rq)" "TaskL 0 \<in> set (TaskL (cur k) # rq)"
    using q by (rule queues_run) blast
  have "cur k \<noteq> 0" using queues_cur [OF q] queues_pid [OF q, of "cur k"] p by (auto simp: live_def)
  then have t0: "TaskL 0 \<in> set rq" using rq by simp
  then obtain x rq' where x: "rq = x # rq'" by (cases rq) auto
  with queues_entry [OF q rq(1), of x] obtain t where t: "rq = TaskL t # rq'" by auto
  let ?Q = "Q(RunQ \<mapsto> TaskL t # rq', a \<mapsto> ws @ [TaskL (cur k)])"
  obtain h1 h where h: "list_del (lists k) (TaskL (cur k)) = Some h1" "list_add_tail h1 (TaskL (cur k)) a = Some h"
    "rings h (Q(RunQ \<mapsto> remove1 (TaskL (cur k)) (TaskL (cur k) # rq), a \<mapsto> ws @ [TaskL (cur k)]))"
    using lh.move [OF r rq(1) _ a(1) a(2) [symmetric], of "TaskL (cur k)"] by (metis list.set_intros(1))
  then have rh: "rings h ?Q" using t by simp
  have "?Q RunQ = Some (TaskL t # rq')" using a(2) by simp
  then have f: "nxt h RunQ = Some (TaskL t)" using lh.front_law [OF rh] by (simp add: list_first_def)
  have m: "members ?Q = members Q"
    using members_move [of Q RunQ "TaskL (cur k) # rq" a ws "TaskL (cur k)"] rq(1) a t by simp
  have qs: "queues k' ?Q" if "lists k' = h" "cur k' = t" "\<And>i. pid (task k' i) = pid (task k i)" "sem k' = sem k" for k'
  proof (rule queues_step [OF q rh _ m])
    show "dom ?Q = dom Q" using rq a by auto
    show "?Q RunQ = Some (TaskL t # rq')" using a(2) by simp
    show "TaskL 0 \<in> set (TaskL t # rq')" using t0 t by simp
    show "\<And>n xs. ?Q (SemQ n) = Some xs \<Longrightarrow> xs \<noteq> [] \<Longrightarrow> count (sem k n) = 0"
      using queues_count [OF q] c by (auto split: if_splits)
  qed (use that in simp_all)
  show ?thesis by (rule that [OF _ h(1,2) f rh qs]) (use rq t in auto)
qed

lemma sys_sem_wait_block:
  assumes q: "queues k Q" and p: "pid (current k) \<noteq> 0" and n: "0 \<le> n" "n < 26" "init (sem k n) = 1"
    and c: "count (sem k n) = 0" and w: "Q (SemQ n) = Some ws"
  obtains h t rq where "Q RunQ = Some (TaskL (cur k) # TaskL t # rq)"
    and "sys_sem_wait n k = Some (Switched, switched t (k\<lparr>lists := h, it_is_int := 0\<rparr>))"
    and "queues (switched t (k\<lparr>lists := h, it_is_int := 0\<rparr>))
      (Q(RunQ \<mapsto> TaskL t # rq, SemQ n \<mapsto> ws @ [TaskL (cur k)]))"
proof -
  obtain h1 h t rq where b: "Q RunQ = Some (TaskL (cur k) # TaskL t # rq)"
    "list_del (lists k) (TaskL (cur k)) = Some h1" "list_add_tail h1 (TaskL (cur k)) (SemQ n) = Some h"
    "nxt h RunQ = Some (TaskL t)"
    "\<And>k'. lists k' = h \<Longrightarrow> cur k' = t \<Longrightarrow> (\<And>i. pid (task k' i) = pid (task k i)) \<Longrightarrow> sem k' = sem k \<Longrightarrow>
      queues k' (Q(RunQ \<mapsto> TaskL t # rq, SemQ n \<mapsto> ws @ [TaskL (cur k)]))"
    using q p w _ _ by (rule block_current) (use c in blast)+
  have "sys_sem_wait n k = Some (Switched, switched t (k\<lparr>lists := h, it_is_int := 0\<rparr>))"
    using p n c b(2-4) by (simp add: sys_sem_wait_def lift_lists_def task_switch_eq)
  then show ?thesis using that [OF b(1)] b(5) by simp
qed

section \<open>Destroy\<close>

text \<open>All the waiters join the run queue, in order, with -1 as the result of their call.\<close>

lemma wake_all_ok:
  assumes "queues k Q" "Q (SemQ n) = Some ws" "Q RunQ = Some rq"
  shows "\<exists>h. wake_all n k = Some (k\<lparr>lists := h, task := (\<lambda>i. if TaskL i \<in> set ws then set_eax (-1) (task k i) else task k i)\<rparr>) \<and>
    queues (k\<lparr>lists := h, task := (\<lambda>i. if TaskL i \<in> set ws then set_eax (-1) (task k i) else task k i)\<rparr>)
      (Q(SemQ n \<mapsto> [], RunQ \<mapsto> rq @ ws))"
  using assms
proof (induction ws arbitrary: k Q rq)
  case Nil
  have "wake_all n k = Some k"
    using lh.isempty_law [OF queues_rings [OF Nil(1)] Nil(2)] by (subst wake_all.simps) simp
  moreover have Q: "Q(SemQ n \<mapsto> [], RunQ \<mapsto> rq @ []) = Q" using Nil by auto
  moreover have k: "k\<lparr>lists := lists k, task := (\<lambda>i. if TaskL i \<in> set [] then set_eax (-1) (task k i) else task k i)\<rparr> = k"
    by simp
  ultimately show ?case using Nil(1) unfolding Q by (intro exI [of _ "lists k"]) (simp only: k)
next
  case (Cons x ws)
  obtain i where i: "x = TaskL i" using queues_entry [OF Cons.prems(1,2), of x] by auto
  have d: "distinct (x # ws)" using lh.rep_distinct [OF queues_rings [OF Cons.prems(1)] Cons.prems(2)] by simp
  have "Q (SemQ n) = Some (TaskL i # ws)" using Cons.prems(2) i by simp
  from wake_first_ok [OF Cons.prems(1) this Cons.prems(3), of "-1"] obtain h1 where
    h1: "wake_first n (-1) k = Some ((upd_task i (set_eax (-1)) k)\<lparr>lists := h1\<rparr>)"
    "queues ((upd_task i (set_eax (-1)) k)\<lparr>lists := h1\<rparr>) (Q(SemQ n \<mapsto> ws, RunQ \<mapsto> rq @ [TaskL i]))" by blast
  let ?k1 = "(upd_task i (set_eax (-1)) k)\<lparr>lists := h1\<rparr>" and ?Q1 = "Q(SemQ n \<mapsto> ws, RunQ \<mapsto> rq @ [TaskL i])"
  have "?Q1 (SemQ n) = Some ws" "?Q1 RunQ = Some (rq @ [TaskL i])" by auto
  from Cons.IH [OF h1(2) this] obtain h where h:
    "wake_all n ?k1 = Some (?k1\<lparr>lists := h, task := (\<lambda>j. if TaskL j \<in> set ws then set_eax (-1) (task ?k1 j) else task ?k1 j)\<rparr>)"
    "queues (?k1\<lparr>lists := h, task := (\<lambda>j. if TaskL j \<in> set ws then set_eax (-1) (task ?k1 j) else task ?k1 j)\<rparr>)
      (?Q1(SemQ n \<mapsto> [], RunQ \<mapsto> (rq @ [TaskL i]) @ ws))" by blast
  let ?k2 = "k\<lparr>lists := h, task := (\<lambda>j. if TaskL j \<in> set (x # ws) then set_eax (-1) (task k j) else task k j)\<rparr>"
  have k2: "?k1\<lparr>lists := h, task := (\<lambda>j. if TaskL j \<in> set ws then set_eax (-1) (task ?k1 j) else task ?k1 j)\<rparr> = ?k2"
    using i d by (auto simp: upd_task_def fun_eq_iff)
  have Q2: "?Q1(SemQ n \<mapsto> [], RunQ \<mapsto> (rq @ [TaskL i]) @ ws) = Q(SemQ n \<mapsto> [], RunQ \<mapsto> rq @ x # ws)"
    using i by auto
  have "\<not> list_empty (lists k) (SemQ n)"
    using lh.isempty_law [OF queues_rings [OF Cons.prems(1)] Cons.prems(2)] by simp
  then have "wake_all n k = wake_all n ?k1" using h1(1) by (subst wake_all.simps) simp
  with h(1) have "wake_all n k = Some ?k2" by (simp only: k2)
  then show ?case using h(2) unfolding k2 Q2 by blast
qed

lemma rings_drop: "rings h Q \<Longrightarrow> rings h (Q(a := None))"
  unfolding rings_def apart_def by (auto split: if_splits)

lemma sys_sem_destroy_ok:
  assumes q: "queues k Q" and n: "0 \<le> n" "n < 26" "init (sem k n) = 1" and o: "owned_sems (current k) n = 1"
    and w: "Q (SemQ n) = Some ws" and rq: "Q RunQ = Some rq"
  obtains k' where "sys_sem_destroy n k = Some (0, k')" and "queues k' (Q(SemQ n := None, RunQ \<mapsto> rq @ ws))"
    and "\<forall>i. TaskL i \<in> set ws \<longrightarrow> saved_eax (task k' i) = -1"
    and "sem k' = (sem k)(n := (sem k n)\<lparr>init := 0\<rparr>)" and "cur k' = cur k" and "mm k' = mm k"
    and "\<forall>i. pid (task k' i) = pid (task k i) \<and> ph_pages (task k' i) = ph_pages (task k i)"
    and "owned_sems (current k') = (owned_sems (current k))(n := -1)"
    and "\<forall>i. i \<noteq> cur k \<longrightarrow> owned_sems (task k' i) = owned_sems (task k i)"
proof -
  obtain h where h: "wake_all n k = Some (k\<lparr>lists := h, task := (\<lambda>i. if TaskL i \<in> set ws then set_eax (-1) (task k i) else task k i)\<rparr>)"
    "queues (k\<lparr>lists := h, task := (\<lambda>i. if TaskL i \<in> set ws then set_eax (-1) (task k i) else task k i)\<rparr>)
      (Q(SemQ n \<mapsto> [], RunQ \<mapsto> rq @ ws))"
    using wake_all_ok [OF q w rq] by blast
  let ?k1 = "k\<lparr>lists := h, task := (\<lambda>i. if TaskL i \<in> set ws then set_eax (-1) (task k i) else task k i)\<rparr>"
  let ?k = "upd_task (cur k) (\<lambda>t. t\<lparr>owned_sems := (owned_sems t)(n := -1)\<rparr>) (upd_sem n (\<lambda>s. s\<lparr>init := 0\<rparr>) ?k1)"
  let ?Q1 = "Q(SemQ n \<mapsto> [], RunQ \<mapsto> rq @ ws)" and ?Q = "Q(SemQ n := None, RunQ \<mapsto> rq @ ws)"
  have e: "sys_sem_destroy n k = Some (0, ?k)" using n o h(1) by (simp add: sys_sem_destroy_def)
  have Q: "?Q = ?Q1(SemQ n := None)" by auto
  have r: "rings (lists ?k) ?Q" unfolding Q using rings_drop [OF queues_rings [OF h(2)], of "SemQ n"] by (simp del: fun_upd_apply fun_upd_twist)
  have m: "members ?Q1 = members ?Q" unfolding Q using members_split [of ?Q1 "SemQ n" "[]"] by simp
  have lv: "live ?k = live ?k1" by (auto simp: live_def fun_eq_iff)
  have "queues ?k ?Q"
    unfolding queues_def
  proof (intro conjI)
    show "members ?Q = TaskL ` {i. live ?k i}" using queues_members [OF h(2)] m lv by simp
    show "dom ?Q = {RunQ, KbdQ} \<union> SemQ ` {j. 0 \<le> j \<and> j < 26 \<and> init (sem ?k j) = 1}"
      using queues_dom [OF h(2)] unfolding Q dom_fun_upd by auto
    show "\<exists>rq. ?Q RunQ = Some (TaskL (cur ?k) # rq)" "\<exists>rq. ?Q RunQ = Some rq \<and> TaskL 0 \<in> set rq"
      using h(2) by (auto simp: queues_def)
    show "\<forall>i. 0 \<le> i \<and> i < 10 \<longrightarrow> (pid (task ?k i) = 0 \<longleftrightarrow> i = 0) \<and> - 1 \<le> pid (task ?k i)"
      using queues_pid [OF q] by auto
    show "\<forall>j xs. ?Q (SemQ j) = Some xs \<and> xs \<noteq> [] \<longrightarrow> count (sem ?k j) = 0"
      using queues_count [OF q] by auto
  qed (rule r)
  moreover have "\<forall>i. TaskL i \<in> set ws \<longrightarrow> saved_eax (task ?k i) = -1"
    by (auto simp: saved_eax_def set_eax_def)
  ultimately show ?thesis using that [OF e] by auto
qed

end
