(* ===== verification/Process.thy ===== *)
theory Process
  imports Semaphores
begin

text \<open>
  The process calls of \<open>zeos/sys.c\<close>: \<open>sys_getpid\<close>, \<open>sys_fork\<close>, \<open>sys_exit\<close>,
  \<open>sys_nice\<close> and \<open>sys_get_stats\<close>.

  \<open>frames_ok\<close> is the ownership of physical frames: the frames of the live processes are
  allocated and no two of them share one. \<open>mapped_ok\<close> says that the data pages the page table
  shows are allocated frames.
\<close>

section \<open>The calls\<close>

definition sys_ni_syscall :: int where
  "sys_ni_syscall = - ENOSYS"

definition sys_getpid :: "kernel \<Rightarrow> int" where
  "sys_getpid k = pid (current k)"

text \<open>\<open>copy_data (current (), &(task[c].t), 4096)\<close>: the whole union, \<open>run_list\<close> included.\<close>

definition copy_task :: "int \<Rightarrow> kernel \<Rightarrow> kernel" where
  "copy_task c k = k\<lparr>task := (task k)(c := current k),
     lists := (lists k)\<lparr>nxt := (nxt (lists k))(TaskL c := nxt (lists k) (TaskL (cur k))),
                       prv := (prv (lists k))(TaskL c := prv (lists k) (TaskL (cur k)))\<rparr>\<rparr>"

text \<open>One turn of the page loop; \<open>frames[j]\<close> may be read before it was ever written.\<close>

definition fork_page :: "int \<Rightarrow> int list \<Rightarrow> int \<Rightarrow> kernel \<Rightarrow> kernel option" where
  "fork_page c frames j k = do {
     f \<leftarrow> (if 0 \<le> j \<and> j < int (length frames) then Some (frames ! nat j) else None);
     k \<leftarrow> lift_mm (set_ss_pag (PAG_LOG_INIT_DATA_P0 + NUM_PAG_DATA + j) f) k;
     k \<leftarrow> lift_mm (copy_data vread vwrite (PAGE_SIZE * (PAG_LOG_INIT_DATA_P0 + j))
            (PAGE_SIZE * (PAG_LOG_INIT_DATA_P0 + NUM_PAG_DATA + j)) PAGE_SIZE) k;
     let k = upd_task c (\<lambda>t. t\<lparr>ph_pages := (ph_pages t)(j := f)\<rparr>) k;
     lift_mm (del_ss_pag (PAG_LOG_INIT_DATA_P0 + NUM_PAG_DATA + j)) k
   }"

text \<open>\<open>file_descriptors[i]->refs++; file_descriptors[i]->logic_dev->n_refs++;\<close>\<close>

definition share_fd :: "int option \<Rightarrow> fs_state \<Rightarrow> fs_state option" where
  "share_fd fd s = (case fd of None \<Rightarrow> Some s
     | Some v \<Rightarrow> do {
         o' \<leftarrow> rd MAX_OPEN_FILES (fdt s) v;
         d \<leftarrow> logic_dev o';
         Some (s\<lparr>fdt := (fdt s)(v := o'\<lparr>refs := refs o' + 1\<rparr>),
                 dir := (dir s)(d := (dir s d)\<lparr>n_refs := n_refs (dir s d) + 1\<rparr>)\<rparr>)
       })"

definition init_child :: "int \<Rightarrow> kernel \<Rightarrow> kernel" where
  "init_child c k =
     (let k = upd_task c (set_eax 0) k;
          k = upd_task c (\<lambda>t. t\<lparr>pid := next_pid k\<rparr>) k\<lparr>next_pid := s32 (next_pid k + 1)\<rparr>;
          k = upd_task c (\<lambda>t. t\<lparr>quantum := quantum (current k), cpu_tics := 0, transitions := 0\<rparr>) k
      in upd_task c (\<lambda>t. t\<lparr>remaining := quantum t,
           owned_sems := for_to 0 SEM_MAX_VALUE (\<lambda>i a. a(i := -1)) (owned_sems t)\<rparr>) k)"

definition sys_fork :: "kernel \<Rightarrow> (int \<times> kernel) option" where
  "sys_fork k =
     (let c = srch_free_task k
      in if c = -1 then Some (- EAGAIN, k)
         else do {
           let k = copy_task c k;
           let n = scan 0 NUM_PAG_DATA (\<lambda>i. ph_pages (current k) i \<noteq> -1);
           (r, m) \<leftarrow> take_frames alloc_frame free_frame (nat n) [] (mm k);
           let k = k\<lparr>mm := m\<rparr>;
           case r of
             None \<Rightarrow> Some (- EAGAIN, upd_task c (\<lambda>t. t\<lparr>pid := -1\<rparr>) k)
           | Some frames \<Rightarrow> do {
               k \<leftarrow> for_opt 0 (min NUM_PAG_DATA (n + 1)) (fork_page c frames) k;
               let k = k\<lparr>mm := set_cr3 (dir_pages_addr (lay k)) (mm k)\<rparr>;
               let k = init_child c k;
               s \<leftarrow> for_opt 0 MAX_FDS (\<lambda>i. share_fd (file_descriptors (task k c) i)) (fs k);
               k \<leftarrow> lift_lists (\<lambda>h. list_add_tail h (TaskL c) RunQ) (k\<lparr>fs := s\<rparr>);
               Some (next_pid k - 1, k)
             }
         })"

text \<open>\<open>sys_sem_destroy\<close> never switches, so the loop over the semaphores runs to its end.\<close>

definition sys_exit :: "kernel \<Rightarrow> unit routine_result" where
  "sys_exit k =
     (if pid (current k) \<noteq> 0 then do {
        k \<leftarrow> for_opt 0 SEM_MAX_VALUE (\<lambda>i k.
          if owned_sems (current k) i = 1 then map_option snd (sys_sem_destroy i k) else Some k) k;
        let k = upd_task (cur k) (\<lambda>t. t\<lparr>pid := -1\<rparr>) k;
        k \<leftarrow> lift_lists (\<lambda>h. list_del h (TaskL (cur k))) k;
        k \<leftarrow> lift_mm (for_opt 0 NUM_PAG_DATA (\<lambda>i. free_frame (ph_pages (current k) i))) k;
        schedule 0 (k\<lparr>left4current := 0\<rparr>)
      }
      else Some (Return (), k))"

definition sys_nice :: "int \<Rightarrow> kernel \<Rightarrow> int \<times> kernel" where
  "sys_nice q k =
     (if q > 0 then (quantum (current k), upd_task (cur k) (\<lambda>t. t\<lparr>quantum := q\<rparr>) k) else (- EINVAL, k))"

text \<open>\<open>struct stats\<close> in memory: three little-endian words.\<close>

definition word_bytes :: "int \<Rightarrow> 8 word list" where
  "word_bytes v = map (\<lambda>i. word_of_int (v div 256 ^ i)) [0..<4]"

definition stats_bytes :: "task_struct \<Rightarrow> 8 word list" where
  "stats_bytes t = word_bytes (u32 (cpu_tics t)) @ word_bytes (u32 (transitions t)) @ word_bytes (u32 (remaining t))"

definition stats_ld :: "8 word list \<Rightarrow> mm_state load" where
  "stats_ld bs m a = (if 0 \<le> a \<and> a < int (length bs) then Some (bs ! nat a) else None)"

text \<open>When no process has the identifier the last test reads \<open>task[NR_TASKS]\<close>.\<close>

definition sys_get_stats :: "int \<Rightarrow> int \<Rightarrow> kernel \<Rightarrow> (int \<times> kernel) option" where
  "sys_get_stats spid st k =
     (if spid < 0 then Some (- EINVAL, k)
      else do {
        ok \<leftarrow> access_ok (mm k) (arg_loc (lay k) (cur k)) 0 st 16;
        if ok < 1 then Some (- EFAULT, k)
        else do {
          let i = scan 0 NR_TASKS (\<lambda>i. pid (task k i) \<noteq> spid);
          t \<leftarrow> rd NR_TASKS (task k) i;
          if pid t \<noteq> spid then Some (- ESRCH, k)
          else do {
            (r, m) \<leftarrow> copy_to_user (stats_ld (stats_bytes t)) ust 0 st 12 (mm k);
            Some (r, k\<lparr>mm := m\<rparr>)
          }
        }
      })"

section \<open>A free slot\<close>

lemma srch_free_task_cases:
  "srch_free_task k = -1 \<and> (\<forall>i. 0 \<le> i \<and> i < 10 \<longrightarrow> 0 \<le> pid (task k i)) \<or>
   0 \<le> srch_free_task k \<and> srch_free_task k < 10 \<and> pid (task k (srch_free_task k)) < 0 \<and>
     (\<forall>i. 0 \<le> i \<and> i < srch_free_task k \<longrightarrow> 0 \<le> pid (task k i))"
proof -
  let ?c = "\<lambda>i. \<not> pid (task k i) < 0"
  have "0 \<le> scan 0 10 ?c" "scan 0 10 ?c \<le> 10" by (simp_all add: scan_ge scan_le)
  moreover have "\<not> pid (task k i) < 0" if "0 \<le> i" "i < scan 0 10 ?c" for i using scan_before [of 0 10 i ?c] that by simp
  moreover have "pid (task k (scan 0 10 ?c)) < 0" if "scan 0 10 ?c \<noteq> 10" using scan_hit [of 0 10 ?c] that by simp
  ultimately show ?thesis by (auto simp: srch_free_task_def Let_def not_less)
qed

section \<open>Copying the address space\<close>

lemma fork_page_eq:
  assumes j: "0 \<le> j" "j < 20" "j < int (length frames)" and f: "frames ! nat j = f" "0 \<le> f" "f < 1024"
    and p: "pagusr_table (mm k) (264 + j) = user_pte g" "0 \<le> g" "g < 1024" "g \<noteq> f"
  shows "fork_page c frames j k = Some (upd_task c (\<lambda>t. t\<lparr>ph_pages := (ph_pages t)(j := f)\<rparr>)
    (k\<lparr>mm := (mm k)\<lparr>ram := (\<lambda>pa. if pa div 4096 = f then ram (mm k) (4096 * g + pa mod 4096) else ram (mm k) pa),
       pagusr_table := (pagusr_table (mm k))(284 + j := 0)\<rparr>\<rparr>))"
proof -
  let ?m = "(mm k)\<lparr>pagusr_table := (pagusr_table (mm k))(284 + j := user_pte f)\<rparr>"
  have s: "set_ss_pag (284 + j) f (mm k) = Some ?m" using j by (simp add: set_ss_pag_user)
  have "copy_data vread vwrite (4096 * (264 + j)) (4096 * (284 + j)) 4096 ?m =
    Some (?m\<lparr>ram := (\<lambda>pa. if pa div 4096 = f then ram ?m (4096 * g + pa mod 4096) else ram ?m pa)\<rparr>)"
    by (rule copy_page) (use j f p in auto)
  then show ?thesis
    using s j f by (auto simp: fork_page_def lift_mm_def del_ss_pag_eq upd_task_def intro!: kernel.equality mm_state.equality)
qed

text \<open>The memory after \<open>j\<close> turns of the loop: the first \<open>j\<close> frames hold the pages, the others are as before.\<close>

definition pages_copied :: "int list \<Rightarrow> (int \<Rightarrow> int) \<Rightarrow> (int \<Rightarrow> 8 word) \<Rightarrow> int \<Rightarrow> (int \<Rightarrow> 8 word) \<Rightarrow> bool" where
  "pages_copied frames pf m j r \<longleftrightarrow>
     (\<forall>i x. 0 \<le> i \<and> i < j \<and> 0 \<le> x \<and> x < 4096 \<longrightarrow> r (4096 * frames ! nat i + x) = m (4096 * pf i + x)) \<and>
     (\<forall>pa. pa div 4096 \<notin> set (take (nat j) frames) \<longrightarrow> r pa = m pa)"

lemma pages_copied_step:
  assumes R: "pages_copied frames pf m j r" and j: "0 \<le> j" "j < int (length frames)" and d: "distinct frames" and g: "pf j \<notin> set frames"
  shows "pages_copied frames pf m (j + 1) (\<lambda>pa. if pa div 4096 = frames ! nat j then r (4096 * pf j + pa mod 4096) else r pa)"
proof -
  let ?f = "frames ! nat j"
  have nj: "nat j < length frames" using j by simp
  have nt: "?f \<notin> set (take (nat j) frames)"
    using d nj by (metis distinct_take id_take_nth_drop distinct.simps(2) distinct_append disjoint_iff list.set_intros(1))
  have others: "r pa = m pa" if "pa div 4096 \<notin> set (take (nat j) frames)" for pa using R that by (simp add: pages_copied_def)
  have old: "r (4096 * pf j + x) = m (4096 * pf j + x)" if "0 \<le> x" "x < 4096" for x
    by (rule others) (use that g in \<open>auto dest: in_set_takeD\<close>)
  show ?thesis
    unfolding pages_copied_def
  proof (intro conjI allI impI, goal_cases)
    case (1 i x)
    have dv: "(4096 * frames ! nat i + x) div 4096 = frames ! nat i" "(4096 * frames ! nat i + x) mod 4096 = x" using 1 by simp_all
    show ?case
    proof (cases "i = j")
      case True
      then show ?thesis using dv old [of x] 1 by simp
    next
      case False
      then have "nat i < length (take (nat j) frames)" "take (nat j) frames ! nat i = frames ! nat i" using 1 nj by auto
      then have "frames ! nat i \<in> set (take (nat j) frames)" by (metis nth_mem)
      then show ?thesis using dv R 1 False nt by (auto simp: pages_copied_def)
    qed
  next
    case (2 pa)
    have "take (nat (j + 1)) frames = take (nat j) frames @ [?f]" using nj j by (simp add: nat_add_distrib take_Suc_conv_app_nth)
    then show ?case using 2 others by auto
  qed
qed

lemma fork_pages_ok:
  assumes fr: "length frames = 20" "distinct frames" "\<forall>f\<in>set frames. 0 \<le> f \<and> f < 1024"
    and pg: "\<forall>j. 0 \<le> j \<and> j < 20 \<longrightarrow> pagusr_table (mm k) (264 + j) = user_pte (pf j) \<and> 0 \<le> pf j \<and> pf j < 1024 \<and> pf j \<notin> set frames"
  shows "\<exists>r. for_opt 0 20 (fork_page c frames) k = Some (upd_task c
      (\<lambda>t. t\<lparr>ph_pages := (\<lambda>i. if 0 \<le> i \<and> i < 20 then frames ! nat i else ph_pages t i)\<rparr>)
      (k\<lparr>mm := (mm k)\<lparr>ram := r, pagusr_table := (\<lambda>p. if 284 \<le> p \<and> p < 304 then 0 else pagusr_table (mm k) p)\<rparr>\<rparr>)) \<and>
    (\<forall>i x. 0 \<le> i \<and> i < 20 \<and> 0 \<le> x \<and> x < 4096 \<longrightarrow> r (4096 * frames ! nat i + x) = ram (mm k) (4096 * pf i + x)) \<and>
    (\<forall>pa. pa div 4096 \<notin> set frames \<longrightarrow> r pa = ram (mm k) pa)"
proof -
  define S where "S j r = (upd_task c
      (\<lambda>t. t\<lparr>ph_pages := (\<lambda>i. if 0 \<le> i \<and> i < j then frames ! nat i else ph_pages t i)\<rparr>)
      (k\<lparr>mm := (mm k)\<lparr>ram := r, pagusr_table := (\<lambda>p. if 284 \<le> p \<and> p < 284 + j then 0 else pagusr_table (mm k) p)\<rparr>\<rparr>))" for j r
  let ?R = "pages_copied frames pf (ram (mm k))"
  have "\<exists>k'. for_opt 0 20 (fork_page c frames) k = Some k' \<and> (\<exists>r. k' = S 20 r \<and> ?R 20 r)"
  proof (rule for_opt_inv [where I = "\<lambda>j k'. \<exists>r. k' = S j r \<and> ?R j r"])
    have "k = S 0 (ram (mm k))"
      by (auto simp: S_def upd_task_def intro!: kernel.equality mm_state.equality task_struct.equality ext)
    then show "\<exists>r. k = S 0 r \<and> ?R 0 r" by (auto simp: pages_copied_def)
    fix j u
    assume j: "0 \<le> j" "j < 20" and "\<exists>r. u = S j r \<and> ?R j r"
    then obtain r where u: "u = S j r" and R: "?R j r" by blast
    let ?f = "frames ! nat j" and ?g = "pf j"
    let ?r = "\<lambda>pa. if pa div 4096 = ?f then r (4096 * ?g + pa mod 4096) else r pa"
    have nj: "nat j < length frames" "j < int (length frames)" using j fr by simp_all
    have f: "0 \<le> ?f" "?f < 1024" "?f \<in> set frames" using fr nj by auto
    have g: "?g \<notin> set frames" "0 \<le> ?g" "?g < 1024" using pg j by auto
    have "fork_page c frames j u = Some (upd_task c (\<lambda>t. t\<lparr>ph_pages := (ph_pages t)(j := ?f)\<rparr>)
      (u\<lparr>mm := (mm u)\<lparr>ram := (\<lambda>pa. if pa div 4096 = ?f then ram (mm u) (4096 * ?g + pa mod 4096) else ram (mm u) pa),
       pagusr_table := (pagusr_table (mm u))(284 + j := 0)\<rparr>\<rparr>))"
      by (rule fork_page_eq) (use j nj f g pg in \<open>auto simp: u S_def\<close>)
    also have "\<dots> = Some (S (j + 1) ?r)"
      using j by (auto simp: u S_def upd_task_def intro!: kernel.equality mm_state.equality task_struct.equality ext)
    finally show "\<exists>t'. fork_page c frames j u = Some t' \<and> (\<exists>r. t' = S (j + 1) r \<and> ?R (j + 1) r)"
      using pages_copied_step [OF R j(1) nj(2) fr(2) g(1)] by blast
  qed simp
  then show ?thesis using fr(1) by (auto simp: S_def pages_copied_def)
qed

section \<open>Ownership of the physical frames\<close>

text \<open>A frame the allocator hands out and that is in use.\<close>

definition owned :: "mm_state \<Rightarrow> int \<Rightarrow> bool" where
  "owned m f \<longleftrightarrow> NUM_PAG_KERNEL \<le> f \<and> f < TOTAL_PAGES \<and> even f \<and> f \<notin> avail m"

definition frames_ok :: "kernel \<Rightarrow> bool" where
  "frames_ok k \<longleftrightarrow>
     (\<forall>i p. live k i \<and> 0 \<le> p \<and> p < 20 \<longrightarrow> owned (mm k) (ph_pages (task k i) p)) \<and>
     (\<forall>i p j q. live k i \<and> live k j \<and> 0 \<le> p \<and> p < 20 \<and> 0 \<le> q \<and> q < 20 \<and>
        ph_pages (task k i) p = ph_pages (task k j) q \<longrightarrow> i = j \<and> p = q)"

definition mapped_ok :: "kernel \<Rightarrow> bool" where
  "mapped_ok k \<longleftrightarrow> (\<forall>p. 0 \<le> p \<and> p < 20 \<longrightarrow> (\<exists>f. pagusr_table (mm k) (264 + p) = user_pte f \<and> owned (mm k) f))"

lemma owned_bounds: "owned m f \<Longrightarrow> 256 \<le> f \<and> f < 1024"
  by (simp add: owned_def)

lemma owned_alloc: "avail m' = avail m - set frs \<Longrightarrow> set frs \<subseteq> avail m \<Longrightarrow> owned m' f \<longleftrightarrow> owned m f \<or> f \<in> set frs"
  using avail_def by (auto simp: owned_def)

lemma owned_cong: "phys_mem m' = phys_mem m \<Longrightarrow> owned m' = owned m"
  by (auto simp: owned_def avail_def fun_eq_iff)

lemma frames_okD: "frames_ok k \<Longrightarrow> live k i \<Longrightarrow> 0 \<le> p \<Longrightarrow> p < 20 \<Longrightarrow> owned (mm k) (ph_pages (task k i) p)"
  by (simp add: frames_ok_def)

lemma frames_ok_inj: "frames_ok k \<Longrightarrow> live k i \<Longrightarrow> live k j \<Longrightarrow> 0 \<le> p \<Longrightarrow> p < 20 \<Longrightarrow> 0 \<le> q \<Longrightarrow> q < 20 \<Longrightarrow>
    ph_pages (task k i) p = ph_pages (task k j) q \<Longrightarrow> i = j \<and> p = q"
  unfolding frames_ok_def by blast

lemma frames_okI:
  assumes "\<And>i p. live k i \<Longrightarrow> 0 \<le> p \<Longrightarrow> p < 20 \<Longrightarrow> owned (mm k) (ph_pages (task k i) p)"
    and "\<And>i j p q. live k i \<Longrightarrow> live k j \<Longrightarrow> 0 \<le> p \<Longrightarrow> p < 20 \<Longrightarrow> 0 \<le> q \<Longrightarrow> q < 20 \<Longrightarrow>
      ph_pages (task k i) p = ph_pages (task k j) q \<Longrightarrow> i = j \<and> p = q"
  shows "frames_ok k"
  unfolding frames_ok_def using assms by blast

text \<open>Fewer live processes, with the same frames, all still in use.\<close>

lemma frames_ok_mono:
  assumes fo: "frames_ok k" and lv: "\<And>i. live k' i \<Longrightarrow> live k i"
    and ph: "\<And>i. live k' i \<Longrightarrow> ph_pages (task k' i) = ph_pages (task k i)"
    and ow: "\<And>i p. live k' i \<Longrightarrow> 0 \<le> p \<Longrightarrow> p < 20 \<Longrightarrow> owned (mm k) (ph_pages (task k i) p) \<Longrightarrow> owned (mm k') (ph_pages (task k i) p)"
  shows "frames_ok k'"
proof (rule frames_okI)
  fix i p :: int
  assume i: "live k' i" "0 \<le> p" "p < 20"
  show "owned (mm k') (ph_pages (task k' i) p)" unfolding ph [OF i(1)] by (rule ow [OF i frames_okD [OF fo lv [OF i(1)] i(2,3)]])
next
  fix i j p q :: int
  assume l: "live k' i" "live k' j" and b: "0 \<le> p" "p < 20" "0 \<le> q" "q < 20"
    and e: "ph_pages (task k' i) p = ph_pages (task k' j) q"
  show "i = j \<and> p = q"
    by (rule frames_ok_inj [OF fo lv [OF l(1)] lv [OF l(2)] b]) (use e ph [OF l(1)] ph [OF l(2)] in simp)
qed

lemma frames_ok_full: "frames_ok k \<Longrightarrow> live k i \<Longrightarrow> scan 0 20 (\<lambda>p. ph_pages (task k i) p \<noteq> -1) = 20"
  using frames_okD [of k i] owned_bounds [of "mm k"] by (subst scan_full_iff) fastforce+

lemma mapped_okE:
  assumes "mapped_ok k"
  obtains pf where "\<forall>p. 0 \<le> p \<and> p < 20 \<longrightarrow> pagusr_table (mm k) (264 + p) = user_pte (pf p) \<and> owned (mm k) (pf p)"
  using assms unfolding mapped_ok_def by metis

text \<open>A switch shows the frames of the new process.\<close>

lemma mapped_ok_switched: "frames_ok k \<Longrightarrow> live k t \<Longrightarrow> mapped_ok (switched t k)"
  unfolding mapped_ok_def
proof (intro allI impI)
  fix p :: int
  assume fo: "frames_ok k" "live k t" and p: "0 \<le> p \<and> p < 20"
  have "map_pages (task k t) (pagusr_table (mm k)) (264 + p) = user_pte (ph_pages (task k t) p)"
    using frames_ok_full [OF fo] p by (simp add: map_pages_def)
  then show "\<exists>f. pagusr_table (mm (switched t k)) (264 + p) = user_pte f \<and> owned (mm (switched t k)) f"
    using frames_okD [OF fo, of p] p owned_cong [of "mm (switched t k)" "mm k"] by auto
qed

lemma frames_ok_switched: "frames_ok k \<Longrightarrow> frames_ok (switched t k)"
  by (rule frames_ok_mono [of k]) (auto simp: live_def owned_cong [of "mm (switched t k)" "mm k"])

text \<open>Reading through the page table after a switch reads the frames of the new process.\<close>

lemma switched_memory:
  assumes fo: "frames_ok k" "live k t" and p: "0 \<le> p" "p < 20" "0 \<le> x" "x < 4096"
  shows "vread (mm (switched t k)) (4096 * (264 + p) + x) = Some (ram (mm k) (4096 * ph_pages (task k t) p + x))"
proof -
  have "pagusr_table (mm (switched t k)) (264 + p) = user_pte (ph_pages (task k t) p)"
    using frames_ok_full [OF fo] p by (simp add: map_pages_def)
  then have "translate (mm (switched t k)) (4096 * (264 + p) + x) = Some (4096 * ph_pages (task k t) p + x)"
    by (rule translate_page) (use owned_bounds [OF frames_okD [OF fo, of p]] p in auto)
  then show ?thesis by (simp add: vread_def)
qed

section \<open>Sharing the descriptors\<close>

definition fds_ok :: "fs_state \<Rightarrow> int option arr \<Rightarrow> bool" where
  "fds_ok s fds \<longleftrightarrow> (\<forall>i v. 0 \<le> i \<and> i < MAX_FDS \<and> fds i = Some v \<longrightarrow>
     0 \<le> v \<and> v < MAX_OPEN_FILES \<and> logic_dev (fdt s v) \<noteq> None)"

text \<open>The number of descriptors below \<open>n\<close> that point to the open file \<open>v\<close>.\<close>

definition fd_count :: "int \<Rightarrow> int option arr \<Rightarrow> int \<Rightarrow> int" where
  "fd_count n fds v = int (card {i. 0 \<le> i \<and> i < n \<and> fds i = Some v})"

lemma fd_count_0 [simp]: "fd_count 0 fds v = 0"
proof -
  have "{i :: int. 0 \<le> i \<and> i < 0 \<and> fds i = Some v} = {}" by auto
  then show ?thesis unfolding fd_count_def by (simp only: card.empty of_nat_0)
qed

lemma fd_count_step: "0 \<le> n \<Longrightarrow> fd_count (n + 1) fds v = fd_count n fds v + (if fds n = Some v then 1 else 0)"
proof -
  assume n: "0 \<le> n"
  have "{i. 0 \<le> i \<and> i < n + 1 \<and> fds i = Some v} =
    (if fds n = Some v then insert n {i. 0 \<le> i \<and> i < n \<and> fds i = Some v} else {i. 0 \<le> i \<and> i < n \<and> fds i = Some v})"
    using n by (auto simp: less_le)
  moreover have "finite {i. 0 \<le> i \<and> i < n \<and> fds i = Some v}" by (rule finite_subset [of _ "{0..<n}"]) auto
  ultimately show ?thesis by (simp add: fd_count_def)
qed

lemma share_fds_ok:
  assumes ok: "fds_ok s fds"
  shows "\<exists>s'. for_opt 0 10 (\<lambda>i. share_fd (fds i)) s = Some s' \<and>
    (\<forall>v. refs (fdt s' v) = refs (fdt s v) + fd_count 10 fds v \<and> logic_dev (fdt s' v) = logic_dev (fdt s v) \<and>
      voffset (fdt s' v) = voffset (fdt s v) \<and> access_mode (fdt s' v) = access_mode (fdt s v)) \<and>
    fat s' = fat s \<and> ffb s' = ffb s \<and> disk s' = disk s \<and> ops s' = ops s"
proof -
  let ?I = "\<lambda>j s'. 0 \<le> j \<and> (\<forall>v. refs (fdt s' v) = refs (fdt s v) + fd_count j fds v \<and> logic_dev (fdt s' v) = logic_dev (fdt s v) \<and>
      voffset (fdt s' v) = voffset (fdt s v) \<and> access_mode (fdt s' v) = access_mode (fdt s v)) \<and>
    fat s' = fat s \<and> ffb s' = ffb s \<and> disk s' = disk s \<and> ops s' = ops s"
  have "\<exists>s'. for_opt 0 10 (\<lambda>i. share_fd (fds i)) s = Some s' \<and> ?I 10 s'"
  proof (rule for_opt_inv [where I = ?I])
    show "?I 0 s" by simp
    fix j and u :: fs_state
    assume j: "0 \<le> j" "j < 10" and I: "?I j u"
    show "\<exists>t'. share_fd (fds j) u = Some t' \<and> ?I (j + 1) t'"
    proof (cases "fds j")
      case None
      then show ?thesis using I j by (simp add: share_fd_def fd_count_step)
    next
      case (Some v)
      have v: "0 \<le> v" "v < 15" "logic_dev (fdt s v) \<noteq> None" using ok j Some by (auto simp: fds_ok_def)
      then obtain d where "logic_dev (fdt u v) = Some d" using I by auto
      then show ?thesis using Some v I j by (simp add: share_fd_def fd_count_step)
    qed
  qed simp
  then show ?thesis by auto
qed

section \<open>Fork\<close>

lemma rings_cong:
  assumes r: "rings h Q" and eq: "\<And>n. n \<in> nodes Q \<Longrightarrow> nxt h' n = nxt h n \<and> prv h' n = prv h n"
  shows "rings h' Q"
  unfolding rings_def
proof (intro conjI allI impI)
  show "apart Q" using r by (simp add: rings_def)
  fix a xs
  assume a: "Q a = Some xs"
  then have "\<And>n. n \<in> set (a # xs) \<Longrightarrow> nxt h' n = nxt h n \<and> prv h' n = prv h n" using eq nodes_in [of Q a xs] by blast
  then show "ring h' a xs" using ring_cong [of a xs h' h] r a by (auto simp: rings_def)
qed

lemma not_live_not_node:
  assumes q: "queues k Q" and c: "\<not> live k c"
  shows "TaskL c \<notin> nodes Q"
proof
  assume "TaskL c \<in> nodes Q"
  then obtain a xs where a: "Q a = Some xs" "TaskL c = a \<or> TaskL c \<in> set xs" by (auto simp: nodes_def)
  moreover have "a \<noteq> TaskL c" using queues_dom [OF q] a(1) by auto
  ultimately have "TaskL c \<in> set xs" by auto
  with queues_entry [OF q a(1)] c show False by blast
qed

lemma init_child_frame:
  "mm (init_child c k) = mm k" "lay (init_child c k) = lay k" "fs (init_child c k) = fs k" "scr (init_child c k) = scr k"
  "lists (init_child c k) = lists k" "sem (init_child c k) = sem k" "next_pid (init_child c k) = s32 (next_pid k + 1)"
  "it_is_int (init_child c k) = it_is_int k" "left4current (init_child c k) = left4current k"
  "tics (init_child c k) = tics k" "cur (init_child c k) = cur k" "eois (init_child c k) = eois k"
  "circular (init_child c k) = circular k" "circ_chars (init_child c k) = circ_chars k"
  "kp (init_child c k) = kp k" "kstart (init_child c k) = kstart k"
  by (simp_all add: init_child_def Let_def)

text \<open>The child, from its parent.\<close>

definition child_of :: "kernel \<Rightarrow> int list \<Rightarrow> task_struct" where
  "child_of k frames = (set_eax 0 (current k))\<lparr>pid := next_pid k, cpu_tics := 0, remaining := quantum (current k),
     transitions := 0, ph_pages := (\<lambda>i. if 0 \<le> i \<and> i < 20 then frames ! nat i else ph_pages (current k) i),
     owned_sems := (\<lambda>i. if 0 \<le> i \<and> i < 26 then -1 else owned_sems (current k) i)\<rparr>"

text \<open>The state in which the child is complete, when its address space has been copied to \<open>frames\<close>.\<close>

definition with_child :: "kernel \<Rightarrow> int \<Rightarrow> int list \<Rightarrow> mm_state \<Rightarrow> (int \<Rightarrow> 8 word) \<Rightarrow> kernel" where
  "with_child k c frames m r = init_child c (let k1 = upd_task c
      (\<lambda>t. t\<lparr>ph_pages := (\<lambda>i. if 0 \<le> i \<and> i < 20 then frames ! nat i else ph_pages t i)\<rparr>)
      ((copy_task c k)\<lparr>mm := m\<lparr>ram := r, pagusr_table := (\<lambda>p. if 284 \<le> p \<and> p < 304 then 0 else pagusr_table m p)\<rparr>\<rparr>)
    in k1\<lparr>mm := set_cr3 (dir_pages_addr (lay k)) (mm k1)\<rparr>)"

lemma with_child_eq:
  assumes cc: "c \<noteq> cur k" and np: "0 \<le> next_pid k" "next_pid k < 2 ^ 31 - 1" and mk: "pagusr_table m = pagusr_table (mm k)"
  shows "(with_child k c frames m r)\<lparr>fs := s, lists := h\<rparr> = k\<lparr>task := (task k)(c := child_of k frames), lists := h, next_pid := next_pid k + 1,
       fs := s, mm := m\<lparr>ram := r, pagusr_table := (\<lambda>p. if 284 \<le> p \<and> p < 304 then 0 else pagusr_table (mm k) p),
         cr3 := dir_pages_addr (lay k)\<rparr>\<rparr>"
    and "task (with_child k c frames m r) c = child_of k frames" "fs (with_child k c frames m r) = fs k"
    "lists (with_child k c frames m r) = lists (copy_task c k)" "next_pid (with_child k c frames m r) = next_pid k + 1"
proof -
  let ?k = "with_child k c frames m r"
  have s32n: "s32 (next_pid k + 1) = next_pid k + 1" by (rule s32_id) (use np in \<open>simp add: in_int_def\<close>)
  have t: "task ?k = (task k)(c := child_of k frames)"
    using cc by (auto simp: with_child_def init_child_def child_of_def copy_task_def upd_task_def set_eax_def for_to_fill Let_def
        intro!: ext task_struct.equality)
  have m: "mm ?k = m\<lparr>ram := r, pagusr_table := (\<lambda>p. if 284 \<le> p \<and> p < 304 then 0 else pagusr_table (mm k) p),
      cr3 := dir_pages_addr (lay k)\<rparr>"
    by (simp add: with_child_def init_child_frame set_cr3_def mk Let_def cong: if_cong)
  show "fs ?k = fs k" "lists ?k = lists (copy_task c k)" "next_pid ?k = next_pid k + 1" "task ?k c = child_of k frames"
    by (simp_all add: t) (simp_all add: with_child_def init_child_frame copy_task_def s32n Let_def)
  show "?k\<lparr>fs := s, lists := h\<rparr> = k\<lparr>task := (task k)(c := child_of k frames), lists := h, next_pid := next_pid k + 1,
       fs := s, mm := m\<lparr>ram := r, pagusr_table := (\<lambda>p. if 284 \<le> p \<and> p < 304 then 0 else pagusr_table (mm k) p),
         cr3 := dir_pages_addr (lay k)\<rparr>\<rparr>"
    by (rule kernel.equality) (simp_all add: t m, simp_all add: with_child_def init_child_frame copy_task_def s32n Let_def)
qed

lemma sys_fork_state:
  assumes q: "queues k Q" and fo: "frames_ok k" and mo: "mapped_ok k" and rq: "Q RunQ = Some rq"
    and c: "srch_free_task k = c" "c \<noteq> -1" and en: "20 \<le> card (avail (mm k))"
    and fd: "fds_ok (fs k) (file_descriptors (current k))" and np: "0 \<le> next_pid k" "next_pid k < 2 ^ 31 - 1"
    and pf: "\<forall>p. 0 \<le> p \<and> p < 20 \<longrightarrow> pagusr_table (mm k) (264 + p) = user_pte (pf p) \<and> owned (mm k) (pf p)"
  obtains frames m r h s where
    "sys_fork k = Some (next_pid k, k\<lparr>task := (task k)(c := child_of k frames), lists := h, next_pid := next_pid k + 1,
       fs := s, mm := m\<lparr>ram := r, pagusr_table := (\<lambda>p. if 284 \<le> p \<and> p < 304 then 0 else pagusr_table (mm k) p),
         cr3 := dir_pages_addr (lay k)\<rparr>\<rparr>)"
    and "length frames = 20" and "distinct frames" and "set frames \<subseteq> avail (mm k)"
    and "avail m = avail (mm k) - set frames" and "mm_rest m = mm_rest (mm k)"
    and "\<forall>i x. 0 \<le> i \<and> i < 20 \<and> 0 \<le> x \<and> x < 4096 \<longrightarrow> r (4096 * frames ! nat i + x) = ram (mm k) (4096 * pf i + x)"
    and "\<forall>pa. pa div 4096 \<notin> set frames \<longrightarrow> r pa = ram (mm k) pa"
    and "rings h (Q(RunQ \<mapsto> rq @ [TaskL c]))"
    and "\<forall>v. refs (fdt s v) = refs (fdt (fs k) v) + fd_count 10 (file_descriptors (current k)) v \<and>
      logic_dev (fdt s v) = logic_dev (fdt (fs k) v)"
proof -
  have c': "0 \<le> c" "c < 10" "\<not> live k c" using srch_free_task_cases [of k] c by (auto simp: live_def)
  have cc: "c \<noteq> cur k" using queues_cur [OF q] c'(3) by auto
  have nn: "TaskL c \<notin> nodes Q" by (rule not_live_not_node [OF q c'(3)])
  let ?k1 = "copy_task c k"
  have "rings (lists ?k1) Q"
    by (rule rings_cong [OF queues_rings [OF q]]) (use nn in \<open>auto simp: copy_task_def\<close>)
  then obtain h where h: "list_add_tail (lists ?k1) (TaskL c) RunQ = Some h" "rings h (Q(RunQ \<mapsto> rq @ [TaskL c]))"
    using lh.enq_law [OF _ rq nn] by blast
  have n: "scan 0 20 (\<lambda>i. ph_pages (current ?k1) i \<noteq> -1) = 20"
    using frames_ok_full [OF fo queues_cur [OF q]] cc by (simp add: copy_task_def)
  obtain frames m where fr: "take_frames alloc_frame free_frame 20 [] (mm k) = Some (Some frames, m)"
    "length frames = 20" "distinct frames" "set frames \<subseteq> avail (mm k)" "avail m = avail (mm k) - set frames" "mm_rest m = mm_rest (mm k)"
    using fp.take_frames_enough [OF en, of "[]"] by (metis append_Nil rev.simps(1))
  have mk: "pagusr_table m = pagusr_table (mm k)" "ram m = ram (mm k)"
    using mm_rest_table [OF fr(6)] mm_rest_ram [OF fr(6)] by auto
  let ?k2 = "?k1\<lparr>mm := m\<rparr>"
  have fb: "\<forall>f\<in>set frames. 0 \<le> f \<and> f < 1024" using fr(4) avail_bounds [of _ "mm k"] by fastforce
  have pg: "\<forall>j. 0 \<le> j \<and> j < 20 \<longrightarrow> pagusr_table (mm ?k2) (264 + j) = user_pte (pf j) \<and> 0 \<le> pf j \<and> pf j < 1024 \<and> pf j \<notin> set frames"
    using pf fr(4) mk(1) by (auto simp: owned_def)
  obtain r where r: "for_opt 0 20 (fork_page c frames) ?k2 = Some (upd_task c
      (\<lambda>t. t\<lparr>ph_pages := (\<lambda>i. if 0 \<le> i \<and> i < 20 then frames ! nat i else ph_pages t i)\<rparr>)
      (?k2\<lparr>mm := (mm ?k2)\<lparr>ram := r, pagusr_table := (\<lambda>p. if 284 \<le> p \<and> p < 304 then 0 else pagusr_table (mm ?k2) p)\<rparr>\<rparr>))"
    "\<forall>i x. 0 \<le> i \<and> i < 20 \<and> 0 \<le> x \<and> x < 4096 \<longrightarrow> r (4096 * frames ! nat i + x) = ram (mm ?k2) (4096 * pf i + x)"
    "\<forall>pa. pa div 4096 \<notin> set frames \<longrightarrow> r pa = ram (mm ?k2) pa"
    using fork_pages_ok [OF fr(2,3) fb pg] by blast
  obtain s where s: "for_opt 0 10 (\<lambda>i. share_fd (file_descriptors (current k) i)) (fs k) = Some s"
    "\<forall>v. refs (fdt s v) = refs (fdt (fs k) v) + fd_count 10 (file_descriptors (current k)) v \<and>
      logic_dev (fdt s v) = logic_dev (fdt (fs k) v)"
    using share_fds_ok [OF fd] by blast
  let ?k4 = "with_child k c frames m r"
  let ?k5 = "k\<lparr>task := (task k)(c := child_of k frames), lists := h, next_pid := next_pid k + 1,
       fs := s, mm := m\<lparr>ram := r, pagusr_table := (\<lambda>p. if 284 \<le> p \<and> p < 304 then 0 else pagusr_table (mm k) p),
         cr3 := dir_pages_addr (lay k)\<rparr>\<rparr>"
  note w = with_child_eq [OF cc np mk(1), where frames = frames and r = r]
  have "file_descriptors (task ?k4 c) = file_descriptors (current k)" by (simp add: w(2) child_of_def)
  with s(1) h(1) w(3,4) have tail: "(do {
      s \<leftarrow> for_opt 0 10 (\<lambda>i. share_fd (file_descriptors (task ?k4 c) i)) (fs ?k4);
      k \<leftarrow> lift_lists (\<lambda>h. list_add_tail h (TaskL c) RunQ) (?k4\<lparr>fs := s\<rparr>);
      Some (next_pid k - 1, k) }) = Some (next_pid ?k5 - 1, ?k5)"
    by (simp add: lift_lists_def) (simp add: w(5) flip: w(1))
  have "mm ?k1 = mm k" "lay ?k1 = lay k" by (simp_all add: copy_task_def)
  then have "sys_fork k = Some (next_pid ?k5 - 1, ?k5)"
    using c fr(1) r(1) n tail unfolding sys_fork_def with_child_def by (simp add: Let_def cong: if_cong)
  then have "sys_fork k = Some (next_pid k, ?k5)" by simp
  then show ?thesis
    using that fr(2-6) r(2,3) h(2) s(2) by (simp add: mk)
qed

text \<open>The invariants after a successful fork.\<close>

lemma fork_queues:
  assumes q: "queues k Q" and rq: "Q RunQ = Some rq" and c: "0 \<le> c" "c < 10" "\<not> live k c" and np: "0 < next_pid k"
    and r: "rings h (Q(RunQ \<mapsto> rq @ [TaskL c]))"
    and k': "lists k' = h" "cur k' = cur k" "sem k' = sem k"
      "\<And>i. pid (task k' i) = (if i = c then next_pid k else pid (task k i))"
  shows "queues k' (Q(RunQ \<mapsto> rq @ [TaskL c]))"
proof -
  let ?Q = "Q(RunQ \<mapsto> rq @ [TaskL c])"
  have lv: "{i. live k' i} = insert c {i. live k i}" using c np by (auto simp: live_def k'(4))
  have "members ?Q = insert (TaskL c) (members Q)" using members_add [of Q RunQ rq "TaskL c"] rq by simp
  then have m: "members ?Q = TaskL ` {i. live k' i}" using queues_members [OF q] lv by simp
  have "pid (task k c) \<noteq> 0" using c by (auto simp: live_def)
  then have c0: "c \<noteq> 0" using queues_pid [OF q, of c] c by auto
  obtain rq' where rq': "Q RunQ = Some (TaskL (cur k) # rq')" "TaskL 0 \<in> set (TaskL (cur k) # rq')"
    using q by (rule queues_run) blast
  show ?thesis
    unfolding queues_def m
  proof (intro conjI)
    show "rings (lists k') ?Q" using r k' by simp
    show "dom ?Q = {RunQ, KbdQ} \<union> SemQ ` {n. 0 \<le> n \<and> n < 26 \<and> init (sem k' n) = 1}"
      using queues_dom [OF q] k' by (auto simp: domIff rq)
    show "\<exists>rq. ?Q RunQ = Some (TaskL (cur k') # rq)" "\<exists>rq. ?Q RunQ = Some rq \<and> TaskL 0 \<in> set rq"
      using rq rq' k' by auto
    show "\<forall>i. 0 \<le> i \<and> i < 10 \<longrightarrow> (pid (task k' i) = 0 \<longleftrightarrow> i = 0) \<and> - 1 \<le> pid (task k' i)"
      using queues_pid [OF q] np c0 by (auto simp: k'(4))
    show "\<forall>n xs. ?Q (SemQ n) = Some xs \<and> xs \<noteq> [] \<longrightarrow> count (sem k' n) = 0"
      using queues_count [OF q] k' by auto
  qed simp
qed

lemma fork_frames:
  assumes fo: "frames_ok k" and c: "\<not> live k c" and fr: "length frames = 20" "distinct frames" "set frames \<subseteq> avail (mm k)"
    and lv: "\<And>i. live k' i \<longleftrightarrow> live k i \<or> i = c"
    and ph: "\<And>i p. 0 \<le> p \<Longrightarrow> p < 20 \<Longrightarrow> ph_pages (task k' i) p = (if i = c then frames ! nat p else ph_pages (task k i) p)"
    and ow: "\<And>f. owned (mm k') f \<longleftrightarrow> owned (mm k) f \<or> f \<in> set frames"
  shows "frames_ok k'"
proof -
  have mem: "frames ! nat p \<in> set frames" if "0 \<le> p" "p < 20" for p using that fr(1) by simp
  have inj: "p = q" if "0 \<le> p" "p < 20" "0 \<le> q" "q < 20" "frames ! nat p = frames ! nat q" for p q
    using that fr nth_eq_iff_index_eq [OF fr(2), of "nat p" "nat q"] by simp
  have new: "ph_pages (task k i) p \<notin> set frames" if "live k i" "0 \<le> p" "p < 20" for i p
    using frames_okD [OF fo that] fr(3) by (auto simp: owned_def)
  note old = frames_ok_inj [OF fo]
  have both: "i = j \<and> p = q" if l: "live k' i" "live k' j" and p: "0 \<le> p" "p < 20" and q: "0 \<le> q" "q < 20"
    and e: "ph_pages (task k' i) p = ph_pages (task k' j) q" for i j p q
  proof -
    consider "i = c" "j = c" | "i = c" "j \<noteq> c" | "i \<noteq> c" "j = c" | "i \<noteq> c" "j \<noteq> c" by blast
    then show ?thesis
    proof cases
      case 1
      then show ?thesis using e p q inj [OF p q] by (simp add: ph)
    next
      case 2
      then show ?thesis using e p q l new [of j q] mem [OF p] by (simp add: ph lv)
    next
      case 3
      then show ?thesis using e p q l new [of i p] mem [OF q] by (simp add: ph lv)
    next
      case 4
      then show ?thesis using e p q l old [of i j p q] by (simp add: ph lv)
    qed
  qed
  have "owned (mm k') (ph_pages (task k' i) p)" if "live k' i" "0 \<le> p" "p < 20" for i p
    using that mem [of p] frames_okD [OF fo, of i p] c by (cases "i = c") (auto simp: ph ow lv)
  then show ?thesis by (rule frames_okI) (auto dest: both)
qed

text \<open>The mapping of the parent is untouched, since only pages 284 to 303 were used.\<close>

lemma fork_mapped:
  assumes mo: "mapped_ok k" and ow: "\<And>f. owned (mm k) f \<Longrightarrow> owned (mm k') f"
    and t: "\<And>p. 264 \<le> p \<Longrightarrow> p < 284 \<Longrightarrow> pagusr_table (mm k') p = pagusr_table (mm k) p"
  shows "mapped_ok k'"
  unfolding mapped_ok_def
proof (intro allI impI)
  fix p :: int
  assume "0 \<le> p \<and> p < 20"
  then show "\<exists>f. pagusr_table (mm k') (264 + p) = user_pte f \<and> owned (mm k') f"
    using mo t [of "264 + p"] ow unfolding mapped_ok_def by force
qed

text \<open>No memory for the child: the frames taken are given back and nothing is left of it.\<close>

lemma sys_fork_no_memory:
  assumes q: "queues k Q" and fo: "frames_ok k" and c: "srch_free_task k = c" "c \<noteq> -1" and few: "card (avail (mm k)) < 20"
  obtains k' where "sys_fork k = Some (- EAGAIN, k')" and "mm k' = mm k" and "fs k' = fs k" and "next_pid k' = next_pid k"
    and "cur k' = cur k" and "sem k' = sem k" and "\<not> live k c" and "\<forall>i. pid (task k' i) = pid (task k i)"
    and "\<forall>i. i \<noteq> c \<longrightarrow> task k' i = task k i" and "queues k' Q" and "frames_ok k'" and "lay k' = lay k"
proof -
  have c': "0 \<le> c" "c < 10" "\<not> live k c" using srch_free_task_cases [of k] c by (auto simp: live_def)
  have cc: "c \<noteq> cur k" using queues_cur [OF q] c'(3) by auto
  let ?k1 = "copy_task c k"
  let ?k = "upd_task c (\<lambda>t. t\<lparr>pid := -1\<rparr>) ?k1"
  have n: "scan 0 20 (\<lambda>i. ph_pages (current ?k1) i \<noteq> -1) = 20"
    using frames_ok_full [OF fo queues_cur [OF q]] cc by (simp add: copy_task_def)
  have "take_frames alloc_frame free_frame 20 [] (mm k) = Some (None, mm k)"
    by (rule fp.take_frames_rollback [OF few]) simp
  moreover have "mm ?k1 = mm k" "?k1\<lparr>mm := mm k\<rparr> = ?k1" by (simp_all add: copy_task_def)
  ultimately have e: "sys_fork k = Some (- EAGAIN, ?k)" using c n by (simp add: sys_fork_def Let_def)
  have nn: "TaskL c \<notin> nodes Q" by (rule not_live_not_node [OF q c'(3)])
  have "pid (task k c) = -1" using queues_pid [OF q c'(1,2)] c' by (simp add: live_def)
  then have pd: "pid (task ?k i) = pid (task k i)" for i by (simp add: copy_task_def)
  then have lv: "live ?k = live k" by (simp add: live_def fun_eq_iff)
  have "rings (lists ?k) Q"
    by (rule rings_cong [OF queues_rings [OF q]]) (use nn in \<open>auto simp: copy_task_def\<close>)
  then have "queues ?k Q" using q pd lv by (simp add: queues_def copy_task_def)
  moreover have "frames_ok ?k"
  proof (rule frames_ok_mono [OF fo])
    fix i
    assume "live ?k i"
    then have "live k i" "i \<noteq> c" using lv c'(3) by auto
    then show "live k i" "ph_pages (task ?k i) = ph_pages (task k i)" by (simp_all add: copy_task_def)
  qed (simp add: copy_task_def)
  ultimately show ?thesis using that [OF e] pd c'(3) by (simp add: copy_task_def)
qed

section \<open>Exit\<close>

lemma free_frames_loop:
  assumes "\<And>p. 0 \<le> p \<Longrightarrow> p < 20 \<Longrightarrow> 256 \<le> f p \<and> f p < 1024"
  shows "for_opt 0 20 (\<lambda>i. free_frame (f i)) m =
    Some (m\<lparr>phys_mem := (\<lambda>x. if x \<in> f ` {0..<20} then FREE_FRAME else phys_mem m x)\<rparr>)"
proof -
  let ?I = "\<lambda>j m'. 0 \<le> j \<and> m' = m\<lparr>phys_mem := (\<lambda>x. if x \<in> f ` {0..<j} then FREE_FRAME else phys_mem m x)\<rparr>"
  have "\<exists>m'. for_opt 0 20 (\<lambda>i. free_frame (f i)) m = Some m' \<and> ?I 20 m'"
  proof (rule for_opt_inv [where I = ?I])
    show "?I 0 m" by simp
    fix j u
    assume j: "0 \<le> j" "j < 20" and I: "?I j u"
    have "free_frame (f j) u = Some (u\<lparr>phys_mem := (phys_mem u)(f j := FREE_FRAME)\<rparr>)"
      by (rule free_frame_in) (use assms [OF j] in auto)
    moreover have "{0..<j + 1} = insert j {0..<j}" using j by auto
    ultimately show "\<exists>t'. free_frame (f j) u = Some t' \<and> ?I (j + 1) t'" using I j by (auto simp: fun_eq_iff)
  qed simp
  then show ?thesis by blast
qed

text \<open>The loop over the semaphores: the ones the process owns are destroyed, their waiters woken.\<close>

definition exit_sems :: "kernel \<Rightarrow> kernel option" where
  "exit_sems k = for_opt 0 SEM_MAX_VALUE (\<lambda>i k.
     if owned_sems (current k) i = 1 then map_option snd (sys_sem_destroy i k) else Some k) k"

lemma sem_destroy_any:
  assumes q: "queues k Q" and n: "0 \<le> n" "n < 26" and o: "owned_sems (current k) n = 1" and rq: "Q RunQ = Some rq"
  obtains r k' Q' ws where "sys_sem_destroy n k = Some (r, k')" and "queues k' Q'" and "Q' RunQ = Some (rq @ ws)"
    and "cur k' = cur k" and "mm k' = mm k" and "\<forall>i. pid (task k' i) = pid (task k i) \<and> ph_pages (task k' i) = ph_pages (task k i)"
proof (cases "init (sem k n) = 1")
  case True
  then obtain ws where w: "Q (SemQ n) = Some ws" using queues_sem [OF q n] by blast
  show ?thesis
    using sys_sem_destroy_ok [OF q n True o w rq] that [where ws = ws] by (metis fun_upd_same)
next
  case False
  then have "sys_sem_destroy n k = Some (- EINVAL, k)" using n by (simp add: sys_sem_destroy_def)
  then show ?thesis using that [OF _ q, of _ "[]"] rq by simp
qed

lemma exit_sems_ok:
  assumes q: "queues k Q" and rq: "Q RunQ = Some rq"
  obtains k' Q' ws where "exit_sems k = Some k'" and "queues k' Q'" and "Q' RunQ = Some (rq @ ws)" and "cur k' = cur k"
    and "mm k' = mm k" and "\<forall>i. pid (task k' i) = pid (task k i) \<and> ph_pages (task k' i) = ph_pages (task k i)"
proof -
  let ?I = "\<lambda>(j :: int) k'. \<exists>Q' ws. queues k' Q' \<and> Q' RunQ = Some (rq @ ws) \<and> cur k' = cur k \<and> mm k' = mm k \<and>
    (\<forall>i. pid (task k' i) = pid (task k i) \<and> ph_pages (task k' i) = ph_pages (task k i))"
  have "\<exists>k'. exit_sems k = Some k' \<and> ?I 26 k'"
    unfolding exit_sems_def
  proof (rule for_opt_inv [where I = ?I])
    show "?I 0 k" using q rq by (intro exI [of _ Q] exI [of _ "[]"]) simp
    fix j u
    assume j: "0 \<le> j" "j < 26" and "?I j u"
    then obtain Q1 ws where I: "queues u Q1" "Q1 RunQ = Some (rq @ ws)" "cur u = cur k" "mm u = mm k"
      "\<forall>i. pid (task u i) = pid (task k i) \<and> ph_pages (task u i) = ph_pages (task k i)" by blast
    show "\<exists>t'. (if owned_sems (current u) j = 1 then map_option snd (sys_sem_destroy j u) else Some u) = Some t' \<and> ?I (j + 1) t'"
    proof (cases "owned_sems (current u) j = 1")
      case True
      obtain r k' Q' vs where d: "sys_sem_destroy j u = Some (r, k')" "queues k' Q'" "Q' RunQ = Some ((rq @ ws) @ vs)"
        "cur k' = cur u" "mm k' = mm u" "\<forall>i. pid (task k' i) = pid (task u i) \<and> ph_pages (task k' i) = ph_pages (task u i)"
        using I(1) j True I(2) by (rule sem_destroy_any) blast
      then have "?I (j + 1) k'" using I by (intro exI [of _ Q'] exI [of _ "ws @ vs"]) simp
      with d(1) True show ?thesis by simp
    next
      case False
      then show ?thesis using I by auto
    qed
  qed simp
  then show ?thesis using that by blast
qed

text \<open>The state \<open>sys_exit\<close> hands to the scheduler.\<close>

lemma sys_exit_before_schedule:
  assumes q: "queues k Q" and fo: "frames_ok k" and p: "pid (current k) \<noteq> 0" and rq: "Q RunQ = Some (TaskL (cur k) # rq)"
  obtains k' Q' ws where "sys_exit k = schedule 0 k'" and "left4current k' = 0" and "cur k' = cur k" and "pid (current k') = -1"
    and "rings (lists k') (Q'(RunQ \<mapsto> rq @ ws))" and "Q' RunQ = Some (TaskL (cur k) # rq @ ws)"
    and "\<forall>i. live k' i \<longleftrightarrow> live k i \<and> i \<noteq> cur k"
    and "avail (mm k') = avail (mm k) \<union> ph_pages (current k) ` {0..<20}"
    and "\<forall>i. ph_pages (task k' i) = ph_pages (task k i)"
    and "\<exists>k1. queues k1 Q' \<and> cur k1 = cur k \<and> sem k' = sem k1 \<and> (\<forall>i. i \<noteq> cur k \<longrightarrow> pid (task k' i) = pid (task k1 i)) \<and> (\<forall>i. pid (task k1 i) = pid (task k i))"
proof -
  obtain k1 Q' ws where k1: "exit_sems k = Some k1" "queues k1 Q'" "Q' RunQ = Some ((TaskL (cur k) # rq) @ ws)" "cur k1 = cur k"
    "mm k1 = mm k" "\<forall>i. pid (task k1 i) = pid (task k i) \<and> ph_pages (task k1 i) = ph_pages (task k i)"
    using q rq by (rule exit_sems_ok) blast
  have Q1: "Q' RunQ = Some (TaskL (cur k) # rq @ ws)" using k1(3) by simp
  obtain h where h: "list_del (lists k1) (TaskL (cur k)) = Some h" "rings h (Q'(RunQ \<mapsto> rq @ ws))"
    using lh.del_law [OF queues_rings [OF k1(2)] Q1, of "TaskL (cur k)"] by auto
  let ?f = "ph_pages (current k)"
  have b: "256 \<le> ?f p \<and> ?f p < 1024 \<and> even (?f p)" if "0 \<le> p" "p < 20" for p
    using frames_okD [OF fo queues_cur [OF q] that] by (simp add: owned_def)
  let ?m = "(mm k)\<lparr>phys_mem := (\<lambda>x. if x \<in> ?f ` {0..<20} then FREE_FRAME else phys_mem (mm k) x)\<rparr>"
  have fr: "for_opt 0 20 (\<lambda>i. free_frame (?f i)) (mm k) = Some ?m" by (rule free_frames_loop) (use b in auto)
  let ?k = "(upd_task (cur k) (\<lambda>t. t\<lparr>pid := -1\<rparr>) k1)\<lparr>lists := h, mm := ?m, left4current := 0\<rparr>"
  have "sys_exit k = schedule 0 ?k"
    using p k1 h(1) fr unfolding sys_exit_def exit_sems_def by (simp add: lift_lists_def lift_mm_def)
  moreover have "avail ?m = avail (mm k) \<union> ?f ` {0..<20}" using b by (auto simp: avail_def)
  moreover have "live ?k i \<longleftrightarrow> live k i \<and> i \<noteq> cur k" for i using k1 by (auto simp: live_def)
  moreover have "ph_pages (task ?k i) = ph_pages (task k i)" for i using k1(6) by simp
  moreover have "\<exists>k1. queues k1 Q' \<and> cur k1 = cur k \<and> sem ?k = sem k1 \<and>
      (\<forall>i. i \<noteq> cur k \<longrightarrow> pid (task ?k i) = pid (task k1 i)) \<and> (\<forall>i. pid (task k1 i) = pid (task k i))"
    by (rule exI [of _ k1]) (use k1 in simp)
  ultimately show ?thesis
    using that [of ?k Q' ws] h(2) Q1 k1(4) by simp
qed

lemma exit_members:
  assumes r: "rings h Q" and rq: "Q RunQ = Some (TaskL c # xs)"
  shows "members (Q(RunQ \<mapsto> xs)) = members Q - {TaskL c}"
proof -
  have d: "distinct (TaskL c # xs)" using lh.rep_distinct [OF r rq] by simp
  have "TaskL c \<notin> members (Q(RunQ := None))"
  proof
    assume "TaskL c \<in> members (Q(RunQ := None))"
    then obtain a ys where "Q a = Some ys" "TaskL c \<in> set ys" "a \<noteq> RunQ" by (auto simp: members_def split: if_splits)
    then show False using apart_set [OF lh.rep_apart [OF r] rq, of a ys "TaskL c"] by auto
  qed
  then show ?thesis using members_split [of Q RunQ "TaskL c # xs"] rq d unfolding members_upd by auto
qed

text \<open>The queues when the process at the head of the ready queue, not process 0, has ended and the next one runs.\<close>

lemma exit_queues:
  assumes q: "queues k0 Q" and rq: "Q RunQ = Some (TaskL (cur k0) # TaskL t # xs)" and c: "cur k0 \<noteq> 0"
    and r: "rings (lists k) (Q(RunQ \<mapsto> TaskL t # xs))" and k: "cur k = t" "sem k = sem k0"
    and p: "\<And>i. pid (task k i) = (if i = cur k0 then -1 else pid (task k0 i))"
  shows "queues k (Q(RunQ \<mapsto> TaskL t # xs))"
  unfolding queues_def
proof (intro conjI)
  let ?Q = "Q(RunQ \<mapsto> TaskL t # xs)"
  show "members ?Q = TaskL ` {i. live k i}"
    unfolding exit_members [OF queues_rings [OF q] rq] queues_members [OF q] by (auto simp: live_def p)
  show "dom ?Q = {RunQ, KbdQ} \<union> SemQ ` {n. 0 \<le> n \<and> n < 26 \<and> init (sem k n) = 1}"
    using queues_dom [OF q] k(2) by (auto simp: domIff rq)
  show "\<exists>rq. ?Q RunQ = Some (TaskL (cur k) # rq)" using k(1) by simp
  obtain rs where "Q RunQ = Some (TaskL (cur k0) # rs)" "TaskL 0 \<in> set (TaskL (cur k0) # rs)"
    using q by (rule queues_run) blast
  then show "\<exists>rq. ?Q RunQ = Some rq \<and> TaskL 0 \<in> set rq" using rq c by simp
  show "\<forall>i. 0 \<le> i \<and> i < 10 \<longrightarrow> (pid (task k i) = 0 \<longleftrightarrow> i = 0) \<and> - 1 \<le> pid (task k i)"
    using queues_pid [OF q] c unfolding p by auto
  show "\<forall>n xs. ?Q (SemQ n) = Some xs \<and> xs \<noteq> [] \<longrightarrow> count (sem k n) = 0"
    using queues_count [OF q] k(2) by auto
qed (rule r)

lemma exit_frames:
  assumes fo: "frames_ok k" and c: "live k (cur k)" and lv: "\<And>i. live k' i \<Longrightarrow> live k i \<and> i \<noteq> cur k"
    and av: "avail (mm k') = avail (mm k) \<union> ph_pages (current k) ` {0..<20}" and ph: "\<And>i. ph_pages (task k' i) = ph_pages (task k i)"
  shows "frames_ok k'"
proof (rule frames_ok_mono [OF fo])
  fix i p :: int
  assume l: "live k' i"
  show "live k i" "ph_pages (task k' i) = ph_pages (task k i)" using lv [OF l] ph by auto
  assume b: "0 \<le> p" "p < 20" "owned (mm k) (ph_pages (task k i) p)"
  have "ph_pages (task k i) p \<notin> ph_pages (current k) ` {0..<20}"
    using frames_ok_inj [OF fo _ c b(1,2)] lv [OF l] by force
  with b av show "owned (mm k') (ph_pages (task k i) p)" by (simp add: owned_def)
qed

text \<open>If another process remains besides the one that will run, there is a context switch and the invariants
  hold; else the scheduler sees a single entry and returns to the dead process.\<close>

lemma sys_exit_cases:
  assumes q: "queues k Q" and fo: "frames_ok k" and p: "pid (current k) \<noteq> 0"
    and rq: "Q RunQ = Some (TaskL (cur k) # TaskL t # rq)"
  obtains (switch) k1 Q' where "sys_exit k = Some (Switched, switched t k1)" and "queues (switched t k1) Q'" and "frames_ok k1"
    and "\<forall>i. live k1 i \<longleftrightarrow> live k i \<and> i \<noteq> cur k" and "live k1 t"
    and "avail (mm k1) = avail (mm k) \<union> ph_pages (current k) ` {0..<20}" and "\<forall>i. ph_pages (task k1 i) = ph_pages (task k i)"
    and "\<forall>i. i \<noteq> cur k \<longrightarrow> pid (task k1 i) = pid (task k i)"
  | (stuck) k' where "rq = []" and "sys_exit k = Some (Return (), k')" and "cur k' = cur k" and "\<not> live k' (cur k')"
proof -
  obtain k1 Q' ws k0 where e: "sys_exit k = schedule 0 k1" "left4current k1 = 0" "cur k1 = cur k" "pid (current k1) = -1"
    "rings (lists k1) (Q'(RunQ \<mapsto> (TaskL t # rq) @ ws))" "Q' RunQ = Some (TaskL (cur k) # (TaskL t # rq) @ ws)"
    "\<forall>i. live k1 i \<longleftrightarrow> live k i \<and> i \<noteq> cur k" "avail (mm k1) = avail (mm k) \<union> ph_pages (current k) ` {0..<20}"
    "\<forall>i. ph_pages (task k1 i) = ph_pages (task k i)"
    and k0: "queues k0 Q'" "cur k0 = cur k" "sem k1 = sem k0" "\<forall>i. i \<noteq> cur k \<longrightarrow> pid (task k1 i) = pid (task k0 i)"
    "\<forall>i. pid (task k0 i) = pid (task k i)"
    using q fo p rq by (rule sys_exit_before_schedule) blast
  let ?Q = "Q'(RunQ \<mapsto> (TaskL t # rq) @ ws)"
  let ?k = "switched t (k1\<lparr>it_is_int := 0\<rparr>)"
  show ?thesis
  proof (cases "rq @ ws = []")
    case True
    then have "list_first (lists k1) RunQ = list_last (lists k1) RunQ" using lh.single_iff [OF e(5) fun_upd_same] by simp
    then have "sys_exit k = Some (Return (), upd_task (cur k1) (\<lambda>t. t\<lparr>remaining := quantum t\<rparr>) (k1\<lparr>left4current := quantum (current k1)\<rparr>))"
      using e(1,2) by (simp add: schedule_def Let_def upd_task_def)
    moreover have "\<not> live k1 (cur k1)" using e(4) by (simp add: live_def)
    ultimately show ?thesis using stuck True e(3) by (simp add: live_def)
  next
    case ne: False
    have "list_first (lists k1) RunQ \<noteq> list_last (lists k1) RunQ" using lh.single_iff [OF e(5) fun_upd_same] ne by simp
    moreover have "nxt (lists k1) RunQ = Some (TaskL t)" using lh.front_law [OF e(5) fun_upd_same] by (simp add: list_first_def)
    ultimately have s: "sys_exit k = Some (Switched, ?k)"
      using e(1-4) by (simp add: schedule_def task_switch_eq)
    have c: "live k (cur k)" "cur k \<noteq> 0" using queues_cur [OF q] queues_pid [OF q, of "cur k"] p by (auto simp: live_def)
    have d: "distinct (TaskL (cur k) # (TaskL t # rq) @ ws)" using lh.rep_distinct [OF queues_rings [OF k0(1)] e(6)] by simp
    have t: "live k t" "t \<noteq> cur k" using queues_entry [OF q rq, of "TaskL t"] d by auto
    have pid': "pid (task ?k i) = (if i = cur k then -1 else pid (task k i))" for i using e(3,4) k0(4,5) by simp
    have "queues ?k ?Q"
      using exit_queues [OF k0(1), of t "rq @ ws" ?k] c(2) e(5,6) k0 pid' by simp
    moreover have "frames_ok (k1\<lparr>it_is_int := 0\<rparr>)"
      using fo c(1) e(7-9) by (intro exit_frames [OF fo c(1)]) (auto simp: live_def avail_def)
    moreover have "live (k1\<lparr>it_is_int := 0\<rparr>) t" using t e(7) by (auto simp: live_def)
    moreover have "\<forall>i. live (k1\<lparr>it_is_int := 0\<rparr>) i \<longleftrightarrow> live k i \<and> i \<noteq> cur k" using e(7) by (auto simp: live_def)
    moreover have "\<forall>i. i \<noteq> cur k \<longrightarrow> pid (task (k1\<lparr>it_is_int := 0\<rparr>) i) = pid (task k i)" using k0(4,5) by simp
    ultimately show ?thesis
      using switch [OF s] e(8,9) by (simp add: avail_def)
  qed
qed

text \<open>
  Only task 0 remains: the scheduler finds a single entry and returns, so the dead process keeps
  the processor and its freed frames.
\<close>

lemma sys_exit_stuck:
  assumes q: "queues k Q" and fo: "frames_ok k" and p: "pid (current k) \<noteq> 0" and rq: "Q RunQ = Some [TaskL (cur k), TaskL 0]"
    and own: "\<forall>n. 0 \<le> n \<and> n < 26 \<longrightarrow> owned_sems (current k) n \<noteq> 1"
  obtains k' where "sys_exit k = Some (Return (), k')" and "cur k' = cur k" and "pid (current k') = -1" and "\<not> live k' (cur k')"
    and "ph_pages (current k') ` {0..<20} \<subseteq> avail (mm k')" and "left4current k' = quantum (current k')"
proof -
  have "\<exists>k'. exit_sems k = Some k' \<and> k' = k"
    unfolding exit_sems_def by (rule for_opt_inv) (use own in auto)
  then have s: "exit_sems k = Some k" by simp
  obtain h where h: "list_del (lists k) (TaskL (cur k)) = Some h" "rings h (Q(RunQ \<mapsto> [TaskL 0]))"
    using lh.del_law [OF queues_rings [OF q] rq, of "TaskL (cur k)"] by auto
  let ?f = "ph_pages (current k)"
  have b: "256 \<le> ?f p \<and> ?f p < 1024 \<and> even (?f p)" if "0 \<le> p" "p < 20" for p
    using frames_okD [OF fo queues_cur [OF q] that] by (simp add: owned_def)
  let ?m = "(mm k)\<lparr>phys_mem := (\<lambda>x. if x \<in> ?f ` {0..<20} then FREE_FRAME else phys_mem (mm k) x)\<rparr>"
  have fr: "for_opt 0 20 (\<lambda>i. free_frame (?f i)) (mm k) = Some ?m" by (rule free_frames_loop) (use b in auto)
  let ?k1 = "(upd_task (cur k) (\<lambda>t. t\<lparr>pid := -1\<rparr>) k)\<lparr>lists := h, mm := ?m, left4current := 0\<rparr>"
  let ?k = "upd_task (cur k) (\<lambda>t. t\<lparr>remaining := quantum t\<rparr>) (?k1\<lparr>left4current := quantum (current k)\<rparr>)"
  have "sys_exit k = schedule 0 ?k1"
    using p s h(1) fr unfolding sys_exit_def exit_sems_def by (simp add: lift_lists_def lift_mm_def)
  moreover have "list_first h RunQ = list_last h RunQ" using lh.single_iff [OF h(2) fun_upd_same] by simp
  ultimately have e: "sys_exit k = Some (Return (), ?k)" by (simp add: schedule_def upd_task_def)
  have "?f ` {0..<20} \<subseteq> avail ?m" using b by (auto simp: avail_def)
  then show ?thesis using that [OF e] by (simp add: live_def)
qed

end
