(* ===== verification/Devices.thy ===== *)
theory Devices
  imports Process
begin

text \<open>
  The console and the keyboard of \<open>zeos/devices.c\<close>. Writing to the console goes through a
  kernel buffer in chunks of 256 bytes. The keyboard has a circular buffer of five characters and
  a queue of blocked readers; \<open>copy_from_circ_buffer\<close> maps the pages of a blocked reader behind
  those of the running process to reach its buffer.
\<close>

section \<open>The console\<close>

abbreviation (input) "MAX_WRITE_BLOCK \<equiv> (256 :: int)"

text \<open>Copies from user memory to a kernel array of \<open>n\<close> bytes, and back.\<close>

definition uld_buf :: "mm_buf load" where "uld_buf s a = uld (fst s) a"
definition ust_buf :: "mm_buf store" where "ust_buf s a b = map_option (\<lambda>m. (m, snd s)) (ust (fst s) a b)"

text \<open>A chunk of \<open>n\<close> bytes at \<open>p\<close>: into \<open>k_buffer\<close>, then to the screen.\<close>

definition write_chunk :: "int \<Rightarrow> int \<Rightarrow> kernel \<Rightarrow> kernel option" where
  "write_chunk p n k = do {
     (_, (_, k_buffer)) \<leftarrow> copy_from_user uld_buf (buf_st MAX_WRITE_BLOCK) p 0 n (mm k, \<lambda>_. 0);
     Some (k\<lparr>scr := for_to 0 n (\<lambda>j. printc (k_buffer j)) (scr k)\<rparr>)
   }"

definition sys_write_console :: "int \<Rightarrow> int \<Rightarrow> kernel \<Rightarrow> (int \<times> kernel) option" where
  "sys_write_console buffer n k = do {
     let loop = cdiv n MAX_WRITE_BLOCK;
     let out_block = cmod n MAX_WRITE_BLOCK;
     (return_write, k) \<leftarrow> for_opt 0 loop (\<lambda>i (w, k). do {
        k \<leftarrow> write_chunk (buffer + i * MAX_WRITE_BLOCK) MAX_WRITE_BLOCK k;
        Some (w + MAX_WRITE_BLOCK, k)
      }) (0, k);
     if out_block \<noteq> 0 then do {
       k \<leftarrow> write_chunk (buffer + (n - out_block)) out_block k;
       Some (return_write + out_block, k)
     }
     else Some (return_write, k)
   }"

section \<open>The keyboard\<close>

definition init_keyboard :: "kernel \<Rightarrow> kernel" where
  "init_keyboard k = k\<lparr>kp := 0, kstart := 0, circ_chars := 0\<rparr>"

definition step_circ_buffer :: "kernel \<Rightarrow> kernel" where
  "step_circ_buffer k = k\<lparr>kp := (if kp k = CIRCULAR_SIZE - 1 then 0 else kp k + 1)\<rparr>"

definition block_into_kbd :: "int \<Rightarrow> kernel \<Rightarrow> kernel option" where
  "block_into_kbd t k = do {
     k \<leftarrow> lift_lists (\<lambda>h. list_del h (TaskL t)) k;
     lift_lists (\<lambda>h. list_add_tail h (TaskL t) KbdQ) k
   }"

definition unblock_and_enqueque :: "int \<Rightarrow> kernel \<Rightarrow> kernel option" where
  "unblock_and_enqueque t k = do {
     k \<leftarrow> lift_lists (\<lambda>h. list_del h (TaskL t)) k;
     lift_lists (\<lambda>h. list_add_tail h (TaskL t) RunQ) k
   }"

definition map_behind :: "int arr \<Rightarrow> mm_state \<Rightarrow> mm_state option" where
  "map_behind ph = for_opt 0 NUM_PAG_DATA (\<lambda>i. set_ss_pag (PAG_LOG_INIT_DATA_P0 + NUM_PAG_DATA + i) (ph i))"

text \<open>The local \<open>buff\<close> has \<open>CIRCULAR_SIZE\<close> bytes: a longer copy overruns it.\<close>

definition copy_from_circ_buffer :: "int \<Rightarrow> int \<Rightarrow> kernel \<Rightarrow> kernel option" where
  "copy_from_circ_buffer blocked n k = do {
     k \<leftarrow> lift_mm (map_behind (ph_pages (task k blocked))) k;
     let k = upd_task blocked (\<lambda>t. t\<lparr>t_buffer := t_buffer t + NUM_PAG_DATA * PAGE_SIZE\<rparr>) k;
     buff \<leftarrow> for_opt 0 n (\<lambda>i buff. wr CIRCULAR_SIZE buff i (circular k (cmod (kstart k + i) CIRCULAR_SIZE))) (\<lambda>_. 0);
     (_, (m, _)) \<leftarrow> copy_to_user (buf_ld CIRCULAR_SIZE) ust_buf 0 (t_buffer (task k blocked)) n (mm k, buff);
     let k = k\<lparr>mm := m\<rparr>;
     k \<leftarrow> lift_mm (map_behind (ph_pages (current k))) k;
     let k = k\<lparr>mm := set_cr3 (dir_pages_addr (lay k)) (mm k)\<rparr>;
     Some (upd_task blocked (\<lambda>t. t\<lparr>t_buffer := t_buffer t - NUM_PAG_DATA * PAGE_SIZE\<rparr>) k)
   }"

definition sys_read_keyboard :: "int \<Rightarrow> kernel \<Rightarrow> int routine_result" where
  "sys_read_keyboard n k = do {
     let proc = cur k;
     let k = upd_task proc (\<lambda>t. t\<lparr>pending_chars := (if n > circ_chars k then n - circ_chars k else 0)\<rparr>) k;
     if pending_chars (task k proc) \<le> 0 \<and> list_empty (lists k) KbdQ then do {
       k \<leftarrow> copy_from_circ_buffer proc n k;
       Some (Return n, k\<lparr>circ_chars := circ_chars k - n, kstart := cmod (kstart k + n) CIRCULAR_SIZE\<rparr>)
     }
     else if pid (task k proc) \<noteq> 0 then do {
       k \<leftarrow> block_into_kbd proc (k\<lparr>kstart := kp k\<rparr>);
       let k = upd_task proc (\<lambda>t. t\<lparr>t_size := n\<rparr>) k;
       let k = upd_task proc (set_eax n) k;
       next_proc \<leftarrow> list_head_to_task_struct (nxt (lists k) RunQ);
       k \<leftarrow> task_switch next_proc (k\<lparr>it_is_int := 0\<rparr>);
       Some (Switched, k)
     }
     else Some (Return (- EPERM), k)
   }"

section \<open>What the console shows\<close>

lemma load_list_Some_iff:
  "load_list ld s p n = Some bs \<longleftrightarrow> length bs = n \<and> (\<forall>i<n. ld s (p + int i) = Some (bs ! i))"
proof (induction n arbitrary: p bs)
  case (Suc n)
  show ?case
  proof (cases bs)
    case (Cons b cs)
    have "load_list ld s p (Suc n) = Some bs \<longleftrightarrow> ld s p = Some b \<and> load_list ld s (p + 1) n = Some cs"
      by (auto simp: Cons bind_eq_Some_conv)
    also have "\<dots> \<longleftrightarrow> length bs = Suc n \<and> (\<forall>i<Suc n. ld s (p + int i) = Some (bs ! i))"
      unfolding Suc.IH Cons All_less_Suc2 by (auto simp: ac_simps)
    finally show ?thesis .
  qed (auto simp: bind_eq_Some_conv)
qed auto

lemma load_list_part: "load_list ld s p n = Some bs \<Longrightarrow> a + m \<le> n \<Longrightarrow>
    load_list ld s (p + int a) m = Some (take m (drop a bs))"
proof -
  assume l: "load_list ld s p n = Some bs" and am: "a + m \<le> n"
  then have n: "length bs = n" and at: "\<And>i. i < n \<Longrightarrow> ld s (p + int i) = Some (bs ! i)" by (auto simp: load_list_Some_iff)
  have "ld s (p + int a + int i) = Some (bs ! (a + i))" if "i < m" for i
    using at [of "a + i"] that am by (simp add: add.assoc)
  then show ?thesis using n am by (simp add: load_list_Some_iff)
qed

definition con_ok :: "int \<Rightarrow> mm_buf \<Rightarrow> int set \<Rightarrow> int set \<Rightarrow> bool" where
  "con_ok n s S D \<longleftrightarrow> (\<forall>a\<in>S. uld (fst s) a \<noteq> None) \<and> D \<subseteq> {0..<n}"

interpretation con: byte_copy uld_buf "buf_st n" "con_ok n" for n
  by unfold_locales (auto simp: uld_buf_def buf_st_def con_ok_def dest!: wr_SomeD subsetD)

lemma store_list_buf:
  "0 \<le> q \<Longrightarrow> q + int (length bs) \<le> n \<Longrightarrow> store_list (buf_st n) q bs (m, buf) =
     Some (m, \<lambda>i. if q \<le> i \<and> i < q + int (length bs) then bs ! nat (i - q) else buf i)"
proof (induction bs arbitrary: q buf)
  case Nil
  have "(\<lambda>i. if q \<le> i \<and> i < q + int (length []) then [] ! nat (i - q) else buf i) = buf" by (rule ext) auto
  then show ?case unfolding store_list.simps by simp
next
  case (Cons b bs)
  have "nat (i - q) = Suc (nat (i - (q + 1)))" if "q < i" for i using that by simp
  then have "(\<lambda>i. if q + 1 \<le> i \<and> i < q + 1 + int (length bs) then bs ! nat (i - (q + 1)) else (buf(q := b)) i) =
    (\<lambda>i. if q \<le> i \<and> i < q + int (length (b # bs)) then (b # bs) ! nat (i - q) else buf i)"
    by (auto simp: fun_eq_iff)
  moreover have "buf_st n (m, buf) q b = Some (m, buf(q := b))" using Cons.prems by (simp add: buf_st_def)
  moreover have "store_list (buf_st n) (q + 1) bs (m, buf(q := b)) =
      Some (m, \<lambda>i. if q + 1 \<le> i \<and> i < q + 1 + int (length bs) then bs ! nat (i - (q + 1)) else (buf(q := b)) i)"
    by (rule Cons.IH) (use Cons.prems in auto)
  ultimately show ?case by (simp only: store_list.simps Option.bind.bind_lunit)
qed

lemma for_to_print: "for_to 0 (int n) (\<lambda>j. printc (f j)) s = fold printc (map f [0..int n - 1]) s"
proof -
  have "for_to 0 (int n) (\<lambda>j. printc (f j)) s = fold printc (map f [0..int n - 1]) s"
  proof (rule for_to_inv [where I = "\<lambda>j t. t = fold printc (map f [0..j - 1]) s"])
    fix j t
    assume "0 \<le> j" "t = fold printc (map f [0..j - 1]) s"
    then show "printc (f j) t = fold printc (map f [0..j + 1 - 1]) s" by (simp add: upto_rec2)
  qed simp_all
  then show ?thesis .
qed

lemma write_chunk_ok:
  assumes l: "load_list uld (mm k) p n = Some bs" and n: "n \<le> 256"
  shows "write_chunk p (int n) k = Some (k\<lparr>scr := fold printc bs (scr k)\<rparr>)"
proof -
  have len: "length bs = n" and at: "\<And>i. i < n \<Longrightarrow> uld (mm k) (p + int i) = Some (bs ! i)"
    using l by (auto simp: load_list_Some_iff)
  have "uld (mm k) a \<noteq> None" if "a \<in> {p..<p + int n}" for a
    using at [of "nat (a - p)"] that by auto
  then have ok: "con_ok 256 (mm k, \<lambda>_. 0) {p..<p + int n} {0..<0 + int n}" using n by (auto simp: con_ok_def)
  have "load_list uld_buf (mm k, \<lambda>_. 0) p n = Some bs"
    using l by (simp add: load_list_Some_iff uld_buf_def)
  moreover obtain cs t where "load_list uld_buf (mm k, \<lambda>_. 0) p (nat (int n)) = Some cs"
    "store_list (buf_st 256) 0 cs (mm k, \<lambda>_. 0) = Some t" "copy_data uld_buf (buf_st 256) p 0 (int n) (mm k, \<lambda>_. 0) = Some t"
    by (rule con.copy_data_store [OF ok, of p "int n" 0]) auto
  ultimately have "copy_from_user uld_buf (buf_st 256) p 0 (int n) (mm k, \<lambda>_. 0) =
      Some (0, mm k, \<lambda>i. if 0 \<le> i \<and> i < int n then bs ! nat i else 0)"
    using store_list_buf [of 0 bs 256 "mm k" "\<lambda>_. 0"] len n by (simp add: copy_from_user_data cong: if_cong)
  moreover have "map (\<lambda>i. if 0 \<le> i \<and> i < int n then bs ! nat i else 0) [0..int n - 1] = bs"
    by (rule nth_equalityI) (auto simp: len nth_upto)
  ultimately show ?thesis by (simp add: write_chunk_def for_to_print)
qed

text \<open>A write shows exactly the bytes of the buffer, in order, whatever its size.\<close>

lemma sys_write_console_ok:
  assumes l: "load_list uld (mm k) buffer n = Some bs"
  shows "sys_write_console buffer (int n) k = Some (int n, k\<lparr>scr := fold printc bs (scr k)\<rparr>)"
proof -
  let ?q = "n div 256" and ?r = "n mod 256"
  have len: "length bs = n" using l by (simp add: load_list_Some_iff)
  let ?I = "\<lambda>j (w, k'). 0 \<le> j \<and> w = 256 * j \<and> k' = k\<lparr>scr := fold printc (take (256 * nat j) bs) (scr k)\<rparr>"
  let ?body = "\<lambda>i (w, k). Option.bind (write_chunk (buffer + i * 256) 256 k) (\<lambda>k. Some (w + 256, k))"
  have "\<exists>t. for_opt 0 (int ?q) ?body (0, k) = Some t \<and> ?I (int ?q) t"
  proof (rule for_opt_inv [where I = ?I])
    show "?I 0 (0, k)" by simp
    fix j t
    assume j: "0 \<le> j" "j < int ?q" and "?I j t"
    then have t: "t = (256 * j, k\<lparr>scr := fold printc (take (256 * nat j) bs) (scr k)\<rparr>)" by (cases t) auto
    have "256 * nat j + 256 \<le> n" using j by linarith
    from load_list_part [OF l this] have "load_list uld (mm k) (buffer + j * 256) 256 = Some (take 256 (drop (256 * nat j) bs))"
      using j by (simp add: mult.commute)
    then have "write_chunk (buffer + j * 256) 256 (snd t) =
        Some (k\<lparr>scr := fold printc (take 256 (drop (256 * nat j) bs)) (fold printc (take (256 * nat j) bs) (scr k))\<rparr>)"
      using write_chunk_ok [of "snd t" "buffer + j * 256" 256 "take 256 (drop (256 * nat j) bs)"] t by simp
    moreover have "take (256 * nat (j + 1)) bs = take (256 * nat j) bs @ take 256 (drop (256 * nat j) bs)"
    proof -
      have "256 * nat (j + 1) = 256 * nat j + 256" using j by simp
      then show ?thesis by (simp only: take_add)
    qed
    ultimately show "\<exists>t'. ?body j t = Some t' \<and> ?I (j + 1) t'" using t j by simp
  qed simp
  then have loop: "for_opt 0 (int ?q) ?body (0, k) = Some (256 * int ?q, k\<lparr>scr := fold printc (take (256 * ?q) bs) (scr k)\<rparr>)"
    by auto
  have qr: "cdiv (int n) 256 = int ?q" "cmod (int n) 256 = int ?r" by (simp_all add: zdiv_int zmod_int)
  have n2: "256 * ?q + ?r = n" by simp
  then have n3: "256 * int ?q + int ?r = int n" by (metis of_nat_add of_nat_mult of_nat_numeral)
  then have nqr: "int n - int ?r = 256 * int ?q" "256 * ?q + ?r = n" "256 * int ?q + int ?r = int n" using n2 by linarith+
  show ?thesis
  proof (cases "?r = 0")
    case True
    then have "256 * ?q = n" using nqr(2) by simp
    then show ?thesis
      using loop True nqr len unfolding sys_write_console_def qr by (simp add: case_prod_beta' flip: of_nat_mult)
  next
    case False
    have "load_list uld (mm k) (buffer + int (256 * ?q)) ?r = Some (take ?r (drop (256 * ?q) bs))"
      by (rule load_list_part [OF l]) (simp add: nqr)
    then have "write_chunk (buffer + 256 * int ?q) (int ?r) (k\<lparr>scr := fold printc (take (256 * ?q) bs) (scr k)\<rparr>) =
      Some (k\<lparr>scr := fold printc (take ?r (drop (256 * ?q) bs)) (fold printc (take (256 * ?q) bs) (scr k))\<rparr>)"
      using write_chunk_ok [of "k\<lparr>scr := fold printc (take (256 * ?q) bs) (scr k)\<rparr>" "buffer + 256 * int ?q" ?r] by simp
    moreover have "take (256 * ?q) bs @ take ?r (drop (256 * ?q) bs) = bs" using nqr(2) len by (metis take_add take_all order_refl)
    then have "fold printc (take ?r (drop (256 * ?q) bs)) (fold printc (take (256 * ?q) bs) (scr k)) = fold printc bs (scr k)"
      by (metis fold_append comp_apply)
    ultimately show ?thesis
      using loop False nqr(3) unfolding sys_write_console_def qr by (simp add: case_prod_beta' Let_def nqr(1))
  qed
qed

section \<open>Delivering characters to a process\<close>

text \<open>The physical address of an address in the data pages of a process.\<close>

definition proc_addr :: "task_struct \<Rightarrow> int \<Rightarrow> int" where
  "proc_addr t va = 4096 * ph_pages t (va div 4096 - 264) + va mod 4096"

lemma proc_addr_inj:
  assumes fo: "frames_ok k" "live k b" and u: "1081344 \<le> u" "u < 1163264" and v: "1081344 \<le> v" "v < 1163264"
    and e: "proc_addr (task k b) u = proc_addr (task k b) v"
  shows "u = v"
proof -
  let ?p = "u div 4096 - 264" and ?q = "v div 4096 - 264"
  have b: "0 \<le> ?p" "?p < 20" "0 \<le> ?q" "?q < 20" using u v by auto
  have m: "0 \<le> u mod 4096" "u mod 4096 < 4096" "0 \<le> v mod 4096" "v mod 4096 < 4096" by simp_all
  have "proc_addr (task k b) u div 4096 = ph_pages (task k b) ?p" "proc_addr (task k b) u mod 4096 = u mod 4096"
    "proc_addr (task k b) v div 4096 = ph_pages (task k b) ?q" "proc_addr (task k b) v mod 4096 = v mod 4096"
    using m by (simp_all add: proc_addr_def)
  with e have "ph_pages (task k b) ?p = ph_pages (task k b) ?q" "u mod 4096 = v mod 4096" by auto
  then have "u div 4096 = v div 4096" "u mod 4096 = v mod 4096"
    using frames_ok_inj [OF fo fo(2) b] by auto
  then show ?thesis by (metis div_mult_mod_eq)
qed

lemma map_behind_eq:
  "map_behind ph m = Some (m\<lparr>pagusr_table := (\<lambda>pg. if 284 \<le> pg \<and> pg < 304 then user_pte (ph (pg - 284)) else pagusr_table m pg)\<rparr>)"
  unfolding map_behind_def using set_ss_pag_range [of 284 20 ph m] by simp

definition kb_ok :: "int \<Rightarrow> mm_buf \<Rightarrow> int set \<Rightarrow> int set \<Rightarrow> bool" where
  "kb_ok n s S D \<longleftrightarrow> S \<subseteq> {0..<n} \<and> (\<forall>a\<in>D. L_USER_START \<le> a \<and> translate (fst s) a \<noteq> None)"

interpretation kb: byte_copy "buf_ld n" ust_buf "kb_ok n" for n
  by unfold_locales (auto simp: buf_ld_def ust_buf_def kb_ok_def ust_def vwrite_def dest!: subsetD split: if_splits)

lemma store_list_ust_buf:
  "L_USER_START \<le> q \<Longrightarrow> store_list ust_buf q bs (m, buf) = map_option (\<lambda>m. (m, buf)) (store_list vwrite q bs m)"
proof (induction bs arbitrary: q m)
  case (Cons b bs)
  then show ?case by (cases "vwrite m q b") (simp_all add: ust_buf_def ust_def)
qed simp

text \<open>The local array of \<open>copy_from_circ_buffer\<close>.\<close>

lemma fill_buff:
  assumes "0 \<le> n" "n \<le> 5"
  shows "for_opt 0 n (\<lambda>i buff. wr 5 buff i (g i)) (\<lambda>_. 0) = Some (\<lambda>i. if 0 \<le> i \<and> i < n then g i else (0 :: 8 word))"
proof -
  let ?I = "\<lambda>j b. 0 \<le> j \<and> b = (\<lambda>i. if 0 \<le> i \<and> i < j then g i else 0)"
  have "\<exists>t. for_opt 0 n (\<lambda>i buff. wr 5 buff i (g i)) (\<lambda>_. 0) = Some t \<and> ?I n t"
  proof (rule for_opt_inv [where I = ?I])
    fix j t
    assume "0 \<le> j" "j < n" "?I j t"
    then have "wr 5 t j (g j) = Some (t(j := g j))" "t(j := g j) = (\<lambda>i. if 0 \<le> i \<and> i < j + 1 then g i else 0)"
      using assms by (auto simp: wr_in fun_eq_iff)
    then show "\<exists>t'. wr 5 t j (g j) = Some t' \<and> ?I (j + 1) t'" using \<open>0 \<le> j\<close> by (intro exI [of _ "t(j := g j)"]) simp
  qed (use assms in \<open>auto simp: fun_eq_iff\<close>)
  then show ?thesis by blast
qed

text \<open>The pages of a process are reachable behind those of the running one, at distinct places.\<close>

lemma translate_behind:
  assumes fo: "frames_ok k" "live k b" and v: "1081344 \<le> v" "v < 1163264"
  shows "translate (m\<lparr>pagusr_table := (\<lambda>pg. if 284 \<le> pg \<and> pg < 304 then user_pte (ph_pages (task k b) (pg - 284)) else pagusr_table m pg)\<rparr>) (v + 81920) =
    Some (proc_addr (task k b) v)" (is "translate ?m1 _ = _")
proof -
  let ?p = "v div 4096 - 264"
  have p: "0 \<le> ?p" "?p < 20" using v by auto
  note ob = owned_bounds [OF frames_okD [OF fo p]]
  have "translate ?m1 (4096 * (284 + ?p) + v mod 4096) = Some (4096 * ph_pages (task k b) ?p + v mod 4096)"
    by (rule translate_page) (use p ob in auto)
  moreover have "4096 * (284 + (d - 264)) + m = w + 81920" if "4096 * d + m = w" for d m w :: int using that by simp
  from this [OF mult_div_mod_eq] have "4096 * (284 + ?p) + v mod 4096 = v + 81920" .
  ultimately show ?thesis unfolding proc_addr_def by metis
qed

lemma proc_addr_inj_on:
  assumes fo: "frames_ok k" "live k b" and u: "1081344 \<le> u" "u + n \<le> 1163264"
  shows "inj_on (\<lambda>i. proc_addr (task k b) (u + int i)) {..<nat n}"
proof (rule inj_onI)
  fix x y
  assume x: "x \<in> {..<nat n}" and y: "y \<in> {..<nat n}" and e: "proc_addr (task k b) (u + int x) = proc_addr (task k b) (u + int y)"
  have "u + int x < 1163264" "u + int y < 1163264" using x y u by auto
  then have "u + int x = u + int y" using u(1) by (intro proc_addr_inj [OF fo _ _ _ _ e]) linarith+
  then show "x = y" by simp
qed

lemma copy_from_circ_buffer_ok:
  assumes fo: "frames_ok k" "live k b" and n: "0 \<le> n" "n \<le> 5" and s: "0 \<le> kstart k"
    and u: "1081344 \<le> t_buffer (task k b)" "t_buffer (task k b) + n \<le> 1163264"
  shows "\<exists>r t. copy_from_circ_buffer b n k = Some (k\<lparr>mm := (mm k)\<lparr>ram := r, pagusr_table := t, cr3 := dir_pages_addr (lay k)\<rparr>\<rparr>) \<and>
    (\<forall>i. 0 \<le> i \<and> i < n \<longrightarrow> r (proc_addr (task k b) (t_buffer (task k b) + i)) = circular k ((kstart k + i) mod 5)) \<and>
    (\<forall>pa. pa \<notin> (\<lambda>i. proc_addr (task k b) (t_buffer (task k b) + i)) ` {0..<n} \<longrightarrow> r pa = ram (mm k) pa) \<and>
    (\<forall>p. p < 284 \<longrightarrow> t p = pagusr_table (mm k) p)"
proof -
  let ?t = "task k b" and ?q = "t_buffer (task k b) + 81920"
  let ?m1 = "(mm k)\<lparr>pagusr_table := (\<lambda>pg. if 284 \<le> pg \<and> pg < 304 then user_pte (ph_pages ?t (pg - 284)) else pagusr_table (mm k) pg)\<rparr>"
  let ?buff = "\<lambda>i. if 0 \<le> i \<and> i < n then circular k (cmod (kstart k + i) 5) else 0"
  let ?a = "\<lambda>i. proc_addr ?t (t_buffer ?t + int i)"
  have tr: "translate ?m1 (?q + int i) = Some (?a i)" if "i < nat n" for i
    using translate_behind [OF fo, of "t_buffer ?t + int i" "mm k"] that u n by (simp add: ac_simps)
  have inj: "inj_on ?a {..<nat n}" using proc_addr_inj_on [OF fo u] .
  let ?bs = "map ?buff [0..n - 1]"
  have ok: "kb_ok 5 (?m1, ?buff) {0..<n} {?q..<?q + n}"
    unfolding kb_ok_def
  proof (intro conjI ballI)
    show "{0..<n} \<subseteq> {0..<5}" using n by auto
    fix a
    assume a: "a \<in> {?q..<?q + n}"
    then show "1048576 \<le> a" using u by simp
    show "translate (fst (?m1, ?buff)) a \<noteq> None" using tr [of "nat (a - ?q)"] a by simp
  qed
  have l: "load_list (buf_ld 5) (?m1, ?buff) 0 (nat n) = Some ?bs"
    using n by (auto simp: load_list_Some_iff buf_ld_def nth_upto)
  obtain cs t where c: "load_list (buf_ld 5) (?m1, ?buff) 0 (nat n) = Some cs" "store_list ust_buf ?q cs (?m1, ?buff) = Some t"
    "copy_data (buf_ld 5) ust_buf 0 ?q n (?m1, ?buff) = Some t"
    by (rule kb.copy_data_store [OF ok, of 0 n ?q]) auto
  have lb: "length ?bs = nat n" by simp
  obtain r where r: "store_list vwrite ?q ?bs ?m1 = Some (?m1\<lparr>ram := r\<rparr>)" "\<forall>i<nat n. r (?a i) = ?bs ! i"
    "\<forall>pa. pa \<notin> ?a ` {..<nat n} \<longrightarrow> r pa = ram ?m1 pa"
    using store_list_inj [of ?bs ?m1 ?q ?a] tr inj unfolding lb by blast
  have cu: "copy_to_user (buf_ld 5) ust_buf 0 ?q n (?m1, ?buff) = Some (0, ?m1\<lparr>ram := r\<rparr>, ?buff)"
    using c l r(1) store_list_ust_buf [of ?q ?bs ?m1 ?buff] u by (simp add: copy_to_user_data)
  let ?T = "\<lambda>pg. if 284 \<le> pg \<and> pg < 304 then user_pte (ph_pages (current k) (pg - 284)) else pagusr_table (mm k) pg"
  have ph: "ph_pages (if cur k = b then ?t\<lparr>t_buffer := x\<rparr> else current k) = ph_pages (current k)" for x by auto
  have "copy_from_circ_buffer b n k = Some (k\<lparr>mm := (mm k)\<lparr>ram := r, pagusr_table := ?T, cr3 := dir_pages_addr (lay k)\<rparr>\<rparr>)"
    using cu by (simp add: copy_from_circ_buffer_def lift_mm_def map_behind_eq fill_buff [OF n] upd_task_def set_cr3_def ph Let_def
        cong: if_cong)
  moreover have "r (proc_addr ?t (t_buffer ?t + i)) = circular k ((kstart k + i) mod 5)" if "0 \<le> i" "i < n" for i
    using r(2) [rule_format, of "nat i"] that s by (simp add: nth_upto)
  moreover have "(\<lambda>i. proc_addr ?t (t_buffer ?t + i)) ` {0..<n} = ?a ` {..<nat n}"
  proof -
    have "{0..<n} = int ` {..<nat n}" using n by (simp add: lessThan_atLeast0 image_int_atLeastLessThan)
    then show ?thesis by (simp only: image_image)
  qed
  then have "r pa = ram (mm k) pa" if "pa \<notin> (\<lambda>i. proc_addr ?t (t_buffer ?t + i)) ` {0..<n}" for pa using that r(3) by simp
  moreover have "?T p = pagusr_table (mm k) p" if "p < 284" for p using that by simp
  ultimately show ?thesis by blast
qed

end
