(* ===== verification/FileSys.thy ===== *)
theory FileSys
  imports Devices
begin

text \<open>
  The file system calls of \<open>zeos/sys.c\<close>: \<open>sys_write\<close>, \<open>sys_open\<close>, \<open>sys_read\<close>, \<open>sys_dup\<close>,
  \<open>sys_close\<close> and \<open>sys_unlink\<close>. They check their arguments, go from a file descriptor of the
  running process to an entry of \<open>fdt\<close> and from there to a directory entry, and call the device
  routine found in \<open>ops\<close>. A path is read from user memory. \<open>None\<close> is undefined behaviour of the
  C code: a null or wild pointer dereference, or a page fault of the kernel.
\<close>

section \<open>Calling a device routine\<close>

definition call_write :: "routine \<Rightarrow> int \<Rightarrow> int \<Rightarrow> int \<Rightarrow> int \<Rightarrow> kernel \<Rightarrow> (int \<times> kernel) option" where
  "call_write r vi di buffer n k = (case r of
       F_sys_write_console \<Rightarrow> sys_write_console buffer n k
     | F_sys_write_file \<Rightarrow> lift_fs (sys_write_file (uld (mm k)) vi di buffer n) k
     | _ \<Rightarrow> None)"

definition call_read :: "routine \<Rightarrow> int \<Rightarrow> int \<Rightarrow> int \<Rightarrow> int \<Rightarrow> kernel \<Rightarrow> int routine_result" where
  "call_read r vi di buffer n k = (case r of
       F_sys_read_keyboard \<Rightarrow> sys_read_keyboard n k
     | F_sys_read_file \<Rightarrow> do {
         (v, s, m) \<leftarrow> sys_read_file vi di buffer n (fs k, mm k);
         Some (Return v, k\<lparr>fs := s, mm := m\<rparr>)
       }
     | _ \<Rightarrow> None)"

definition call_release :: "routine \<Rightarrow> int \<Rightarrow> fs_state \<Rightarrow> fs_state option" where
  "call_release r entry s = (case r of
       F_sys_release_file \<Rightarrow> map_option snd (sys_release_file entry s)
     | _ \<Rightarrow> None)"

section \<open>The system calls\<close>

text \<open>\<open>open_file->logic_dev->operations\<close>.\<close>

definition dev_of :: "fs_state \<Rightarrow> int \<Rightarrow> (int \<times> file_operations) option" where
  "dev_of s vi = do {
     di \<leftarrow> logic_dev (fdt s vi);
     op \<leftarrow> operations (dir s di);
     Some (di, ops s op)
   }"

definition sys_write :: "int \<Rightarrow> int \<Rightarrow> int \<Rightarrow> kernel \<Rightarrow> (int \<times> kernel) option" where
  "sys_write fd buffer n k =
     (if fd < 0 \<or> fd \<ge> MAX_FDS then Some (- EBADF, k)
      else case file_descriptors (current k) fd of
        None \<Rightarrow> Some (- EBADF, k)
      | Some vi \<Rightarrow>
          if n > NUM_PAG_DATA * PAGE_SIZE - KERNEL_STACK_SIZE then Some (- EFBIG, k)
          else if n < 0 then Some (- EINVAL, k)
          else if access_mode (fdt (fs k) vi) = O_RDONLY then Some (- EBADF, k)
          else do {
            ok \<leftarrow> access_ok (mm k) (arg_loc (lay k) (cur k)) 1 buffer n;
            if ok < 1 then Some (- EFAULT, k)
            else do {
              (di, op) \<leftarrow> dev_of (fs k) vi;
              case sys_write_dev op of
                Some r \<Rightarrow> call_write r vi di buffer n k
              | None \<Rightarrow> Some (- EINVAL, k)
            }
          })"

text \<open>The search of the directory: the names are compared until one is equal to the path.\<close>

definition name_ld :: "8 word arr \<Rightarrow> int \<Rightarrow> 8 word option" where
  "name_ld n a = rd MAX_NAME_LENGTH n a"

function dir_find :: "(int \<Rightarrow> 8 word option) \<Rightarrow> int \<Rightarrow> fs_state \<Rightarrow> int \<Rightarrow> int option" where
  "dir_find ld path s i =
     (if i < MAX_FILES
      then Option.bind (strcmp (name_ld (name (dir s i))) ld 0 path)
        (\<lambda>c. if c \<noteq> 0 then dir_find ld path s (i + 1) else Some i)
      else Some i)"
  by pat_completeness auto
termination
  by (relation "measure (\<lambda>(ld, path, s, i). nat (MAX_FILES - i))") auto

declare dir_find.simps [simp del]

text \<open>
  The file to open: \<open>Inl\<close> is an error return, \<open>Inr (file, flags)\<close> the directory entry and the
  remaining flags. An error of \<open>create_file\<close> is a negative number cast to a pointer; the test
  \<open>file < 0\<close> compares pointers and never holds, so the error is dereferenced.
\<close>

definition open_lookup :: "(int \<Rightarrow> 8 word option) \<Rightarrow> int \<Rightarrow> int \<Rightarrow> fs_state \<Rightarrow> ((int + int \<times> int) \<times> fs_state) option" where
  "open_lookup ld path flags s = do {
     file_entry \<leftarrow> dir_find ld path s 0;
     if file_entry = MAX_FILES then
       if flags < O_CREAT then Some (Inl (- ENOENT), s)
       else do {
         (r, s) \<leftarrow> create_file ld path s;
         case r of
           Inl e \<Rightarrow> None
         | Inr i \<Rightarrow> let flags = (if flags \<ge> O_EXCL then flags - O_EXCL else flags)
             in Some (Inr (i, flags - O_CREAT), s)
       }
     else if flags \<ge> O_EXCL + O_CREAT then Some (Inl (- EEXIST), s)
     else Some (Inr (file_entry, if flags \<ge> O_CREAT then flags - O_CREAT else flags), s)
   }"

text \<open>No device installs a \<open>sys_open_dev\<close> or a \<open>sys_close_dev\<close>: a call through one is undefined.\<close>

definition sys_open :: "int \<Rightarrow> int \<Rightarrow> kernel \<Rightarrow> (int \<times> kernel) option" where
  "sys_open path flags k =
     (if check_address path 1 = 0 then Some (- EFAULT, k)
      else if path = 0 then Some (- EFAULT, k)
      else do {
        l \<leftarrow> strlen (uld (mm k)) path;
        if l > MAX_NAME_LENGTH then Some (- ENAMETOOLONG, k)
        else
          let fdt_entry = scan 0 MAX_OPEN_FILES (\<lambda>i. refs (fdt (fs k) i) > 0);
              fd = scan 0 MAX_FDS (\<lambda>i. file_descriptors (current k) i \<noteq> None)
          in if fdt_entry = MAX_OPEN_FILES then Some (- ENFILE, k)
             else if fd = MAX_FDS then Some (- EMFILE, k)
             else if flags < 0 \<or> flags > 15 then Some (- EINVAL, k)
             else do {
               (r, s) \<leftarrow> open_lookup (uld (mm k)) path flags (fs k);
               let k = k\<lparr>fs := s\<rparr>;
               case r of
                 Inl e \<Rightarrow> Some (e, k)
               | Inr (file, flags) \<Rightarrow> do {
                   op \<leftarrow> operations (dir s file);
                   if sys_open_dev (ops s op) \<noteq> None then None
                   else if access_mode_allow (dir s file) \<noteq> O_RDWR \<and> flags \<noteq> access_mode_allow (dir s file)
                   then Some (- EACCES, k)
                   else
                     let s = s\<lparr>fdt := (fdt s)(fdt_entry := \<lparr>access_mode = flags, refs = 1, voffset = 0, logic_dev = Some file\<rparr>),
                               dir := (dir s)(file := (dir s file)\<lparr>n_refs := n_refs (dir s file) + 1\<rparr>)\<rparr>
                     in Some (fd, upd_task (cur k) (\<lambda>t. t\<lparr>file_descriptors := (file_descriptors t)(fd := Some fdt_entry)\<rparr>)
                          (k\<lparr>fs := s\<rparr>))
                 }
             }
      })"

definition sys_read :: "int \<Rightarrow> int \<Rightarrow> int \<Rightarrow> kernel \<Rightarrow> int routine_result" where
  "sys_read fd buffer n k =
     (if fd < 0 \<or> fd \<ge> MAX_FDS then Some (Return (- EBADF), k)
      else case file_descriptors (current k) fd of
        None \<Rightarrow> Some (Return (- EBADF), k)
      | Some vi \<Rightarrow>
          if n < 0 then Some (Return (- EINVAL), k)
          else if n > NUM_PAG_DATA * PAGE_SIZE - KERNEL_STACK_SIZE then Some (Return (- EFBIG), k)
          else if access_mode (fdt (fs k) vi) = O_WRONLY then Some (Return (- EBADF), k)
          else do {
            ok \<leftarrow> access_ok (mm k) (arg_loc (lay k) (cur k)) 0 buffer n;
            if ok < 1 then Some (Return (- EFAULT), k)
            else do {
              let k = upd_task (cur k) (\<lambda>t. t\<lparr>t_size := n, t_buffer := buffer\<rparr>) k;
              (di, op) \<leftarrow> dev_of (fs k) vi;
              case sys_read_dev op of
                None \<Rightarrow> Some (Return (- ENOSYS), k)
              | Some r \<Rightarrow> call_read r vi di buffer n k
            }
          })"

definition sys_dup :: "int \<Rightarrow> kernel \<Rightarrow> (int \<times> kernel) option" where
  "sys_dup fd k =
     (if fd < 0 \<or> fd \<ge> MAX_FDS \<or> file_descriptors (current k) fd = None then Some (- EBADF, k)
      else
        let new_fd = scan 0 MAX_FDS (\<lambda>i. file_descriptors (current k) i \<noteq> None)
        in if new_fd = MAX_FDS then Some (- EMFILE, k)
           else do {
             let k = upd_task (cur k) (\<lambda>t. t\<lparr>file_descriptors := (file_descriptors t)(new_fd := file_descriptors t fd)\<rparr>) k;
             s \<leftarrow> share_fd (file_descriptors (current k) new_fd) (fs k);
             Some (new_fd, k\<lparr>fs := s\<rparr>)
           })"

definition sys_close :: "int \<Rightarrow> kernel \<Rightarrow> (int \<times> kernel) option" where
  "sys_close fd k =
     (if fd < 0 \<or> fd \<ge> MAX_FDS then Some (- EBADF, k)
      else case file_descriptors (current k) fd of
        None \<Rightarrow> Some (- EBADF, k)
      | Some vi \<Rightarrow> do {
          (di, op) \<leftarrow> dev_of (fs k) vi;
          if sys_close_dev op \<noteq> None then None
          else
            let s = fs k;
                s = s\<lparr>fdt := (fdt s)(vi := (fdt s vi)\<lparr>refs := refs (fdt s vi) - 1\<rparr>),
                      dir := (dir s)(di := (dir s di)\<lparr>n_refs := n_refs (dir s di) - 1\<rparr>)\<rparr>
            in Some (0, upd_task (cur k) (\<lambda>t. t\<lparr>file_descriptors := (file_descriptors t)(fd := None)\<rparr>) (k\<lparr>fs := s\<rparr>))
        })"

definition sys_unlink :: "int \<Rightarrow> kernel \<Rightarrow> (int \<times> kernel) option" where
  "sys_unlink path k =
     (if check_address path 1 = 0 then Some (- EFAULT, k)
      else do {
        l \<leftarrow> strlen (uld (mm k)) path;
        if l > MAX_NAME_LENGTH then Some (- ENAMETOOLONG, k)
        else do {
          e \<leftarrow> dir_find (uld (mm k)) path (fs k) 0;
          if e = MAX_FILES then Some (- ENOENT, k)
          else if n_refs (dir (fs k) e) = 0 then do {
            op \<leftarrow> operations (dir (fs k) e);
            s \<leftarrow> (case sys_release_dev (ops (fs k) op) of None \<Rightarrow> Some (fs k) | Some r \<Rightarrow> call_release r e (fs k));
            let s = s\<lparr>ops := (ops s)(op := no_ops),
                      dir := (dir s)(e := (dir s e)\<lparr>n_refs := -1, name := (name (dir s e))(0 := 0)\<rparr>)\<rparr>;
            Some (0, k\<lparr>fs := s\<rparr>)
          }
          else Some (- EBUSY, k)
        }
      })"

section \<open>Names\<close>

text \<open>The directory holds the names \<open>nm\<close>; the name of a free entry is the empty string.\<close>

definition names_ok :: "fs_state \<Rightarrow> (int \<Rightarrow> 8 word list) \<Rightarrow> bool" where
  "names_ok s nm \<longleftrightarrow> (\<forall>i. 0 \<le> i \<and> i < MAX_FILES \<longrightarrow> cstr_at (name_ld (name (dir s i))) 0 (nm i))"

lemma dir_find_scan:
  assumes nm: "names_ok s nm" and p: "cstr_at ld path p"
  shows "0 \<le> i \<Longrightarrow> dir_find ld path s i = Some (scan i MAX_FILES (\<lambda>i. nm i \<noteq> p))"
proof (induction "nat (10 - i)" arbitrary: i)
  case 0
  then show ?case by (simp add: dir_find.simps [of _ _ _ i] scan.simps [of i])
next
  case (Suc k)
  then have "i < 10" by simp
  then have "strcmp (name_ld (name (dir s i))) ld 0 path = Some (lexcmp (nm i) p)"
    using nm p Suc.prems by (intro strcmp_lexcmp) (auto simp: names_ok_def)
  then show ?case
    using Suc \<open>i < 10\<close> by (simp add: dir_find.simps [of _ _ _ i] scan.simps [of i] lexcmp_zero_iff)
qed

section \<open>Opening and closing\<close>

definition fd_slot :: "kernel \<Rightarrow> int" where
  "fd_slot k = scan 0 MAX_FDS (\<lambda>i. file_descriptors (current k) i \<noteq> None)"

definition fdt_slot :: "kernel \<Rightarrow> int" where
  "fdt_slot k = scan 0 MAX_OPEN_FILES (\<lambda>i. refs (fdt (fs k) i) > 0)"

lemma fd_slot_free:
  "fd_slot k \<noteq> 10 \<Longrightarrow> 0 \<le> fd_slot k \<and> fd_slot k < 10 \<and> file_descriptors (current k) (fd_slot k) = None \<and>
     (\<forall>i. 0 \<le> i \<and> i < fd_slot k \<longrightarrow> file_descriptors (current k) i \<noteq> None)"
  unfolding fd_slot_def by (drule scan_found) auto

lemma fdt_slot_free: "fdt_slot k \<noteq> 15 \<Longrightarrow> 0 \<le> fdt_slot k \<and> fdt_slot k < 15 \<and> refs (fdt (fs k) (fdt_slot k)) \<le> 0"
  unfolding fdt_slot_def by (drule scan_found) auto

text \<open>The entry and the remaining flags after a successful lookup, and the state the lookup leaves.\<close>

definition opened :: "int \<Rightarrow> int \<Rightarrow> kernel \<Rightarrow> fs_state \<Rightarrow> kernel" where
  "opened di flags k s = upd_task (cur k) (\<lambda>t. t\<lparr>file_descriptors := (file_descriptors t)(fd_slot k := Some (fdt_slot k))\<rparr>)
     (k\<lparr>fs := s\<lparr>fdt := (fdt s)(fdt_slot k := \<lparr>access_mode = flags, refs = 1, voffset = 0, logic_dev = Some di\<rparr>),
        dir := (dir s)(di := (dir s di)\<lparr>n_refs := n_refs (dir s di) + 1\<rparr>)\<rparr>\<rparr>)"

lemma sys_open_success:
  assumes o: "sys_open path flags k = Some (fd, k')" and fd: "0 \<le> fd"
  obtains di fl s op where "open_lookup (uld (mm k)) path flags (fs k) = Some (Inr (di, fl), s)"
    and "operations (dir s di) = Some op" and "sys_open_dev (ops s op) = None"
    and "access_mode_allow (dir s di) = O_RDWR \<or> fl = access_mode_allow (dir s di)"
    and "fd = fd_slot k" and "fd_slot k \<noteq> 10" and "fdt_slot k \<noteq> 15" and "k' = opened di fl k s"
proof -
  have lk: "\<exists>di fl. r = Inr (di, fl) \<or> (\<exists>e. r = Inl e \<and> e < 0)"
    if "open_lookup (uld (mm k)) path flags (fs k) = Some (r, s)" for r s
    using that by (auto simp: open_lookup_def Let_def dest!: bind_SomeD split: if_splits sum.splits)
  show ?thesis
    using o fd that lk
    by (auto simp: sys_open_def Let_def opened_def fd_slot_def fdt_slot_def dest!: bind_SomeD split: if_splits sum.splits prod.splits)
qed

lemma create_file_frame:
  assumes "create_file ld path s = Some (r, s')"
  shows "fdt s' = fdt s" "disk s' = disk s"
    "(\<forall>op. sys_close_dev (ops s op) = None) \<Longrightarrow> (\<forall>op. sys_close_dev (ops s' op) = None)"
proof -
  have b: "fdt t = fdt s \<and> disk t = disk s \<and> ops t = ops s" if "balloc 1 s = Some (f, t)" for f t
    using that by (auto simp: balloc_def Let_def dest!: bind_SomeD split: if_splits prod.splits)
  show "fdt s' = fdt s" "disk s' = disk s"
    "(\<forall>op. sys_close_dev (ops s op) = None) \<Longrightarrow> (\<forall>op. sys_close_dev (ops s' op) = None)"
    using assms b by (auto simp: create_file_def Let_def dest!: bind_SomeD split: if_splits prod.splits)
qed

lemma open_lookup_frame:
  assumes l: "open_lookup ld path flags s = Some (r, s')"
  shows "fdt s' = fdt s" "disk s' = disk s"
    "(\<forall>op. sys_close_dev (ops s op) = None) \<Longrightarrow> (\<forall>op. sys_close_dev (ops s' op) = None)"
    "dir_find ld path s 0 = Some e \<Longrightarrow> e \<noteq> 10 \<Longrightarrow> s' = s \<and> (\<forall>di fl. r = Inr (di, fl) \<longrightarrow> di = e)"
proof -
  obtain e' where "dir_find ld path s 0 = Some e'" using l by (auto simp: open_lookup_def dest!: bind_SomeD)
  then have c: "s' = s \<or> (\<exists>i. create_file ld path s = Some (Inr i, s'))"
    using l by (auto simp: open_lookup_def Let_def dest!: bind_SomeD split: if_splits sum.splits)
  show "fdt s' = fdt s" using c create_file_frame(1) by blast
  show "disk s' = disk s" using c create_file_frame(2) by blast
  show "(\<forall>op. sys_close_dev (ops s op) = None) \<Longrightarrow> (\<forall>op. sys_close_dev (ops s' op) = None)"
    using c create_file_frame(3) [of ld path s _ s'] by metis
  show "s' = s \<and> (\<forall>di fl. r = Inr (di, fl) \<longrightarrow> di = e)" if "dir_find ld path s 0 = Some e" "e \<noteq> 10"
    using l that by (auto simp: open_lookup_def split: if_splits)
qed

lemma sys_close_opened:
  assumes op: "operations (dir s di) = Some op" "sys_close_dev (ops s op) = None" and fd: "fd_slot k \<noteq> 10"
  obtains k' where "sys_close (fd_slot k) (opened di fl k s) = Some (0, k')" and "task k' = task k"
    and "refs (fdt (fs k') (fdt_slot k)) = 0" and "\<forall>v. v \<noteq> fdt_slot k \<longrightarrow> fdt (fs k') v = fdt s v" and "dir (fs k') = dir s"
proof -
  let ?o = "opened di fl k s" and ?f = "fd_slot k" and ?v = "fdt_slot k"
  note f = fd_slot_free [OF fd]
  let ?s = "(fs ?o)\<lparr>fdt := (fdt (fs ?o))(?v := (fdt (fs ?o) ?v)\<lparr>refs := 0\<rparr>),
     dir := (dir (fs ?o))(di := (dir (fs ?o) di)\<lparr>n_refs := n_refs (dir s di)\<rparr>)\<rparr>"
  let ?k = "upd_task (cur k) (\<lambda>t. t\<lparr>file_descriptors := (file_descriptors t)(?f := None)\<rparr>) (?o\<lparr>fs := ?s\<rparr>)"
  have "sys_close ?f ?o = Some (0, ?k)"
    using f op by (simp add: sys_close_def dev_of_def opened_def upd_task_def Let_def)
  moreover have "task ?k = task k"
  proof
    fix i
    have "(file_descriptors (current k))(?f := None) = file_descriptors (current k)" using f by auto
    then show "task ?k i = task k i" by (simp add: opened_def upd_task_def)
  qed
  moreover have "refs (fdt (fs ?k) ?v) = 0" "\<forall>v. v \<noteq> ?v \<longrightarrow> fdt (fs ?k) v = fdt s v" "dir (fs ?k) = dir s"
    by (simp_all add: opened_def upd_task_def)
  ultimately show ?thesis by (rule that)
qed

text \<open>a successful \<open>sys_open\<close> uses the least free descriptor of the process and a free entry of the open file
  table, with one reference and offset 0; closing the descriptor succeeds and undoes it: the process table, the other
  open files and, for a file that existed, the directory with its reference counts are as before.\<close>

theorem open_then_close:
  assumes o: "sys_open path flags k = Some (fd, k')" and fd: "0 \<le> fd" and cl: "\<forall>op. sys_close_dev (ops (fs k) op) = None"
  shows "\<exists>vi di k''. fd < MAX_FDS \<and> file_descriptors (current k) fd = None \<and>
    (\<forall>i. 0 \<le> i \<and> i < fd \<longrightarrow> file_descriptors (current k) i \<noteq> None) \<and>
    0 \<le> vi \<and> vi < MAX_OPEN_FILES \<and> refs (fdt (fs k) vi) \<le> 0 \<and>
    file_descriptors (current k') = (file_descriptors (current k))(fd \<mapsto> vi) \<and>
    refs (fdt (fs k') vi) = 1 \<and> voffset (fdt (fs k') vi) = 0 \<and> logic_dev (fdt (fs k') vi) = Some di \<and>
    sys_close fd k' = Some (0, k'') \<and> task k'' = task k \<and> refs (fdt (fs k'') vi) = 0 \<and>
    (\<forall>v. v \<noteq> vi \<longrightarrow> fdt (fs k'') v = fdt (fs k) v) \<and>
    (\<forall>e. dir_find (uld (mm k)) path (fs k) 0 = Some e \<and> e \<noteq> MAX_FILES \<longrightarrow> di = e \<and> dir (fs k'') = dir (fs k))"
proof -
  obtain di fl s op where l: "open_lookup (uld (mm k)) path flags (fs k) = Some (Inr (di, fl), s)"
    "operations (dir s di) = Some op" "fd = fd_slot k" "fd_slot k \<noteq> 10" "fdt_slot k \<noteq> 15" "k' = opened di fl k s"
    by (rule sys_open_success [OF o fd]) blast
  note fr = open_lookup_frame [OF l(1)]
  obtain k'' where c: "sys_close (fd_slot k) (opened di fl k s) = Some (0, k'')" "task k'' = task k"
    "refs (fdt (fs k'') (fdt_slot k)) = 0" "\<forall>v. v \<noteq> fdt_slot k \<longrightarrow> fdt (fs k'') v = fdt s v" "dir (fs k'') = dir s"
    using sys_close_opened [OF l(2) _ l(4)] fr(3) [OF cl] by metis
  have o: "file_descriptors (current k') = (file_descriptors (current k))(fd \<mapsto> fdt_slot k)" "refs (fdt (fs k') (fdt_slot k)) = 1"
    "voffset (fdt (fs k') (fdt_slot k)) = 0" "logic_dev (fdt (fs k') (fdt_slot k)) = Some di"
    unfolding l(3,6) by (simp_all add: opened_def upd_task_def)
  have e: "di = e \<and> dir (fs k'') = dir (fs k)" if "dir_find (uld (mm k)) path (fs k) 0 = Some e \<and> e \<noteq> 10" for e
    using fr(4) that c(5) by auto
  have f: "fd < 10 \<and> file_descriptors (current k) fd = None \<and> (\<forall>i. 0 \<le> i \<and> i < fd \<longrightarrow> file_descriptors (current k) i \<noteq> None)"
    using fd_slot_free [OF l(4)] unfolding l(3) by blast
  have v: "\<forall>v. v \<noteq> fdt_slot k \<longrightarrow> fdt (fs k'') v = fdt (fs k) v" using c(4) fr(1) by simp
  have c1: "sys_close fd k' = Some (0, k'')" using c(1) unfolding l(3,6) .
  show ?thesis
    by (rule exI [of _ "fdt_slot k"], rule exI [of _ di], rule exI [of _ k''])
      (use f fdt_slot_free [OF l(5)] o c1 c(2,3) v e in blast)
qed

section \<open>Errors of \<open>sys_open\<close>\<close>

text \<open>The flags left for the descriptor when the file exists, and the first error that applies.\<close>

definition mode_flags :: "int \<Rightarrow> int" where
  "mode_flags flags = (if flags \<ge> O_CREAT then flags - O_CREAT else flags)"

definition open_error :: "(int \<Rightarrow> 8 word list) \<Rightarrow> 8 word list \<Rightarrow> int \<Rightarrow> kernel \<Rightarrow> int option" where
  "open_error nm p flags k =
     (let e = scan 0 MAX_FILES (\<lambda>i. nm i \<noteq> p); f = dir (fs k) e
      in if int (length p) > MAX_NAME_LENGTH then Some (- ENAMETOOLONG)
         else if \<forall>i. 0 \<le> i \<and> i < MAX_OPEN_FILES \<longrightarrow> refs (fdt (fs k) i) > 0 then Some (- ENFILE)
         else if \<forall>i. 0 \<le> i \<and> i < MAX_FDS \<longrightarrow> file_descriptors (current k) i \<noteq> None then Some (- EMFILE)
         else if flags < 0 \<or> flags > 15 then Some (- EINVAL)
         else if e = MAX_FILES \<and> flags < O_CREAT then Some (- ENOENT)
         else if e \<noteq> MAX_FILES \<and> flags \<ge> O_EXCL + O_CREAT then Some (- EEXIST)
         else if e \<noteq> MAX_FILES \<and> access_mode_allow f \<noteq> O_RDWR \<and> mode_flags flags \<noteq> access_mode_allow f then Some (- EACCES)
         else None)"

lemma sys_open_spec:
  assumes nm: "names_ok (fs k) nm" and path: "check_address path 1 \<noteq> 0" and p: "cstr_at (uld (mm k)) path p"
    and ops: "\<forall>i. 0 \<le> i \<and> i < MAX_FILES \<longrightarrow> (\<exists>op. operations (dir (fs k) i) = Some op \<and> sys_open_dev (ops (fs k) op) = None)"
  shows "(\<forall>err. open_error nm p flags k = Some err \<longrightarrow> sys_open path flags k = Some (err, k)) \<and>
    (open_error nm p flags k = None \<and> p \<in> nm ` {0..<MAX_FILES} \<longrightarrow>
       sys_open path flags k = Some (fd_slot k, opened (scan 0 MAX_FILES (\<lambda>i. nm i \<noteq> p)) (mode_flags flags) k (fs k)))"
proof -
  let ?e = "scan 0 10 (\<lambda>i. nm i \<noteq> p)"
  have p0: "path \<noteq> 0" using path by (auto simp: check_address_def u32_def)
  have l: "strlen (uld (mm k)) path = Some (int (length p))" using p by (rule strlen_cstr)
  have d: "dir_find (uld (mm k)) path (fs k) 0 = Some ?e" using dir_find_scan [OF nm p] by simp
  have full: "fd_slot k = 10 \<longleftrightarrow> (\<forall>i. 0 \<le> i \<and> i < 10 \<longrightarrow> file_descriptors (current k) i \<noteq> None)"
    "fdt_slot k = 15 \<longleftrightarrow> (\<forall>i. 0 \<le> i \<and> i < 15 \<longrightarrow> refs (fdt (fs k) i) > 0)"
    unfolding fd_slot_def fdt_slot_def by (simp_all add: scan_full_iff)
  have e: "p \<in> nm ` {0..<10} \<longleftrightarrow> ?e \<noteq> 10" by (subst scan_full_iff) (auto simp: image_iff)
  have op: "\<exists>op. operations (dir (fs k) ?e) = Some op \<and> sys_open_dev (ops (fs k) op) = None" if "?e \<noteq> 10"
    using scan_found [OF that] ops by auto
  have s: "sys_open path flags k = (if int (length p) > 10 then Some (- ENAMETOOLONG, k)
     else if fdt_slot k = 15 then Some (- ENFILE, k) else if fd_slot k = 10 then Some (- EMFILE, k)
     else if flags < 0 \<or> flags > 15 then Some (- EINVAL, k)
     else Option.bind (open_lookup (uld (mm k)) path flags (fs k)) (\<lambda>(r, s). case r of Inl e \<Rightarrow> Some (e, k\<lparr>fs := s\<rparr>)
       | Inr (file, flags) \<Rightarrow> Option.bind (operations (dir s file)) (\<lambda>op. if sys_open_dev (ops s op) \<noteq> None then None
         else if access_mode_allow (dir s file) \<noteq> O_RDWR \<and> flags \<noteq> access_mode_allow (dir s file) then Some (- EACCES, k\<lparr>fs := s\<rparr>)
         else Some (fd_slot k, opened file flags k s))))"
  proof (cases "open_lookup (uld (mm k)) path flags (fs k)")
    case None
    then show ?thesis
      using path p0 l unfolding sys_open_def Let_def fd_slot_def [symmetric] fdt_slot_def [symmetric] by simp
  next
    case (Some a)
    then show ?thesis
      using path p0 l unfolding sys_open_def Let_def fd_slot_def [symmetric] fdt_slot_def [symmetric]
      by (cases "fst a") (auto simp: opened_def case_prod_beta' intro!: arg_cong [where f = "Option.bind _"])
  qed
  show ?thesis
    unfolding s open_error_def Let_def full [symmetric] e
    using op by (auto simp: open_lookup_def d mode_flags_def)
qed

text \<open>C31: \<open>sys_open\<close> on a readable path checks, in this order, the length of the name, the room in the two tables, the
  flags, the existence of the file and its mode; each failure returns its error code and changes nothing, and an
  existing file that passes all checks is opened.\<close>

theorem sys_open_checks:
  assumes nm: "names_ok (fs k) nm" and path: "check_address path 1 \<noteq> 0" and p: "cstr_at (uld (mm k)) path p"
    and ops: "\<forall>i. 0 \<le> i \<and> i < MAX_FILES \<longrightarrow> (\<exists>op. operations (dir (fs k) i) = Some op \<and> sys_open_dev (ops (fs k) op) = None)"
  shows "(\<forall>err. open_error nm p flags k = Some err \<longrightarrow> sys_open path flags k = Some (err, k)) \<and>
    (open_error nm p flags k = None \<and> p \<in> nm ` {0..<MAX_FILES} \<longrightarrow>
       sys_open path flags k = Some (fd_slot k, opened (scan 0 MAX_FILES (\<lambda>i. nm i \<noteq> p)) (mode_flags flags) k (fs k)))"
  by (rule sys_open_spec [OF assms])

section \<open>Reference counts\<close>

lemma fd_count_set:
  assumes i: "0 \<le> i" "i < n" and f: "fds i = None"
  shows "fd_count n (fds(i \<mapsto> v)) w = fd_count n fds w + (if w = v then 1 else 0)"
proof -
  let ?S = "{j. 0 \<le> j \<and> j < n \<and> fds j = Some w}"
  have fin: "finite ?S" by (rule finite_subset [of _ "{0..<n}"]) auto
  have "{j. 0 \<le> j \<and> j < n \<and> (fds(i \<mapsto> v)) j = Some w} = (if w = v then insert i ?S else ?S)"
    using i f by auto
  moreover have "i \<notin> ?S" using f by simp
  ultimately have "card {j. 0 \<le> j \<and> j < n \<and> (fds(i \<mapsto> v)) j = Some w} = card ?S + (if w = v then 1 else 0)"
    using card_insert_disjoint [OF fin, of i] by auto
  then show ?thesis unfolding fd_count_def by simp
qed

lemma fd_count_clear:
  assumes i: "0 \<le> i" "i < n" and f: "fds i = Some v"
  shows "fd_count n (fds(i := None)) w = fd_count n fds w - (if w = v then 1 else 0)"
proof -
  have "(fds(i := None))(i \<mapsto> v) = fds" using f by auto
  then show ?thesis using fd_count_set [OF i, of "fds(i := None)" v w] by simp
qed

text \<open>The descriptors of the running process are valid, and an open file counts at least its descriptors there.\<close>

definition refs_ok :: "kernel \<Rightarrow> bool" where
  "refs_ok k \<longleftrightarrow> fds_ok (fs k) (file_descriptors (current k)) \<and>
     (\<forall>v. fd_count MAX_FDS (file_descriptors (current k)) v \<le> refs (fdt (fs k) v))"

text \<open>References held by others: by other processes, and by descriptors that were never closed.\<close>

definition other_refs :: "kernel \<Rightarrow> int \<Rightarrow> int" where
  "other_refs k v = refs (fdt (fs k) v) - fd_count MAX_FDS (file_descriptors (current k)) v"

lemma sys_dup_ok:
  assumes r: "refs_ok k" and fd: "0 \<le> fd" "fd < 10" "file_descriptors (current k) fd = Some v" and sl: "fd_slot k \<noteq> 10"
  shows "\<exists>k'. sys_dup fd k = Some (fd_slot k, k') \<and> refs_ok k' \<and> other_refs k' = other_refs k \<and>
    file_descriptors (current k') = (file_descriptors (current k))(fd_slot k \<mapsto> v) \<and> fd \<noteq> fd_slot k"
proof -
  note f = fd_slot_free [OF sl]
  have vd: "0 \<le> v" "v < 15" "logic_dev (fdt (fs k) v) \<noteq> None"
    using r fd unfolding refs_ok_def fds_ok_def by blast+
  then obtain d where d: "logic_dev (fdt (fs k) v) = Some d" by blast
  let ?s = "(fs k)\<lparr>fdt := (fdt (fs k))(v := (fdt (fs k) v)\<lparr>refs := refs (fdt (fs k) v) + 1\<rparr>),
     dir := (dir (fs k))(d := (dir (fs k) d)\<lparr>n_refs := n_refs (dir (fs k) d) + 1\<rparr>)\<rparr>"
  let ?fds = "(file_descriptors (current k))(fd_slot k \<mapsto> v)"
  let ?k = "(upd_task (cur k) (\<lambda>t. t\<lparr>file_descriptors := ?fds\<rparr>) k)\<lparr>fs := ?s\<rparr>"
  have dup: "sys_dup fd k = Some (fd_slot k, ?k)"
    using fd sl vd d unfolding sys_dup_def fd_slot_def [symmetric] by (simp add: Let_def share_fd_def upd_task_def)
  have c: "fd_count 10 ?fds w = fd_count 10 (file_descriptors (current k)) w + (if w = v then 1 else 0)" for w
    using fd_count_set f by blast
  have "fds_ok ?s ?fds" using r vd d unfolding refs_ok_def fds_ok_def by auto
  moreover have "fd_count 10 ?fds w \<le> refs (fdt ?s w)" for w
    using c [of w] r unfolding refs_ok_def by (cases "w = v") (simp_all add: fun_upd_def)
  ultimately have ok: "refs_ok ?k" by (simp add: refs_ok_def)
  have o: "other_refs ?k = other_refs k" using c by (intro ext) (simp add: other_refs_def)
  have n: "fd \<noteq> fd_slot k" using f fd by auto
  show ?thesis by (intro exI [of _ ?k] conjI dup ok o n) simp
qed

lemma sys_close_ok:
  assumes r: "refs_ok k" and fd: "0 \<le> fd" "fd < 10" "file_descriptors (current k) fd = Some v"
    and dev: "dev_of (fs k) v = Some (d, op)" "sys_close_dev op = None"
  shows "\<exists>k'. sys_close fd k = Some (0, k') \<and> refs_ok k' \<and> other_refs k' = other_refs k \<and>
    file_descriptors (current k') = (file_descriptors (current k))(fd := None) \<and>
    n_refs (dir (fs k') d) = n_refs (dir (fs k) d) - 1"
proof -
  let ?s = "(fs k)\<lparr>fdt := (fdt (fs k))(v := (fdt (fs k) v)\<lparr>refs := refs (fdt (fs k) v) - 1\<rparr>),
     dir := (dir (fs k))(d := (dir (fs k) d)\<lparr>n_refs := n_refs (dir (fs k) d) - 1\<rparr>)\<rparr>"
  let ?fds = "(file_descriptors (current k))(fd := None)"
  let ?k = "upd_task (cur k) (\<lambda>t. t\<lparr>file_descriptors := (file_descriptors t)(fd := None)\<rparr>) (k\<lparr>fs := ?s\<rparr>)"
  have cl: "sys_close fd k = Some (0, ?k)" using fd dev by (simp add: sys_close_def Let_def)
  have c: "fd_count 10 ?fds w = fd_count 10 (file_descriptors (current k)) w - (if w = v then 1 else 0)" for w
    using fd_count_clear fd by blast
  have "fds_ok ?s ?fds" using r unfolding refs_ok_def fds_ok_def by (auto simp: fun_upd_def)
  moreover have "fd_count 10 ?fds w \<le> refs (fdt ?s w)" for w
    using c [of w] r [unfolded refs_ok_def, THEN conjunct2, rule_format, of w] by (cases "w = v") simp_all
  ultimately have ok: "refs_ok ?k" by (simp add: refs_ok_def)
  have o: "other_refs ?k = other_refs k" using c by (intro ext) (simp add: other_refs_def)
  show ?thesis by (intro exI [of _ ?k] conjI cl ok o) simp_all
qed

lemma sys_open_refs:
  assumes r: "refs_ok k" and o: "sys_open path flags k = Some (fd, k')" "0 \<le> fd"
  shows "refs_ok k' \<and> (\<forall>v. v \<noteq> fdt_slot k \<longrightarrow> other_refs k' v = other_refs k v) \<and> other_refs k' (fdt_slot k) = 0"
proof -
  obtain di fl s where l: "open_lookup (uld (mm k)) path flags (fs k) = Some (Inr (di, fl), s)"
    "fd = fd_slot k" "fd_slot k \<noteq> 10" "fdt_slot k \<noteq> 15" "k' = opened di fl k s"
    by (rule sys_open_success [OF o]) blast
  note f = fd_slot_free [OF l(3)] and v = fdt_slot_free [OF l(4)] and fr = open_lookup_frame(1) [OF l(1)]
  let ?fds = "(file_descriptors (current k))(fd_slot k \<mapsto> fdt_slot k)"
  have c: "fd_count 10 ?fds w = fd_count 10 (file_descriptors (current k)) w + (if w = fdt_slot k then 1 else 0)" for w
    using fd_count_set f by blast
  have "fd_count 10 (file_descriptors (current k)) (fdt_slot k) \<le> 0" using r v unfolding refs_ok_def by (meson order_trans)
  then have z: "fd_count 10 (file_descriptors (current k)) (fdt_slot k) = 0" by (simp add: fd_count_def)
  have k': "file_descriptors (current k') = ?fds" "fdt (fs k') = (fdt (fs k))(fdt_slot k := \<lparr>access_mode = fl, refs = 1, voffset = 0, logic_dev = Some di\<rparr>)"
    unfolding l(5) by (simp_all add: opened_def fr)
  have "fds_ok (fs k') ?fds" using r v unfolding refs_ok_def fds_ok_def k' by (auto split: if_splits)
  moreover have "fd_count 10 ?fds w \<le> refs (fdt (fs k') w)" for w
    using c [of w] r z unfolding refs_ok_def k' by (cases "w = fdt_slot k") simp_all
  ultimately have "refs_ok k'" unfolding refs_ok_def k'(1) by blast
  moreover have "other_refs k' w = (if w = fdt_slot k then 0 else other_refs k w)" for w
    unfolding other_refs_def k'(1) c using z k'(2) by simp
  ultimately show ?thesis by simp
qed

text \<open>C32: the reference count of an open file is kept in step with the descriptors of the running process: a
  successful \<open>sys_dup\<close>, \<open>sys_close\<close> or \<open>sys_open\<close> changes the count by exactly the change in the number of
  descriptors, so that the references of everybody else stay as they are.\<close>

theorem reference_counts_kept:
  assumes r: "refs_ok k"
  shows "(\<forall>fd v. 0 \<le> fd \<and> fd < MAX_FDS \<and> file_descriptors (current k) fd = Some v \<and> fd_slot k \<noteq> MAX_FDS \<longrightarrow>
      (\<exists>k'. sys_dup fd k = Some (fd_slot k, k') \<and> refs_ok k' \<and> other_refs k' = other_refs k \<and>
         file_descriptors (current k') = (file_descriptors (current k))(fd_slot k \<mapsto> v))) \<and>
    (\<forall>fd v d op. 0 \<le> fd \<and> fd < MAX_FDS \<and> file_descriptors (current k) fd = Some v \<and> dev_of (fs k) v = Some (d, op) \<and>
        sys_close_dev op = None \<longrightarrow>
      (\<exists>k'. sys_close fd k = Some (0, k') \<and> refs_ok k' \<and> other_refs k' = other_refs k \<and>
         file_descriptors (current k') = (file_descriptors (current k))(fd := None))) \<and>
    (\<forall>path flags fd k'. sys_open path flags k = Some (fd, k') \<and> 0 \<le> fd \<longrightarrow>
      refs_ok k' \<and> (\<forall>v. v \<noteq> fdt_slot k \<longrightarrow> other_refs k' v = other_refs k v) \<and> other_refs k' (fdt_slot k) = 0)"
proof (intro conjI allI impI)
  fix fd v
  assume "0 \<le> fd \<and> fd < 10 \<and> file_descriptors (current k) fd = Some v \<and> fd_slot k \<noteq> 10"
  then show "\<exists>k'. sys_dup fd k = Some (fd_slot k, k') \<and> refs_ok k' \<and> other_refs k' = other_refs k \<and>
       file_descriptors (current k') = (file_descriptors (current k))(fd_slot k \<mapsto> v)"
    using sys_dup_ok [OF r] by blast
next
  fix fd v d op
  assume "0 \<le> fd \<and> fd < 10 \<and> file_descriptors (current k) fd = Some v \<and> dev_of (fs k) v = Some (d, op) \<and> sys_close_dev op = None"
  then show "\<exists>k'. sys_close fd k = Some (0, k') \<and> refs_ok k' \<and> other_refs k' = other_refs k \<and>
       file_descriptors (current k') = (file_descriptors (current k))(fd := None)"
    using sys_close_ok [OF r] by blast
next
  fix path flags fd k'
  assume o: "sys_open path flags k = Some (fd, k') \<and> 0 \<le> fd"
  note s = sys_open_refs [OF r, of path flags fd k']
  show "refs_ok k'" using s o by blast
  show "other_refs k' (fdt_slot k) = 0" using s o by blast
  show "other_refs k' v = other_refs k v" if "v \<noteq> fdt_slot k" for v using s o that by blast
qed

section \<open>Removing a file\<close>

lemma sys_release_file_ok:
  assumes ok: "blocks_ok s fl C" and a: "C (first_block (dir s e)) = Some xs"
  obtains s' where "sys_release_file e s = Some (0, s')" and "blocks_ok s' (fl @ xs) (C(first_block (dir s e) := None))"
    and "disk s' = disk s" and "fdt s' = fdt s" and "ops s' = ops s"
    and "dir s' = (dir s)(e := (dir s e)\<lparr>n_blocks := 0, fsize := 0\<rparr>)"
proof -
  obtain s1 where s1: "freeb (first_block (dir s e)) s = Some (0, s1)" "blocks_ok s1 (fl @ xs) (C(first_block (dir s e) := None))"
    "disk s1 = disk s" "dir s1 = dir s" "fdt s1 = fdt s" "ops s1 = ops s"
    by (rule blocks_ok_freeb [OF ok a])
  show ?thesis
    by (rule that [of "s1\<lparr>dir := (dir s1)(e := (dir s1 e)\<lparr>n_blocks := 0, fsize := 0\<rparr>)\<rparr>"])
      (use s1 in \<open>simp_all add: sys_release_file_def\<close>)
qed

text \<open>C33: \<open>sys_unlink\<close> refuses a file that is open, with -EBUSY and no change. Otherwise the blocks of the file go back
  to the end of the free list, its directory entry becomes free, and the name is no longer found; other files, the data
  on the disk and the open file table are untouched.\<close>

theorem sys_unlink_frees:
  assumes nm: "names_ok (fs k) nm" and path: "check_address path 1 \<noteq> 0" and p: "cstr_at (uld (mm k)) path p" "length p \<le> 10"
    and e: "0 \<le> e" "e < MAX_FILES" "nm e = p" "p \<noteq> []" "\<forall>i. 0 \<le> i \<and> i < MAX_FILES \<and> nm i = p \<longrightarrow> i = e"
    and ok: "blocks_ok (fs k) fl C" "C (first_block (dir (fs k) e)) = Some xs"
    and op: "operations (dir (fs k) e) = Some op" "sys_release_dev (ops (fs k) op) = Some F_sys_release_file"
  shows "(n_refs (dir (fs k) e) \<noteq> 0 \<longrightarrow> sys_unlink path k = Some (- EBUSY, k)) \<and>
    (n_refs (dir (fs k) e) = 0 \<longrightarrow> (\<exists>s'. sys_unlink path k = Some (0, k\<lparr>fs := s'\<rparr>) \<and>
       blocks_ok s' (fl @ xs) (C(first_block (dir (fs k) e) := None)) \<and> n_refs (dir s' e) = -1 \<and>
       (\<forall>i. i \<noteq> e \<longrightarrow> dir s' i = dir (fs k) i) \<and> disk s' = disk (fs k) \<and> fdt s' = fdt (fs k) \<and>
       names_ok s' (nm(e := [])) \<and> dir_find (uld (mm k)) path s' 0 = Some MAX_FILES))"
proof -
  have "scan 0 10 (\<lambda>i. nm i \<noteq> p) = e"
  proof -
    have "scan 0 10 (\<lambda>i. nm i \<noteq> p) \<noteq> 10" using e by (subst scan_full_iff) auto
    from scan_found [OF this] show ?thesis using e(5) by auto
  qed
  then have d: "dir_find (uld (mm k)) path (fs k) 0 = Some e" using dir_find_scan [OF nm p(1)] by simp
  have l: "strlen (uld (mm k)) path = Some (int (length p))" using p(1) by (rule strlen_cstr)
  obtain s1 where s1: "sys_release_file e (fs k) = Some (0, s1)" "blocks_ok s1 (fl @ xs) (C(first_block (dir (fs k) e) := None))"
    "disk s1 = disk (fs k)" "fdt s1 = fdt (fs k)" "ops s1 = ops (fs k)"
    "dir s1 = (dir (fs k))(e := (dir (fs k) e)\<lparr>n_blocks := 0, fsize := 0\<rparr>)"
    by (rule sys_release_file_ok [OF ok])
  let ?s = "s1\<lparr>ops := (ops s1)(op := no_ops), dir := (dir s1)(e := (dir s1 e)\<lparr>n_refs := -1, name := (name (dir s1 e))(0 := 0)\<rparr>)\<rparr>"
  have u: "sys_unlink path k = (if n_refs (dir (fs k) e) = 0 then Some (0, k\<lparr>fs := ?s\<rparr>) else Some (- EBUSY, k))"
    using path l p(2) d e(2) op s1(1) by (simp add: sys_unlink_def call_release_def Let_def)
  have nm': "names_ok ?s (nm(e := []))"
    unfolding names_ok_def
  proof (intro allI impI)
    fix i :: int
    assume "0 \<le> i \<and> i < 10"
    then show "cstr_at (name_ld (name (dir ?s i))) 0 ((nm(e := [])) i)"
      using nm [unfolded names_ok_def] s1(6) by (cases "i = e") (simp_all add: name_ld_def)
  qed
  have "(nm(e := [])) i \<noteq> p" if "0 \<le> i \<and> i < 10" for i using e(4,5) that by (cases "i = e") auto
  then have "scan 0 10 (\<lambda>i. (nm(e := [])) i \<noteq> p) = 10" unfolding scan_full_iff [OF zero_le_numeral] by blast
  then have f: "dir_find (uld (mm k)) path ?s 0 = Some 10" using dir_find_scan [OF nm' p(1)] by simp
  show ?thesis
  proof (intro conjI impI)
    show "\<exists>s'. sys_unlink path k = Some (0, k\<lparr>fs := s'\<rparr>) \<and>
       blocks_ok s' (fl @ xs) (C(first_block (dir (fs k) e) := None)) \<and> n_refs (dir s' e) = -1 \<and>
       (\<forall>i. i \<noteq> e \<longrightarrow> dir s' i = dir (fs k) i) \<and> disk s' = disk (fs k) \<and> fdt s' = fdt (fs k) \<and>
       names_ok s' (nm(e := [])) \<and> dir_find (uld (mm k)) path s' 0 = Some MAX_FILES" if "n_refs (dir (fs k) e) = 0"
    proof (intro exI [of _ ?s] conjI)
      show "sys_unlink path k = Some (0, k\<lparr>fs := ?s\<rparr>)" unfolding u using that by simp
      show "blocks_ok ?s (fl @ xs) (C(first_block (dir (fs k) e) := None))" using s1(2) by (simp only: blocks_ok_upd)
      show "names_ok ?s (nm(e := []))" by (rule nm')
      show "dir_find (uld (mm k)) path ?s 0 = Some 10" by (rule f)
      show "n_refs (dir ?s e) = -1" "\<forall>i. i \<noteq> e \<longrightarrow> dir ?s i = dir (fs k) i" "disk ?s = disk (fs k)" "fdt ?s = fdt (fs k)"
        using s1(3-6) by simp_all
    qed
  qed (use u in simp)
qed

section \<open>A kernel with one file\<close>

text \<open>One process, one file \<open>F\<close> of one block in the directory, and the path \<open>"F"\<close> in user memory.\<close>

definition path_F :: int where "path_F = 1081344"

definition fs_F :: fs_state where
  "fs_F = one_file\<lparr>dir := (\<lambda>i. (dir one_file i)\<lparr>operations := Some i, access_mode_allow := O_RDWR,
       name := (\<lambda>j. if i = 2 \<and> j = 0 then 0x46 else 0)\<rparr>),
     ops := (\<lambda>i. no_ops\<lparr>sys_release_dev := Some F_sys_release_file\<rparr>)\<rparr>"

definition k_F :: kernel where
  "k_F = blank_kernel\<lparr>fs := fs_F,
     mm := blank_mm\<lparr>pagusr_table := (\<lambda>p. if p = 264 then user_pte 264 else 0), ram := (\<lambda>_. 0)(path_F := 0x46)\<rparr>\<rparr>"

definition names_F :: "int \<Rightarrow> 8 word list" where
  "names_F i = (if i = 2 then [0x46] else [])"

lemma names_F_ok: "names_ok (fs k_F) names_F"
  by (simp add: names_ok_def k_F_def fs_F_def names_F_def name_ld_def rd_def)

lemma path_F_ok: "check_address path_F 1 \<noteq> 0" "cstr_at (uld (mm k_F)) path_F [0x46]"
  by (simp_all add: check_address_def path_F_def uld_def vread_def k_F_def translate_def pte_base_user_pte)

lemma fds_F: "file_descriptors (current k_F) = (\<lambda>_. None)" "refs (fdt (fs k_F) v) = 0"
  by (simp_all add: k_F_def fs_F_def one_file_def initZeosFat_def blank_fs_def blank_kernel_def blank_task_def)

lemma slots_F: "fd_slot k_F = 0" "fdt_slot k_F = 0"
  unfolding fd_slot_def fdt_slot_def fds_F by (simp_all add: scan.simps)

lemma file_F: "operations (dir (fs k_F) i) = Some i" "ops (fs k_F) i = no_ops\<lparr>sys_release_dev := Some F_sys_release_file\<rparr>"
    "access_mode_allow (dir (fs k_F) i) = O_RDWR" "n_refs (dir (fs k_F) i) = 0" "first_block (dir (fs k_F) i) = 0"
  by (simp_all add: k_F_def fs_F_def one_file_def initZeosFat_def blank_fs_def)

lemma find_F: "scan 0 10 (\<lambda>i. names_F i \<noteq> [0x46]) = 2"
  by (simp add: scan.simps names_F_def)

lemma open_error_F: "open_error names_F [0x46] O_RDWR k_F = None"
  unfolding open_error_def find_F Let_def using fds_F(2) [of 0] by (auto simp: fds_F(1) file_F intro: exI [of _ 0])

lemma open_F: "sys_open path_F O_RDWR k_F = Some (0, opened 2 O_RDWR k_F (fs k_F))"
proof -
  have "[0x46] \<in> names_F ` {0..<10}" by (auto simp: names_F_def intro!: image_eqI [of _ _ 2])
  then show ?thesis
    using sys_open_spec [OF names_F_ok path_F_ok, of O_RDWR] open_error_F
    by (simp add: file_F no_ops_def find_F slots_F mode_flags_def)
qed

theorem open_then_close_witness:
  "\<exists>k''. sys_open path_F O_RDWR k_F = Some (0, opened 2 O_RDWR k_F (fs k_F)) \<and>
    sys_close 0 (opened 2 O_RDWR k_F (fs k_F)) = Some (0, k'') \<and> task k'' = task k_F"
proof -
  have "\<forall>op. sys_close_dev (ops (fs k_F) op) = None" by (simp add: file_F no_ops_def)
  from open_then_close [OF open_F _ this] open_F show ?thesis by auto
qed

theorem sys_open_checks_witness:
  "sys_open path_F 12 k_F = Some (- EEXIST, k_F)"
proof -
  have "open_error names_F [0x46] 12 k_F = Some (- EEXIST)"
    unfolding open_error_def find_F Let_def using fds_F(2) [of 0] by (auto simp: fds_F(1) intro: exI [of _ 0])
  then show ?thesis using sys_open_checks [OF names_F_ok path_F_ok, of 12] by (simp add: file_F no_ops_def)
qed

text \<open>The file is open with descriptor 0.\<close>

definition k_open :: kernel where "k_open = opened 2 O_RDWR k_F (fs k_F)"

lemma fds_open: "file_descriptors (current k_open) = [0 \<mapsto> 0]" "refs (fdt (fs k_open) v) = (if v = 0 then 1 else 0)"
    "logic_dev (fdt (fs k_open) 0) = Some 2"
  using fds_F by (simp_all add: k_open_def opened_def slots_F)

theorem reference_counts_kept_witness:
  "\<exists>k'. sys_dup 0 k_open = Some (1, k') \<and> refs_ok k' \<and> file_descriptors (current k') = [0 \<mapsto> 0, 1 \<mapsto> 0]"
proof -
  have "fd_count 10 [0 \<mapsto> 0] v \<le> (if v = 0 then 1 else 0)" for v :: int
  proof -
    have "{i :: int. 0 \<le> i \<and> i < 10 \<and> [0 \<mapsto> 0] i = Some v} = (if v = 0 then {0} else {})" by auto
    then show ?thesis by (simp add: fd_count_def)
  qed
  then have "refs_ok k_open" by (simp add: refs_ok_def fds_open fds_ok_def)
  moreover have "fd_slot k_open = 1" by (simp add: fd_slot_def fds_open scan.simps)
  ultimately show ?thesis using reference_counts_kept [of k_open, THEN conjunct1, rule_format, of 0 0] fds_open(1) by auto
qed

theorem sys_unlink_frees_witness:
  "\<exists>s'. sys_unlink path_F k_F = Some (0, k_F\<lparr>fs := s'\<rparr>) \<and> n_refs (dir s' 2) = -1 \<and>
    blocks_ok s' ([1..79] @ [0]) ([0 \<mapsto> [0]](0 := None)) \<and> dir_find (uld (mm k_F)) path_F s' 0 = Some MAX_FILES"
proof -
  define C where "C = [0 :: int \<mapsto> [0 :: int]]"
  have b: "blocks_ok (fs k_F) [1..79] C"
    using one_file_at by (simp add: C_def file_at_def k_F_def fs_F_def blocks_ok_def del: upto_rec_numeral)
  have c: "C (first_block (dir (fs k_F) 2)) = Some [0]" by (simp add: file_F C_def)
  have u: "\<forall>i. 0 \<le> i \<and> i < 10 \<and> names_F i = [0x46] \<longrightarrow> i = 2" by (simp add: names_F_def)
  have r: "sys_release_dev (ops (fs k_F) 2) = Some F_sys_release_file" by (simp add: file_F)
  obtain s' where "sys_unlink path_F k_F = Some (0, k_F\<lparr>fs := s'\<rparr>)" "n_refs (dir s' 2) = -1"
    "blocks_ok s' ([1..79] @ [0]) (C(first_block (dir (fs k_F) 2) := None))" "dir_find (uld (mm k_F)) path_F s' 0 = Some 10"
    using sys_unlink_frees [OF names_F_ok path_F_ok _ _ _ _ _ u b c file_F(1) r] file_F(4) by (auto simp: names_F_def simp del: upto_rec_numeral)
  then show ?thesis unfolding file_F(5) C_def by blast
qed

end
