(* ===== verification/Interrupts.thy ===== *)
theory Interrupts
  imports FileSys
begin

text \<open>
  \<open>zeos/interrupt.c\<close>: the interrupt descriptor table, the exception routines and the clock and
  keyboard routines. A routine that ends in \<open>while (1)\<close> has the outcome \<open>Halted\<close>; a routine
  that switches to another process has the outcome \<open>Switched\<close>, since \<open>task_switch\<close> returns to
  the user code of that process and never to its caller.
\<close>

unbundle bit_operations_syntax

section \<open>The interrupt descriptor table\<close>

record Gate =
  lowOffset :: "16 word"
  segmentSelector :: "16 word"
  gate_flags :: "16 word"
  highOffset :: "16 word"

record idt_state =
  idt :: "Gate arr"
  idtR :: Register
  idt_reg :: "Register option"

text \<open>The entry points of \<open>entry.S\<close>; the linker chooses their addresses.\<close>

datatype handler =
  H_divide_error | H_debug | H_nm1 | H_breakpoint | H_overflow | H_bounds_check | H_invalid_opcode |
  H_device_not_available | H_double_fault | H_coprocessor_segment_overrun | H_invalid_tss |
  H_segment_not_present | H_stack_exception | H_general_protection | H_page_fault | H_intel_reserved |
  H_floating_point_error | H_alignment_check | H_clock | H_keyboard | H_system_call

definition setInterruptHandler :: "int \<Rightarrow> 32 word \<Rightarrow> int \<Rightarrow> idt_state \<Rightarrow> idt_state" where
  "setInterruptHandler vector handler maxAccessibleFromPL s =
     (let flags = word_of_int (maxAccessibleFromPL * 2 ^ 13) OR 0x8E00
      in s\<lparr>idt := (idt s)(vector := \<lparr>lowOffset = lowWord handler, segmentSelector = KERNEL_CS,
           gate_flags = flags, highOffset = highWord handler\<rparr>)\<rparr>)"

definition setTrapHandler :: "int \<Rightarrow> 32 word \<Rightarrow> int \<Rightarrow> idt_state \<Rightarrow> idt_state" where
  "setTrapHandler vector handler maxAccessibleFromPL s =
     (let flags = word_of_int (maxAccessibleFromPL * 2 ^ 13) OR 0x8E00
      in s\<lparr>idt := (idt s)(vector := \<lparr>lowOffset = lowWord handler, segmentSelector = KERNEL_CS,
           gate_flags = flags, highOffset = highWord handler\<rparr>)\<rparr>)"

definition set_idt_reg :: "Register \<Rightarrow> idt_state \<Rightarrow> idt_state" where [simp]:
  "set_idt_reg r s = s\<lparr>idt_reg := Some r\<rparr>"

definition setIdt :: "32 word \<Rightarrow> (handler \<Rightarrow> 32 word) \<Rightarrow> idt_state \<Rightarrow> idt_state" where
  "setIdt base haddr s = (
     let s = s\<lparr>idtR := \<lparr>reg_limit = 256 * 8 - 1, reg_base = base\<rparr>\<rparr>;
     s = setInterruptHandler 0 (haddr H_divide_error) 0 s;
     s = setInterruptHandler 1 (haddr H_debug) 0 s;
     s = setInterruptHandler 2 (haddr H_nm1) 0 s;
     s = setInterruptHandler 3 (haddr H_breakpoint) 0 s;
     s = setInterruptHandler 4 (haddr H_overflow) 0 s;
     s = setInterruptHandler 5 (haddr H_bounds_check) 0 s;
     s = setInterruptHandler 6 (haddr H_invalid_opcode) 0 s;
     s = setInterruptHandler 7 (haddr H_device_not_available) 0 s;
     s = setInterruptHandler 8 (haddr H_double_fault) 0 s;
     s = setInterruptHandler 9 (haddr H_coprocessor_segment_overrun) 0 s;
     s = setInterruptHandler 10 (haddr H_invalid_tss) 0 s;
     s = setInterruptHandler 11 (haddr H_segment_not_present) 0 s;
     s = setInterruptHandler 12 (haddr H_stack_exception) 0 s;
     s = setInterruptHandler 13 (haddr H_general_protection) 0 s;
     s = setInterruptHandler 14 (haddr H_page_fault) 0 s;
     s = setInterruptHandler 15 (haddr H_intel_reserved) 0 s;
     s = setInterruptHandler 16 (haddr H_floating_point_error) 0 s;
     s = setInterruptHandler 17 (haddr H_alignment_check) 0 s;
     s = setInterruptHandler 32 (haddr H_clock) 0 s;
     s = setInterruptHandler 33 (haddr H_keyboard) 0 s;
     s = setTrapHandler 128 (haddr H_system_call) 3 s
     in set_idt_reg (idtR s) s)"

section \<open>Exceptions\<close>

definition cstr :: "string \<Rightarrow> 8 word list" where
  "cstr = map of_char"

definition say :: "8 word list \<Rightarrow> kernel \<Rightarrow> kernel" where
  "say msg k = k\<lparr>scr := printk msg (scr k)\<rparr>"

definition divide_error_routine :: "kernel \<Rightarrow> unit routine_result" where
  "divide_error_routine k = Some (Halted, say (cstr (''Exeption n.0: Divide error'' @ [CHR 0x0A])) k)"

definition debug_routine :: "kernel \<Rightarrow> unit routine_result" where
  "debug_routine k = Some (Halted, say (cstr (''Exeption n.1: Debug'' @ [CHR 0x0A])) k)"

definition nm1_routine :: "kernel \<Rightarrow> unit routine_result" where
  "nm1_routine k = Some (Halted, say (cstr (''Exeption n.2: NM1'' @ [CHR 0x0A])) k)"

definition breakpoint_routine :: "kernel \<Rightarrow> unit routine_result" where
  "breakpoint_routine k = Some (Halted, say (cstr (''Exeption n.3: Breakpoint'' @ [CHR 0x0A])) k)"

definition overflow_routine :: "kernel \<Rightarrow> unit routine_result" where
  "overflow_routine k = Some (Halted, say (cstr (''Exeption n.4: Overflow'' @ [CHR 0x0A])) k)"

definition bounds_check_routine :: "kernel \<Rightarrow> unit routine_result" where
  "bounds_check_routine k = Some (Halted, say (cstr (''Exeption n.5: Bounds Check'' @ [CHR 0x0A])) k)"

definition invalid_opcode_routine :: "kernel \<Rightarrow> unit routine_result" where
  "invalid_opcode_routine k = Some (Halted, say (cstr (''Exeption n.6: Invalid Opcode'' @ [CHR 0x0A])) k)"

definition device_not_available_routine :: "kernel \<Rightarrow> unit routine_result" where
  "device_not_available_routine k = Some (Halted, say (cstr (''Exeption n.7: Device not Available'' @ [CHR 0x0A])) k)"

definition double_fault_routine :: "kernel \<Rightarrow> unit routine_result" where
  "double_fault_routine k = Some (Halted, say (cstr (''Exeption n.8: Double Fault'' @ [CHR 0x0A])) k)"

definition coprocessor_segment_overrun_routine :: "kernel \<Rightarrow> unit routine_result" where
  "coprocessor_segment_overrun_routine k = Some (Halted, say (cstr (''Exeption n.9: Coprocessor Segment Overrun'' @ [CHR 0x0A])) k)"

definition invalid_tss_routine :: "kernel \<Rightarrow> unit routine_result" where
  "invalid_tss_routine k = Some (Halted, say (cstr (''Exeption n.10: Invalid TSS'' @ [CHR 0x0A])) k)"

definition segment_not_present_routine :: "kernel \<Rightarrow> unit routine_result" where
  "segment_not_present_routine k = Some (Halted, say (cstr (''Exeption n.11: Segment not Present'' @ [CHR 0x0A])) k)"

definition stack_exception_routine :: "kernel \<Rightarrow> unit routine_result" where
  "stack_exception_routine k = Some (Halted, say (cstr (''Exeption n.12: Stack Exception'' @ [CHR 0x0A])) k)"

definition general_protection_routine :: "kernel \<Rightarrow> unit routine_result" where
  "general_protection_routine k = Some (Halted, say (cstr (''Exeption n.13: General protection'' @ [CHR 0x0A])) k)"

definition page_fault_routine :: "kernel \<Rightarrow> unit routine_result" where
  "page_fault_routine k =
     (let pid_fault = pid (current k);
          k = say (cstr (''PAGE FAULT:'' @ [CHR 0x0A] @ ''The process with PID='')) k;
          k = k\<lparr>scr := printc (word_of_int (48 + pid_fault)) (scr k)\<rparr>;
          k = say (cstr ('' generated this exception and has been terminated'' @ [CHR 0x0A])) k
      in if pid_fault \<noteq> 0 then sys_exit k else Some (Halted, k))"

definition floating_point_error_routine :: "kernel \<Rightarrow> unit routine_result" where
  "floating_point_error_routine k = Some (Halted, say (cstr (''Exeption n.16: Floating Point Error'' @ [CHR 0x0A])) k)"

definition alignment_check_routine :: "kernel \<Rightarrow> unit routine_result" where
  "alignment_check_routine k = Some (Halted, say (cstr (''Exeption n.17: Alignment check'' @ [CHR 0x0A])) k)"

text \<open>What the processor runs for an exception vector; \<open>intel_reserved_handler\<close> calls nothing.\<close>

definition exception_routine :: "int \<Rightarrow> kernel \<Rightarrow> unit routine_result" where
  "exception_routine v = (if v = 15 then (\<lambda>k. Some (Return (), k))
     else the (map_of [(0, divide_error_routine), (1, debug_routine), (2, nm1_routine), (3, breakpoint_routine), (4, overflow_routine), (5, bounds_check_routine), (6, invalid_opcode_routine), (7, device_not_available_routine), (8, double_fault_routine), (9, coprocessor_segment_overrun_routine), (10, invalid_tss_routine), (11, segment_not_present_routine), (12, stack_exception_routine), (13, general_protection_routine), (14, page_fault_routine), (16, floating_point_error_routine), (17, alignment_check_routine)] v))"

section \<open>The clock\<close>

definition iniTics :: "kernel \<Rightarrow> kernel" where
  "iniTics k = k\<lparr>tics := -1\<rparr>"

text \<open>\<open>itoa (num, &time[off])\<close>.\<close>

definition itoa_at :: "int \<Rightarrow> int \<Rightarrow> 8 word arr \<Rightarrow> 8 word arr" where
  "itoa_at off num t = (let u = itoa num (\<lambda>j. t (off + j)) in (\<lambda>i. u (i - off)))"

definition show_time :: "kernel \<Rightarrow> kernel" where
  "show_time k =
     (if cmod (tics k) 18 = 0 then
        let seconds = cdiv (tics k) 18;
            minutes = cdiv seconds 60;
            seconds = cmod seconds 60;
            (k, minutes) = (if minutes > 59 then (k\<lparr>tics := 0\<rparr>, 0) else (k, minutes));
            time = (\<lambda>_. 0)(0 := 48, 1 := 48, 2 := 58, 3 := 48, 4 := 48, 5 := 0);
            time = itoa_at 0 (cdiv minutes 10) time;
            time = itoa_at 1 (cmod minutes 10) time;
            time = itoa_at 3 (cdiv seconds 10) time;
            time = itoa_at 4 (cmod seconds 10) time
        in k\<lparr>scr := printk_xy 72 8 (map time [0..5]) (scr k)\<rparr>
      else k)"

definition clock_routine :: "kernel \<Rightarrow> unit routine_result" where
  "clock_routine k = do {
     let old_task = cur k;
     let k = k\<lparr>tics := s32 (tics k + 1), left4current := s32 (left4current k - 1)\<rparr>;
     let k = upd_task old_task (\<lambda>t. t\<lparr>cpu_tics := s32 (cpu_tics t + 1), remaining := s32 (remaining t - 1)\<rparr>) k;
     (out, k) \<leftarrow> schedule 1 k;
     case out of
       Return _ \<Rightarrow> Some (Return (), show_time k)
     | Switched \<Rightarrow> Some (Switched, k)
     | Halted \<Rightarrow> Some (Halted, k)
   }"

section \<open>The keyboard\<close>

definition char_map :: "8 word list" where
  "char_map = [
     0x00, 0x00, 0x31, 0x32, 0x33, 0x34, 0x35, 0x36, 0x37, 0x38, 0x39, 0x30, 0x27, 0xA1,
     0x00, 0x00, 0x71, 0x77, 0x65, 0x72, 0x74, 0x79, 0x75, 0x69, 0x6F, 0x70, 0x60, 0x2B,
     0x00, 0x00, 0x61, 0x73, 0x64, 0x66, 0x67, 0x68, 0x6A, 0x6B, 0x6C, 0xB1, 0x00, 0xBA,
     0x00, 0xA7, 0x7A, 0x78, 0x63, 0x76, 0x62, 0x6E, 0x6D, 0x2C, 0x2E, 0x2D, 0x00, 0x2A,
     0x00, 0x00, 0x00, 0x00, 0x00, 0x00, 0x00, 0x00, 0x00, 0x00, 0x00, 0x00, 0x00, 0x00,
     0x00, 0x37, 0x38, 0x39, 0x2D, 0x34, 0x35, 0x36, 0x2B, 0x31, 0x32, 0x33, 0x30, 0x00,
     0x00, 0x00, 0x3C, 0x00, 0x00, 0x00, 0x00, 0x00, 0x00, 0x00, 0x00, 0x00, 0x00, 0x00]"

text \<open>The index of \<open>char_map\<close> comes from the scan code and is not checked against its 98 entries.\<close>

definition keyboard_routine :: "8 word \<Rightarrow> kernel \<Rightarrow> kernel option" where
  "keyboard_routine i k = do {
     c \<leftarrow> rd 98 (\<lambda>j. char_map ! nat j) (uint (i AND 0x7F));
     if i AND 0x80 = 0 then do {
       cb \<leftarrow> wr CIRCULAR_SIZE (circular k) (kp k) c;
       let k = step_circ_buffer (k\<lparr>circular := cb\<rparr>);
       let k = k\<lparr>circ_chars := circ_chars k + 1\<rparr>;
       if \<not> list_empty (lists k) KbdQ then do {
         blocked \<leftarrow> list_head_to_task_struct (nxt (lists k) KbdQ);
         let k = upd_task blocked (\<lambda>t. t\<lparr>pending_chars := pending_chars t - 1\<rparr>) k;
         if pending_chars (task k blocked) \<le> 0 then do {
           k \<leftarrow> copy_from_circ_buffer blocked (t_size (task k blocked)) k;
           unblock_and_enqueque blocked (k\<lparr>circ_chars := 0, kstart := kp k\<rparr>)
         }
         else if circ_chars k \<ge> CIRCULAR_SIZE then do {
           k \<leftarrow> copy_from_circ_buffer blocked CIRCULAR_SIZE k;
           let k = upd_task blocked (\<lambda>t. t\<lparr>t_size := t_size t - circ_chars k, t_buffer := t_buffer t + circ_chars k\<rparr>) k;
           Some (k\<lparr>circ_chars := 0, kstart := kp k\<rparr>)
         }
         else Some k
       }
       else Some (k\<lparr>scr := printc c (scr k)\<rparr>)
     }
     else Some k
   }"

section \<open>The gates\<close>

definition gate_addr :: "Gate \<Rightarrow> 32 word" where
  "gate_addr g = ucast (lowOffset g) OR push_bit 16 (ucast (highOffset g))"

definition gate_dpl :: "Gate \<Rightarrow> 16 word" where
  "gate_dpl g = drop_bit 13 (gate_flags g) AND 3"

definition vectors :: "(int \<times> handler) list" where
  "vectors = [(0, H_divide_error), (1, H_debug), (2, H_nm1), (3, H_breakpoint), (4, H_overflow), (5, H_bounds_check), (6, H_invalid_opcode), (7, H_device_not_available), (8, H_double_fault), (9, H_coprocessor_segment_overrun), (10, H_invalid_tss), (11, H_segment_not_present), (12, H_stack_exception), (13, H_general_protection), (14, H_page_fault), (15, H_intel_reserved), (16, H_floating_point_error), (17, H_alignment_check), (32, H_clock), (33, H_keyboard), (128, H_system_call)]"

lemma gate_addr_parts: "ucast (lowWord a) OR push_bit 16 (ucast (highWord a)) = (a :: 32 word)"
proof (rule bit_word_eqI)
  fix n
  assume "n < LENGTH(32)"
  then show "bit (ucast (lowWord a) OR push_bit 16 (ucast (highWord a)) :: 32 word) n = bit a n"
    by (cases "n < 16") (auto simp: lowWord_def highWord_def word_masks bit_simps)
qed

text \<open>The gate that both functions write.\<close>

definition gate :: "32 word \<Rightarrow> int \<Rightarrow> Gate" where
  "gate a pl = \<lparr>lowOffset = lowWord a, segmentSelector = KERNEL_CS, gate_flags = word_of_int (pl * 2 ^ 13) OR 0x8E00,
     highOffset = highWord a\<rparr>"

lemma set_handler_gate:
  "setInterruptHandler v a pl s = s\<lparr>idt := (idt s)(v := gate a pl)\<rparr>" "setTrapHandler v a pl s = s\<lparr>idt := (idt s)(v := gate a pl)\<rparr>"
  by (simp_all add: setInterruptHandler_def setTrapHandler_def gate_def)

lemma gate_fields:
  "gate_addr (gate a pl) = a" "segmentSelector (gate a pl) = KERNEL_CS" "gate_dpl (gate a 0) = 0" "gate_dpl (gate a 3) = 3"
  "bit (gate_flags (gate a 0)) 15" "bit (gate_flags (gate a 3)) 15"
  by (simp_all add: gate_addr_def gate_def gate_addr_parts gate_dpl_def bit_or_iff)

text \<open>C35: after \<open>setIdt\<close> the gate of every vector leads to the handler for it in the kernel code segment and is present;
  only the system call gate (128) can be used from user mode, and the IDT register covers all 256 gates.\<close>

theorem setIdt_gates:
  "list_all (\<lambda>(v, h). gate_addr (idt (setIdt base haddr s) v) = haddr h \<and> segmentSelector (idt (setIdt base haddr s) v) = KERNEL_CS \<and>
      bit (gate_flags (idt (setIdt base haddr s) v)) 15 \<and>
      gate_dpl (idt (setIdt base haddr s) v) = (if v = 128 then 3 else 0)) vectors \<and>
   (\<forall>v. if v \<in> fst ` set vectors then True else idt (setIdt base haddr s) v = idt s v) \<and>
   idt_reg (setIdt base haddr s) = Some \<lparr>reg_limit = 2047, reg_base = base\<rparr>"
proof -
  have v: "fst ` set vectors = {0, 1, 2, 3, 4, 5, 6, 7, 8, 9, 10, 11, 12, 13, 14, 15, 16, 17, 32, 33, 128}" by (simp add: vectors_def)
  show ?thesis unfolding v by (simp add: vectors_def setIdt_def set_handler_gate gate_fields Let_def)
qed

section \<open>The clock display\<close>

lemma itoa_digit:
  assumes "0 \<le> d" "d < 10"
  shows "itoa d t = (if d = 0 then t else t(0 := word_of_int (d + 48)))"
proof -
  have d: "d div 10 = 0" "d mod 10 = d" using assms by simp_all
  have dg: "itoa_digits d = (if d = 0 then 0 else 1)" using assms d by (simp add: itoa_digits.simps [of d] itoa_digits.simps [of 0])
  show ?thesis
    unfolding itoa_def dg using assms d by (auto simp: itoa_write.simps [of 1] itoa_write.simps [of 0])
qed

lemma itoa_at_digit:
  assumes "0 \<le> d" "d < 10" "t off = 48"
  shows "itoa_at off d t = t(off := word_of_int (d + 48))"
proof
  fix i
  show "itoa_at off d t i = (t(off := word_of_int (d + 48))) i"
    using assms(3) by (auto simp: itoa_at_def itoa_digit [OF assms(1,2)] Let_def)
qed

definition clock_text :: "int \<Rightarrow> 8 word list" where
  "clock_text secs = map word_of_int [secs div 600 + 48, secs div 60 mod 10 + 48, 58, secs mod 60 div 10 + 48, secs mod 10 + 48]"

text \<open>Every 18 tics the clock shows the elapsed minutes and seconds as two decimal digits each, separated by a
  colon, at column 72 of row 8, and starts again after one hour; at other tics it shows nothing new.\<close>

theorem show_time_displays:
  assumes "0 \<le> tics k" "tics k < 18 * 3601"
  shows "show_time k =
    (if tics k mod 18 = 0
     then let secs = tics k div 18 mod 3600
          in k\<lparr>tics := (if tics k div 18 = 3600 then 0 else tics k), scr := printk_xy 72 8 (clock_text secs) (scr k)\<rparr>
     else k)"
proof (cases "tics k mod 18 = 0")
  case True
  define n where "n = tics k div 18"
  have n: "0 \<le> n" "n \<le> 3600" "tics k = 18 * n" using assms True by (auto simp: n_def)
  define m where "m = (if n = 3600 then 0 else n div 60)"
  define sc where "sc = n mod 60"
  have m: "0 \<le> m" "m < 60" "0 \<le> sc" "sc < 60" using n by (auto simp: m_def sc_def)
  let ?t0 = "(\<lambda>_. 0 :: 8 word)(0 := 48, 1 := 48, 2 := 58, 3 := 48, 4 := 48, 5 := 0)"
  have "itoa_at 4 (sc mod 10) (itoa_at 3 (sc div 10) (itoa_at 1 (m mod 10) (itoa_at 0 (m div 10) ?t0))) =
    ?t0(0 := word_of_int (m div 10 + 48), 1 := word_of_int (m mod 10 + 48), 3 := word_of_int (sc div 10 + 48), 4 := word_of_int (sc mod 10 + 48))"
    using m by (simp add: itoa_at_digit)
  then have tx: "map (itoa_at 4 (sc mod 10) (itoa_at 3 (sc div 10) (itoa_at 1 (m mod 10) (itoa_at 0 (m div 10) ?t0)))) [0..5] =
    [word_of_int (m div 10 + 48), word_of_int (m mod 10 + 48), 58, word_of_int (sc div 10 + 48), word_of_int (sc mod 10 + 48), 0]"
    by (simp add: upto_rec1 fun_upd_def)
  have dm: "n div 60 div 10 = n div 600" "n mod 60 mod 10 = n mod 10" by (simp_all add: zdiv_zmult2_eq [symmetric] mod_mod_cancel)
  have ct: "clock_text (n mod 3600) =
    [word_of_int (m div 10 + 48), word_of_int (m mod 10 + 48), 58, word_of_int (sc div 10 + 48), word_of_int (sc mod 10 + 48)]"
  proof (cases "n = 3600")
    case True
    then show ?thesis by (simp add: clock_text_def m_def sc_def)
  next
    case False
    then have "n mod 3600 = n" using n by (intro mod_pos_pos_trivial) linarith+
    then show ?thesis using False by (simp add: clock_text_def m_def sc_def dm)
  qed
  have pk: "printk_xy 72 8 (xs @ [0]) scn = printk_xy 72 8 xs scn" for xs scn
  proof -
    have "printk_xy x y (xs @ [0]) scn = printk_xy x y xs scn" for x y
      by (induction xs arbitrary: x scn) simp_all
    then show ?thesis .
  qed
  have gt: "n div 60 > 59 \<longleftrightarrow> n = 3600" using n by auto
  have t: "cmod (tics k) 18 = 0" "cdiv (tics k) 18 = n" "cdiv n 60 = n div 60" "cmod n 60 = sc" "cdiv m 10 = m div 10" "cmod m 10 = m mod 10"
    "cdiv sc 10 = sc div 10" "cmod sc 10 = sc mod 10"
    using n m by (simp_all add: sc_def)
  have "show_time k = k\<lparr>tics := (if n = 3600 then 0 else tics k), scr := printk_xy 72 8
      (map (itoa_at 4 (sc mod 10) (itoa_at 3 (sc div 10) (itoa_at 1 (m mod 10) (itoa_at 0 (m div 10) ?t0)))) [0..5]) (scr k)\<rparr>"
  proof (cases "n = 3600")
    case True
    then have "m = 0" by (simp add: m_def)
    then show ?thesis unfolding show_time_def t Let_def gt using t True by simp
  next
    case False
    then have "m = n div 60" by (simp add: m_def)
    then show ?thesis unfolding show_time_def t Let_def gt using t False by simp
  qed
  also have "\<dots> = k\<lparr>tics := (if n = 3600 then 0 else tics k), scr := printk_xy 72 8 (clock_text (n mod 3600)) (scr k)\<rparr>"
    unfolding tx ct using pk [of "clock_text (n mod 3600)"] unfolding ct by simp
  finally show ?thesis using True by (simp add: n_def [symmetric] Let_def)
qed (use assms in \<open>simp add: show_time_def\<close>)

theorem show_time_displays_witness:
  "show_time (blank_kernel\<lparr>tics := 18 * 754\<rparr>) =
     blank_kernel\<lparr>tics := 18 * 754, scr := printk_xy 72 8 [0x31, 0x32, 0x3A, 0x33, 0x34] (scr blank_kernel)\<rparr>"
  using show_time_displays [of "blank_kernel\<lparr>tics := 18 * 754\<rparr>"] by (simp add: clock_text_def)

end
