(* ===== verification/Keyboard.thy ===== *)
theory Keyboard
  imports Interrupts
begin

text \<open>
  What the keyboard promises to a process that reads from it: the process blocks, each key press
  brings it one character closer, and when the last one arrives its buffer holds the characters
  in the order they were typed and it is back in the run queue with the number of characters as
  the result of the call.
\<close>

unbundle bit_operations_syntax

section \<open>Data\<close>

definition make_code :: "8 word \<Rightarrow> bool" where
  "make_code i \<longleftrightarrow> uint i < 98"

definition key_char :: "8 word \<Rightarrow> 8 word" where
  "key_char i = char_map ! nat (uint i)"

text \<open>The bytes of a process in its own data pages.\<close>

definition proc_bytes :: "kernel \<Rightarrow> int \<Rightarrow> int \<Rightarrow> nat \<Rightarrow> 8 word list" where
  "proc_bytes k b u n = map (\<lambda>i. ram (mm k) (proc_addr (task k b) (u + int i))) [0..<n]"

fun press_all :: "8 word list \<Rightarrow> kernel \<Rightarrow> kernel option" where
  "press_all [] k = Some k"
| "press_all (i # is) k = Option.bind (keyboard_routine i k) (press_all is)"

text \<open>
  The first process of the keyboard queue reads \<open>n\<close> characters to \<open>u\<close> and has got \<open>cs\<close>: the whole
  fives are in its memory, the rest is in the circular buffer.
\<close>

definition kbd_wait :: "kernel \<Rightarrow> int \<Rightarrow> int \<Rightarrow> int \<Rightarrow> 8 word list \<Rightarrow> bool" where
  "kbd_wait k b u n cs \<longleftrightarrow>
     (let j = int (length cs); r = j mod 5; full = j - r
      in j < n \<and> pending_chars (task k b) = n - j \<and> circ_chars k = r \<and> t_size (task k b) = n - full \<and>
         t_buffer (task k b) = u + full \<and> 0 \<le> kstart k \<and> kstart k < 5 \<and> kp k = (kstart k + r) mod 5 \<and>
         (\<forall>i. 0 \<le> i \<and> i < r \<longrightarrow> circular k ((kstart k + i) mod 5) = cs ! nat (full + i)) \<and>
         proc_bytes k b u (nat full) = take (nat full) cs)"

section \<open>Shared facts\<close>

lemma make_code_bits:
  assumes "make_code i"
  shows "i AND 0x7F = i" and "i AND 0x80 = 0"
proof -
  have u: "uint i < 128" using assms by (simp add: make_code_def)
  have "i AND 0x7F = take_bit 7 i" by (simp add: take_bit_eq_mask mask_eq_exp_minus_1)
  then have "uint (i AND 0x7F) = uint i" using u by (simp add: unsigned_take_bit_eq take_bit_int_eq_self_iff)
  then show "i AND 0x7F = i" by (simp only: unsigned_word_eqI)
  then have "i AND 0x80 = (i AND 0x7F) AND 0x80" by simp
  also have "\<dots> = i AND (0x7F AND 0x80)" by (simp only: and.assoc)
  finally show "i AND 0x80 = 0" by simp
qed

lemma frames_ok_cong:
  assumes "phys_mem (mm k') = phys_mem (mm k)" "\<And>i. pid (task k' i) = pid (task k i)" "\<And>i. ph_pages (task k' i) = ph_pages (task k i)"
  shows "frames_ok k' = frames_ok k"
  using assms owned_cong [OF assms(1)] by (simp add: frames_ok_def live_def)

lemma proc_addr_cong: "ph_pages t = ph_pages t' \<Longrightarrow> proc_addr t = proc_addr t'"
  by (simp add: proc_addr_def fun_eq_iff)

lemma nth_proc_bytes: "i < n \<Longrightarrow> proc_bytes k b u n ! i = ram (mm k) (proc_addr (task k b) (u + int i))"
  by (simp add: proc_bytes_def)

lemma length_proc_bytes [simp]: "length (proc_bytes k b u n) = n"
  by (simp add: proc_bytes_def)

text \<open>Delivering the \<open>m\<close> characters of the circular buffer after the first \<open>d\<close> extends what the process has.\<close>

lemma deliver:
  assumes fo: "frames_ok k" "live k b" and m: "0 \<le> m" "m \<le> 5" and s: "0 \<le> kstart k"
    and u: "1081344 \<le> u" "0 \<le> d" "u + d + m \<le> 1163264" "t_buffer (task k b) = u + d"
    and old: "proc_bytes k b u (nat d) = take (nat d) cs" "length cs = nat (d + m)"
    and circ: "\<And>i. 0 \<le> i \<Longrightarrow> i < m \<Longrightarrow> circular k ((kstart k + i) mod 5) = cs ! nat (d + i)"
  obtains r t where "copy_from_circ_buffer b m k = Some (k\<lparr>mm := (mm k)\<lparr>ram := r, pagusr_table := t, cr3 := dir_pages_addr (lay k)\<rparr>\<rparr>)"
    and "proc_bytes (k\<lparr>mm := (mm k)\<lparr>ram := r, pagusr_table := t, cr3 := dir_pages_addr (lay k)\<rparr>\<rparr>) b u (nat (d + m)) = cs"
    and "\<forall>p. p < 284 \<longrightarrow> t p = pagusr_table (mm k) p"
proof -
  let ?a = "\<lambda>i. proc_addr (task k b) (u + i)"
  obtain r t where c: "copy_from_circ_buffer b m k = Some (k\<lparr>mm := (mm k)\<lparr>ram := r, pagusr_table := t, cr3 := dir_pages_addr (lay k)\<rparr>\<rparr>)"
    "\<forall>i. 0 \<le> i \<and> i < m \<longrightarrow> r (proc_addr (task k b) (u + d + i)) = circular k ((kstart k + i) mod 5)"
    "\<forall>pa. pa \<notin> (\<lambda>i. proc_addr (task k b) (u + d + i)) ` {0..<m} \<longrightarrow> r pa = ram (mm k) pa"
    "\<forall>p. p < 284 \<longrightarrow> t p = pagusr_table (mm k) p"
    using copy_from_circ_buffer_ok [OF fo m s] u by (auto simp: add.assoc)
  let ?k = "k\<lparr>mm := (mm k)\<lparr>ram := r, pagusr_table := t, cr3 := dir_pages_addr (lay k)\<rparr>\<rparr>"
  have "proc_bytes ?k b u (nat (d + m)) = cs"
  proof (rule nth_equalityI)
    fix i
    assume "i < length (proc_bytes ?k b u (nat (d + m)))"
    then have i: "int i < d + m" by simp
    show "proc_bytes ?k b u (nat (d + m)) ! i = cs ! i"
    proof (cases "int i < d")
      case True
      have "?a (int i) \<notin> (\<lambda>i. proc_addr (task k b) (u + d + i)) ` {0..<m}"
      proof
        assume "?a (int i) \<in> (\<lambda>i. proc_addr (task k b) (u + d + i)) ` {0..<m}"
        then obtain j where j: "0 \<le> j" "j < m" "?a (int i) = proc_addr (task k b) (u + d + j)" by auto
        have "u + int i = u + d + j" by (rule proc_addr_inj [OF fo _ _ _ _ j(3)]) (use u j True in linarith)+
        then show False using True j by simp
      qed
      then have "r (?a (int i)) = ram (mm k) (?a (int i))" using c(3) by blast
      moreover have "ram (mm k) (?a (int i)) = cs ! i"
        using arg_cong [OF old(1), of "\<lambda>l. l ! i"] True by (simp add: nth_proc_bytes)
      ultimately show ?thesis using i by (simp add: nth_proc_bytes)
    next
      case False
      have "r (proc_addr (task k b) (u + d + (int i - d))) = circular k ((kstart k + (int i - d)) mod 5)"
        by (rule c(2) [rule_format]) (use False i in linarith)
      moreover have "circular k ((kstart k + (int i - d)) mod 5) = cs ! nat (d + (int i - d))"
        by (rule circ) (use False i in linarith)+
      ultimately show ?thesis using i by (simp add: nth_proc_bytes)
    qed
  qed (simp add: old)
  from that [OF c(1) this c(4)] show ?thesis .
qed

section \<open>One key\<close>

lemma keyboard_routine_eq:
  assumes m: "make_code i" and kp: "0 \<le> kp k" "kp k < 5" and ne: "\<not> list_empty (lists k) KbdQ" and b: "nxt (lists k) KbdQ = Some (TaskL b)"
  defines "k1 \<equiv> upd_task b (\<lambda>t. t\<lparr>pending_chars := pending_chars t - 1\<rparr>)
     (k\<lparr>circular := (circular k)(kp k := key_char i), kp := (kp k + 1) mod 5, circ_chars := circ_chars k + 1\<rparr>)"
  shows "keyboard_routine i k =
    (if pending_chars (task k b) \<le> 1 then Option.bind (copy_from_circ_buffer b (t_size (task k b)) k1)
        (\<lambda>k. unblock_and_enqueque b (k\<lparr>circ_chars := 0, kstart := kp k\<rparr>))
     else if circ_chars k \<ge> 4 then Option.bind (copy_from_circ_buffer b 5 k1)
        (\<lambda>k. Some ((upd_task b (\<lambda>t. t\<lparr>t_size := t_size t - circ_chars k, t_buffer := t_buffer t + circ_chars k\<rparr>) k)
          \<lparr>circ_chars := 0, kstart := kp k\<rparr>))
     else Some k1)"
proof -
  have "(if kp k = 4 then 0 else kp k + 1) = (kp k + 1) mod 5" using kp by auto
  then show ?thesis
    using kp ne b make_code_bits [OF m] m
    by (simp add: keyboard_routine_def k1_def step_circ_buffer_def make_code_def key_char_def upd_task_def Let_def cong: if_cong)
qed

lemma kbd_waitD:
  assumes "kbd_wait k b u n cs"
  defines "j \<equiv> int (length cs)" and "r \<equiv> int (length cs) mod 5"
  shows "j < n" "pending_chars (task k b) = n - j" "circ_chars k = r" "t_size (task k b) = n - (j - r)"
    "t_buffer (task k b) = u + (j - r)" "0 \<le> kstart k" "kstart k < 5" "kp k = (kstart k + r) mod 5"
    "\<forall>i. 0 \<le> i \<and> i < r \<longrightarrow> circular k ((kstart k + i) mod 5) = cs ! nat (j - r + i)"
    "proc_bytes k b u (nat (j - r)) = take (nat (j - r)) cs" "0 \<le> r" "r \<le> 4" "r \<le> j"
  using assms(1) zmod_le_nonneg_dividend [of "int (length cs)" 5] unfolding kbd_wait_def Let_def j_def r_def by simp_all

text \<open>The character of a key goes after those already in the circular buffer.\<close>

lemma kbd_wait_circ:
  assumes w: "kbd_wait k b u n cs"
  defines "j \<equiv> int (length cs)" and "r \<equiv> int (length cs) mod 5"
  assumes i: "0 \<le> i" "i < r + 1"
  shows "((circular k)(kp k := c)) ((kstart k + i) mod 5) = (cs @ [c]) ! nat (j - r + i)"
proof (cases "i = r")
  case True
  then show ?thesis using kbd_waitD(8) [OF w] by (simp add: j_def r_def)
next
  case False
  note W = kbd_waitD [OF w, folded j_def r_def]
  have ir: "i < r" using False i by simp
  have "(kstart k + i) mod 5 \<noteq> (kstart k + r) mod 5"
  proof
    assume "(kstart k + i) mod 5 = (kstart k + r) mod 5"
    then have "5 dvd (r - i)" by (metis add_diff_cancel_left mod_eq_dvd_iff)
    then show False using ir i W(12) by (auto dest: zdvd_imp_le)
  qed
  moreover have "nat (j - r + i) < length cs" using ir i(1) W(13) by (simp add: j_def)
  ultimately show ?thesis using W(8,9) ir i(1) by (simp add: nth_append)
qed

lemma kbd_wait_next:
  assumes w: "kbd_wait k b u n cs" and more: "int (length cs) + 1 < n" and not_full: "int (length cs) mod 5 < 4"
    and k': "pending_chars (task k' b) = pending_chars (task k b) - 1" "circ_chars k' = circ_chars k + 1"
      "t_size (task k' b) = t_size (task k b)" "t_buffer (task k' b) = t_buffer (task k b)" "kstart k' = kstart k"
      "kp k' = (kp k + 1) mod 5" "circular k' = (circular k)(kp k := c)" "ram (mm k') = ram (mm k)"
      "ph_pages (task k' b) = ph_pages (task k b)"
  shows "kbd_wait k' b u n (cs @ [c])"
proof -
  define j r where "j = int (length cs)" and "r = int (length cs) mod 5"
  note W = kbd_waitD [OF w, folded j_def r_def] and circ = kbd_wait_circ [OF w, folded j_def r_def]
  have r4: "r < 4" using not_full by (simp add: r_def)
  have r1: "(j + 1) mod 5 = r + 1"
  proof -
    have "j + 1 = 5 * (j div 5) + (r + 1)" by (simp add: r_def j_def)
    then have "(j + 1) mod 5 = (r + 1) mod 5" by (metis mod_mult_self4 add.commute mult.commute)
    then show ?thesis using W(11) r4 by simp
  qed
  have pb: "proc_bytes k' b u m = proc_bytes k b u m" for m
    unfolding proc_bytes_def k'(8) using proc_addr_cong [OF k'(9)] by simp
  have l: "int (length (cs @ [c])) = j + 1" "j + 1 - (r + 1) = j - r" by (simp_all add: j_def)
  have t: "take (nat (j - r)) (cs @ [c]) = take (nat (j - r)) cs" using W(11) by (simp add: j_def nat_le_iff)
  show ?thesis
    unfolding kbd_wait_def Let_def l r1 t pb k'(1-7)
    using W(1-8,10) more [folded j_def] circ by (simp add: mod_simps add_ac)
qed

text \<open>With five characters in the buffer they are delivered and the buffer is empty again.\<close>

lemma kbd_wait_five:
  assumes more: "int (length cs) < n" and five: "int (length cs) mod 5 = 0"
    and k': "pending_chars (task k' b) = n - int (length cs)" "circ_chars k' = 0" "t_size (task k' b) = n - int (length cs)"
      "t_buffer (task k' b) = u + int (length cs)" "0 \<le> kp k'" "kp k' < 5" "kstart k' = kp k'"
      "proc_bytes k' b u (length cs) = cs"
  shows "kbd_wait k' b u n cs"
  unfolding kbd_wait_def Let_def five using assms by auto

lemma unblock_ok:
  assumes q: "queues k Q" and w: "Q KbdQ = Some (TaskL b # ws)" and rq: "Q RunQ = Some rq"
  obtains h where "unblock_and_enqueque b k = Some (k\<lparr>lists := h\<rparr>)" and "queues (k\<lparr>lists := h\<rparr>) (Q(KbdQ \<mapsto> ws, RunQ \<mapsto> rq @ [TaskL b]))"
proof -
  note r = queues_rings [OF q]
  let ?Q = "Q(KbdQ \<mapsto> ws, RunQ \<mapsto> rq @ [TaskL b])"
  obtain h1 h where h: "list_del (lists k) (TaskL b) = Some h1" "list_add_tail h1 (TaskL b) RunQ = Some h"
    "rings h (Q(KbdQ \<mapsto> remove1 (TaskL b) (TaskL b # ws), RunQ \<mapsto> rq @ [TaskL b]))"
    using lh.move [OF r w _ rq, of "TaskL b"] by (metis list.set_intros(1) list_node.distinct(1))
  have e: "unblock_and_enqueque b k = Some (k\<lparr>lists := h\<rparr>)" using h by (simp add: unblock_and_enqueque_def lift_lists_def)
  obtain rq' where rq': "Q RunQ = Some (TaskL (cur k) # rq')" "TaskL 0 \<in> set (TaskL (cur k) # rq')"
    using q by (rule queues_run) blast
  have m: "members ?Q = members Q" using members_move [of Q KbdQ "TaskL b # ws" RunQ rq "TaskL b"] w rq by simp
  have "queues (k\<lparr>lists := h\<rparr>) ?Q"
  proof (rule queues_step [OF q _ _ m, where rq = "rq' @ [TaskL b]"])
    show "rings h ?Q" using h(3) by simp
    show "dom ?Q = dom Q" using w rq by auto
    show "\<And>c xs. ?Q (SemQ c) = Some xs \<Longrightarrow> xs \<noteq> [] \<Longrightarrow> count (sem k c) = 0"
      using queues_count [OF q] by (auto split: if_splits)
  qed (use rq rq' in auto)
  with e that show ?thesis by blast
qed

text \<open>The state after a key has been stored, with \<open>b\<close> the first waiter; \<open>copied\<close> is the state after a delivery.\<close>

definition key_stored :: "int \<Rightarrow> 8 word \<Rightarrow> kernel \<Rightarrow> kernel" where
  "key_stored b i k = upd_task b (\<lambda>t. t\<lparr>pending_chars := pending_chars t - 1\<rparr>)
     (k\<lparr>circular := (circular k)(kp k := key_char i), kp := (kp k + 1) mod 5, circ_chars := circ_chars k + 1\<rparr>)"

definition copied :: "(int \<Rightarrow> 8 word) \<Rightarrow> pte arr \<Rightarrow> kernel \<Rightarrow> kernel" where
  "copied rm t k = k\<lparr>mm := (mm k)\<lparr>ram := rm, pagusr_table := t, cr3 := dir_pages_addr (lay k)\<rparr>\<rparr>"

text \<open>A waiting reader gets one more key.\<close>

definition key_pressed :: "kernel \<Rightarrow> (list_node \<Rightarrow> list_node list option) \<Rightarrow> int \<Rightarrow> list_node list \<Rightarrow> list_node list \<Rightarrow> int \<Rightarrow> int \<Rightarrow> 8 word list \<Rightarrow> 8 word \<Rightarrow> bool" where
  "key_pressed k Q b ws rq u n cs i \<longleftrightarrow> queues k Q \<and> Q KbdQ = Some (TaskL b # ws) \<and> Q RunQ = Some rq \<and> frames_ok k \<and>
     kbd_wait k b u n cs \<and> 1081344 \<le> u \<and> u + n \<le> 1163264 \<and> make_code i"

lemma key_stored_ok:
  assumes "key_pressed k Q b ws rq u n cs i"
  shows "queues (key_stored b i k) Q" "frames_ok (key_stored b i k)" "live k b" "live (key_stored b i k) b"
proof -
  have q: "queues k Q" "Q KbdQ = Some (TaskL b # ws)" "frames_ok k" using assms by (simp_all add: key_pressed_def)
  show "queues (key_stored b i k) Q" unfolding key_stored_def by (rule queues_cong [THEN iffD2, OF _ _ _ _ _ q(1)]) simp_all
  show "frames_ok (key_stored b i k)" unfolding key_stored_def by (rule frames_ok_cong [THEN iffD2, OF _ _ _ q(3)]) simp_all
  show b: "live k b" using queues_entry [OF q(1,2), of "TaskL b"] by simp
  then show "live (key_stored b i k) b" by (simp add: live_def key_stored_def)
qed

lemma key_routine:
  assumes "key_pressed k Q b ws rq u n cs i"
  shows "keyboard_routine i k =
    (if pending_chars (task k b) \<le> 1 then Option.bind (copy_from_circ_buffer b (t_size (task k b)) (key_stored b i k))
        (\<lambda>k. unblock_and_enqueque b (k\<lparr>circ_chars := 0, kstart := kp k\<rparr>))
     else if circ_chars k \<ge> 4 then Option.bind (copy_from_circ_buffer b 5 (key_stored b i k))
        (\<lambda>k. Some ((upd_task b (\<lambda>t. t\<lparr>t_size := t_size t - circ_chars k, t_buffer := t_buffer t + circ_chars k\<rparr>) k)
          \<lparr>circ_chars := 0, kstart := kp k\<rparr>))
     else Some (key_stored b i k))"
proof -
  note A = assms [unfolded key_pressed_def]
  have r: "rings (lists k) Q" and kb: "Q KbdQ = Some (TaskL b # ws)" using A queues_rings by blast+
  have w: "kbd_wait k b u n cs" and m: "make_code i" using A by blast+
  have kp: "0 \<le> kp k" "kp k < 5" using kbd_waitD(8) [OF w] by simp_all
  have nx: "nxt (lists k) KbdQ = Some (TaskL b)" and ne: "\<not> list_empty (lists k) KbdQ"
    using lh.front_law [OF r kb] lh.isempty_law [OF r kb] by (simp_all add: list_first_def)
  show ?thesis unfolding key_stored_def by (rule keyboard_routine_eq [OF m kp ne nx])
qed

text \<open>A delivery after the key completes the bytes of the reader.\<close>

lemma key_delivers:
  assumes "key_pressed k Q b ws rq u n cs i"
  shows "\<exists>rm t. copy_from_circ_buffer b (int (length cs) mod 5 + 1) (key_stored b i k) = Some (copied rm t (key_stored b i k)) \<and>
    proc_bytes (copied rm t (key_stored b i k)) b u (nat (int (length cs) + 1)) = cs @ [key_char i]"
proof -
  define j r where "j = int (length cs)" and "r = int (length cs) mod 5"
  let ?c = "key_char i" and ?k1 = "key_stored b i k"
  note A = assms [unfolded key_pressed_def]
  have w: "kbd_wait k b u n cs" and u: "1081344 \<le> u" "u + n \<le> 1163264" using A by blast+
  note W = kbd_waitD [OF w, folded j_def r_def] and S = key_stored_ok [OF assms]
  have c1: "circular ?k1 ((kstart ?k1 + x) mod 5) = (cs @ [?c]) ! nat (j - r + x)" if "0 \<le> x" "x < r + 1" for x
    using kbd_wait_circ [OF w, folded j_def r_def, OF that, of ?c] by (simp add: key_stored_def)
  have len: "length (cs @ [?c]) = nat (j - r + (r + 1))" using W(13) by (simp add: j_def)
  have old: "proc_bytes ?k1 b u (nat (j - r)) = take (nat (j - r)) (cs @ [?c])"
    using W(10,11) by (simp add: j_def nat_le_iff proc_bytes_def proc_addr_def key_stored_def)
  obtain rm t where "copy_from_circ_buffer b (r + 1) ?k1 = Some (?k1\<lparr>mm := (mm ?k1)\<lparr>ram := rm, pagusr_table := t, cr3 := dir_pages_addr (lay ?k1)\<rparr>\<rparr>)"
    "proc_bytes (?k1\<lparr>mm := (mm ?k1)\<lparr>ram := rm, pagusr_table := t, cr3 := dir_pages_addr (lay ?k1)\<rparr>\<rparr>) b u (nat (j - r + (r + 1))) = cs @ [?c]"
    by (rule deliver [OF S(2,4) _ _ _ u(1) _ _ _ old len c1]) (use W u in \<open>auto simp: j_def key_stored_def\<close>)
  then show ?thesis unfolding copied_def by (intro exI [of _ rm] exI [of _ t]) (simp add: j_def r_def)
qed

text \<open>The last key: everything is delivered and the reader is ready.\<close>

lemma key_last:
  assumes a: "key_pressed k Q b ws rq u n cs i" and n: "n = int (length cs) + 1"
  shows "\<exists>k'. keyboard_routine i k = Some k' \<and> frames_ok k' \<and> stack (task k' b) = stack (task k b) \<and>
    queues k' (Q(KbdQ \<mapsto> ws, RunQ \<mapsto> rq @ [TaskL b])) \<and> proc_bytes k' b u (nat n) = cs @ [key_char i] \<and> circ_chars k' = 0"
proof -
  note A = a [unfolded key_pressed_def]
  have q: "queues k Q" "Q KbdQ = Some (TaskL b # ws)" "Q RunQ = Some rq" "frames_ok k" using A by blast+
  have w: "kbd_wait k b u n cs" using A by blast
  have sz: "t_size (task k b) = int (length cs) mod 5 + 1" and pd: "pending_chars (task k b) \<le> 1" using kbd_waitD(2,4) [OF w] n by simp_all
  obtain rm t where c: "copy_from_circ_buffer b (int (length cs) mod 5 + 1) (key_stored b i k) = Some (copied rm t (key_stored b i k))"
    "proc_bytes (copied rm t (key_stored b i k)) b u (nat n) = cs @ [key_char i]" using key_delivers [OF a] n by blast
  define k3 where "k3 = (copied rm t (key_stored b i k))\<lparr>circ_chars := 0, kstart := kp (copied rm t (key_stored b i k))\<rparr>"
  have q3: "queues k3 Q" by (rule queues_cong [THEN iffD2, OF _ _ _ _ _ q(1)]) (simp_all add: k3_def copied_def key_stored_def)
  obtain h where h: "unblock_and_enqueque b k3 = Some (k3\<lparr>lists := h\<rparr>)"
    "queues (k3\<lparr>lists := h\<rparr>) (Q(KbdQ \<mapsto> ws, RunQ \<mapsto> rq @ [TaskL b]))" by (rule unblock_ok [OF q3 q(2,3)]) blast
  have "keyboard_routine i k = Some (k3\<lparr>lists := h\<rparr>)" unfolding key_routine [OF a] sz using pd c(1) h(1) by (simp add: k3_def)
  moreover have "frames_ok (k3\<lparr>lists := h\<rparr>)"
    by (rule frames_ok_cong [THEN iffD2, OF _ _ _ q(4)]) (simp_all add: k3_def copied_def key_stored_def)
  moreover have "proc_bytes (k3\<lparr>lists := h\<rparr>) b u (nat n) = cs @ [key_char i]" using c(2) by (simp add: k3_def proc_bytes_def)
  moreover have "stack (task k3 b) = stack (task k b)" "circ_chars k3 = 0" by (simp_all add: k3_def copied_def key_stored_def)
  ultimately show ?thesis using h(2) by (intro exI [of _ "k3\<lparr>lists := h\<rparr>"]) simp
qed

text \<open>The fifth key in the buffer, with more to come: the five are delivered and the reader waits for the rest.\<close>

lemma key_fifth:
  assumes a: "key_pressed k Q b ws rq u n cs i" and n: "int (length cs) + 1 < n" and r4: "int (length cs) mod 5 = 4"
  shows "\<exists>k'. keyboard_routine i k = Some k' \<and> frames_ok k' \<and> stack (task k' b) = stack (task k b) \<and>
    queues k' Q \<and> kbd_wait k' b u n (cs @ [key_char i])"
proof -
  note A = a [unfolded key_pressed_def]
  have q: "queues k Q" "frames_ok k" and w: "kbd_wait k b u n cs" using A by blast+
  note W = kbd_waitD [OF w]
  let ?k1 = "key_stored b i k"
  obtain rm t where c: "copy_from_circ_buffer b 5 ?k1 = Some (copied rm t ?k1)"
    "proc_bytes (copied rm t ?k1) b u (nat (int (length cs) + 1)) = cs @ [key_char i]" using key_delivers [OF a] r4 by auto
  define k3 where "k3 = (upd_task b (\<lambda>x. x\<lparr>t_size := t_size x - circ_chars (copied rm t ?k1), t_buffer := t_buffer x + circ_chars (copied rm t ?k1)\<rparr>)
    (copied rm t ?k1))\<lparr>circ_chars := 0, kstart := kp (copied rm t ?k1)\<rparr>"
  note d = k3_def copied_def key_stored_def
  have e: "keyboard_routine i k = Some k3" unfolding key_routine [OF a] using W(2,3) n r4 c(1) by (simp add: k3_def)
  have "queues k3 Q" by (rule queues_cong [THEN iffD2, OF _ _ _ _ _ q(1)]) (simp_all add: d)
  moreover have "frames_ok k3" by (rule frames_ok_cong [THEN iffD2, OF _ _ _ q(2)]) (simp_all add: d)
  moreover have p: "proc_bytes k3 b u (length (cs @ [key_char i])) = cs @ [key_char i]"
    using c(2) by (simp add: d proc_bytes_def proc_addr_def nat_add_distrib)
  moreover have "int (length (cs @ [key_char i])) mod 5 = 0" using r4 by simp presburger
  then have "kbd_wait k3 b u n (cs @ [key_char i])"
    by (rule kbd_wait_five [rotated]) (use p W(2-5) n r4 in \<open>simp_all add: d\<close>)
  ultimately show ?thesis using e by (intro exI [of _ k3]) (simp add: d)
qed

lemma key_step:
  assumes q: "queues k Q" and kb: "Q KbdQ = Some (TaskL b # ws)" and rq: "Q RunQ = Some rq" and fo: "frames_ok k"
    and w: "kbd_wait k b u n cs" and u: "1081344 \<le> u" "u + n \<le> 1163264" and m: "make_code i"
  shows "\<exists>k'. keyboard_routine i k = Some k' \<and> frames_ok k' \<and> stack (task k' b) = stack (task k b) \<and>
    (if int (length cs) + 1 < n then queues k' Q \<and> kbd_wait k' b u n (cs @ [key_char i])
     else queues k' (Q(KbdQ \<mapsto> ws, RunQ \<mapsto> rq @ [TaskL b])) \<and> proc_bytes k' b u (nat n) = cs @ [key_char i] \<and> circ_chars k' = 0)"
proof -
  have a: "key_pressed k Q b ws rq u n cs i" unfolding key_pressed_def using assms by blast
  note W = kbd_waitD [OF w] and S = key_stored_ok [OF a]
  consider "n = int (length cs) + 1" | "int (length cs) + 1 < n" "int (length cs) mod 5 = 4" | "int (length cs) + 1 < n" "int (length cs) mod 5 < 4"
    using W(1,12) by linarith
  then show ?thesis
  proof cases
    case 1
    then show ?thesis using key_last [OF a] by simp
  next
    case 2
    then show ?thesis using key_fifth [OF a] by simp
  next
    case 3
    have e: "keyboard_routine i k = Some (key_stored b i k)" unfolding key_routine [OF a] using W(2,3) 3 by simp
    have "kbd_wait (key_stored b i k) b u n (cs @ [key_char i])"
      unfolding key_stored_def by (rule kbd_wait_next [OF w]) (use 3 in simp_all)
    then show ?thesis by (intro exI [of _ "key_stored b i k"]) (use e S(1,2) 3 in \<open>simp add: key_stored_def\<close>)
  qed
qed

section \<open>A whole read\<close>

lemma press_all_delivers:
  assumes "queues k Q" "Q KbdQ = Some (TaskL b # ws)" "Q RunQ = Some rq" "frames_ok k" "kbd_wait k b u n cs"
    and "1081344 \<le> u" "u + n \<le> 1163264" and "list_all make_code keys" "int (length cs + length keys) = n"
  shows "\<exists>k'. press_all keys k = Some k' \<and> queues k' (Q(KbdQ \<mapsto> ws, RunQ \<mapsto> rq @ [TaskL b])) \<and> frames_ok k' \<and>
    stack (task k' b) = stack (task k b) \<and> proc_bytes k' b u (nat n) = cs @ map key_char keys \<and> circ_chars k' = 0"
  using assms
proof (induction keys arbitrary: k cs)
  case Nil
  then show ?case using kbd_waitD(1) [of k b u n cs] by simp
next
  case (Cons i keys)
  have m: "make_code i" "list_all make_code keys" using Cons.prems(8) by simp_all
  obtain k1 where k1: "keyboard_routine i k = Some k1" "frames_ok k1" "stack (task k1 b) = stack (task k b)"
    "if int (length cs) + 1 < n then queues k1 Q \<and> kbd_wait k1 b u n (cs @ [key_char i])
     else queues k1 (Q(KbdQ \<mapsto> ws, RunQ \<mapsto> rq @ [TaskL b])) \<and> proc_bytes k1 b u (nat n) = cs @ [key_char i] \<and> circ_chars k1 = 0"
    using key_step [OF Cons.prems(1-7) m(1)] by blast
  show ?case
  proof (cases keys)
    case Nil
    then have last: "\<not> int (length cs) + 1 < n" using Cons.prems(9) by simp
    have d: "queues k1 (Q(KbdQ \<mapsto> ws, RunQ \<mapsto> rq @ [TaskL b])) \<and> proc_bytes k1 b u (nat n) = cs @ [key_char i] \<and> circ_chars k1 = 0"
      using k1(4) unfolding if_not_P [OF last] .
    moreover have "press_all (i # keys) k = Some k1" "cs @ [key_char i] = cs @ map key_char (i # keys)" using k1(1) Nil by simp_all
    ultimately show ?thesis using k1(2,3) by metis
  next
    case (Cons i' keys')
    then have more: "int (length cs) + 1 < n" using Cons.prems(9) by simp
    have len: "int (length (cs @ [key_char i]) + length keys) = n" using Cons.prems(9) by simp
    have w: "queues k1 Q" "kbd_wait k1 b u n (cs @ [key_char i])" using k1(4) unfolding if_P [OF more] by blast+
    have "\<exists>k'. press_all keys k1 = Some k' \<and> queues k' (Q(KbdQ \<mapsto> ws, RunQ \<mapsto> rq @ [TaskL b])) \<and> frames_ok k' \<and>
      stack (task k' b) = stack (task k1 b) \<and> proc_bytes k' b u (nat n) = (cs @ [key_char i]) @ map key_char keys \<and> circ_chars k' = 0"
      by (rule Cons.IH [OF w(1) Cons.prems(2,3) k1(2) w(2) Cons.prems(6,7) m(2) len])
    moreover have "press_all (i # keys) k = press_all keys k1" "(cs @ [key_char i]) @ map key_char keys = cs @ map key_char (i # keys)"
      using k1(1) by simp_all
    ultimately show ?thesis using k1(3) by metis
  qed
qed

lemma sys_read_keyboard_blocks:
  assumes q: "queues k Q" and fo: "frames_ok k" and p: "pid (current k) \<noteq> 0" and e: "circ_chars k = 0" "0 \<le> kp k" "kp k < 5"
    and kb: "Q KbdQ = Some []" and n: "0 < n" "n < 2 ^ 31"
  obtains k' t rq where "sys_read_keyboard n k = Some (Switched, k')" and "Q RunQ = Some (TaskL (cur k) # TaskL t # rq)" and "cur k' = t"
    and "queues k' (Q(RunQ \<mapsto> TaskL t # rq, KbdQ \<mapsto> [TaskL (cur k)]))" and "frames_ok k'"
    and "kbd_wait k' (cur k) (t_buffer (current k)) n []" and "saved_eax (task k' (cur k)) = n"
proof -
  obtain h1 h t rq where h: "Q RunQ = Some (TaskL (cur k) # TaskL t # rq)"
    "list_del (lists k) (TaskL (cur k)) = Some h1" "list_add_tail h1 (TaskL (cur k)) KbdQ = Some h"
    "nxt h RunQ = Some (TaskL t)" "\<And>k'. lists k' = h \<Longrightarrow> cur k' = t \<Longrightarrow> (\<And>i. pid (task k' i) = pid (task k i)) \<Longrightarrow> sem k' = sem k \<Longrightarrow>
      queues k' (Q(RunQ \<mapsto> TaskL t # rq, KbdQ \<mapsto> [] @ [TaskL (cur k)]))"
    by (rule block_current [OF q p kb]) auto
  let ?k = "(upd_task (cur k) (set_eax n) (upd_task (cur k) (\<lambda>t. t\<lparr>pending_chars := n, t_size := n\<rparr>)
    (k\<lparr>kstart := kp k, lists := h\<rparr>)))\<lparr>it_is_int := 0\<rparr>"
  have le: "\<not> n \<le> 0" using n by simp
  have s: "sys_read_keyboard n k = Some (Switched, switched t ?k)"
    using p e(1) n h(2-4) by (simp add: sys_read_keyboard_def Let_def block_into_kbd_def lift_lists_def upd_task_def task_switch_eq set_eax_def)
  have "t \<noteq> cur k"
    using lh.rep_distinct [OF queues_rings [OF q] h(1)] by auto
  then have tk: "task (switched t ?k) (cur k) = set_eax n ((current k)\<lparr>pending_chars := n, t_size := n\<rparr>)"
    by (simp add: switched_def)
  have fr: "frames_ok (switched t ?k)"
    by (rule frames_ok_switched, rule frames_ok_cong [THEN iffD2, OF _ _ _ fo]) (simp_all add: set_eax_def)
  have "kbd_wait (switched t ?k) (cur k) (t_buffer (current k)) n []"
    using e n by (auto simp: kbd_wait_def tk proc_bytes_def set_eax_def)
  moreover have "saved_eax (task (switched t ?k) (cur k)) = n" unfolding tk using n by (intro saved_eax_set_eax) (simp add: in_int_def)
  moreover have "queues (switched t ?k) (Q(RunQ \<mapsto> TaskL t # rq, KbdQ \<mapsto> [TaskL (cur k)]))"
    using h(5) [of "switched t ?k"] by (simp add: set_eax_def)
  ultimately show ?thesis using that [OF s h(1)] fr by simp
qed

text \<open>With fewer keys than it wants the reader stays at the head of the keyboard queue.\<close>

lemma press_all_waits:
  assumes "queues k Q" "Q KbdQ = Some (TaskL b # ws)" "Q RunQ = Some rq" "frames_ok k" "kbd_wait k b u n cs"
    and "1081344 \<le> u" "u + n \<le> 1163264" and "list_all make_code keys" "int (length cs + length keys) < n"
  shows "\<exists>k'. press_all keys k = Some k' \<and> queues k' Q"
  using assms
proof (induction keys arbitrary: k cs)
  case (Cons i keys)
  have m: "make_code i" "list_all make_code keys" using Cons.prems(8) by simp_all
  have more: "int (length cs) + 1 < n" and len: "int (length (cs @ [key_char i]) + length keys) < n" using Cons.prems(9) by simp_all
  obtain k1 where k1: "keyboard_routine i k = Some k1" "frames_ok k1" "queues k1 Q" "kbd_wait k1 b u n (cs @ [key_char i])"
    using key_step [OF Cons.prems(1-7) m(1)] unfolding if_P [OF more] by blast
  show ?case using Cons.IH [OF k1(3) Cons.prems(2,3) k1(2,4) Cons.prems(6,7) m(2) len] k1(1) by simp
qed simp


end
