(* ===== verification/Syscalls.thy ===== *)
theory Syscalls
  imports Keyboard
begin

text \<open>
  \<open>zeos/entry.S\<close>: how the processor enters and leaves the kernel. An entry saves the registers of
  the running process at the top of its kernel stack (16 words from slot 1008 on), the handler
  calls the C routine, and the registers of the process that runs then are restored. Since
  \<open>task_switch\<close> restores the context of the new process itself, after a switch the registers
  come from the stack of that process.
\<close>

section \<open>Contexts\<close>

record regs =
  r_ebx :: "32 word"
  r_ecx :: "32 word"
  r_edx :: "32 word"
  r_esi :: "32 word"
  r_edi :: "32 word"
  r_ebp :: "32 word"
  r_eax :: "32 word"
  r_ds :: "32 word"
  r_es :: "32 word"
  r_fs :: "32 word"
  r_gs :: "32 word"
  r_eip :: "32 word"
  r_cs :: "32 word"
  r_eflags :: "32 word"
  r_oldesp :: "32 word"
  r_oldss :: "32 word"

text \<open>The words the processor pushes, then those of \<open>SAVE_ALL\<close>; \<open>d\<close> is 1 when the processor has
  pushed an error code in between.\<close>

definition SAVE_ALL :: "int \<Rightarrow> regs \<Rightarrow> kernel \<Rightarrow> kernel" where
  "SAVE_ALL d r k = upd_task (cur k) (\<lambda>t. t\<lparr>stack := (stack t)(
     1023 := r_oldss r, 1022 := r_oldesp r, 1021 := r_eflags r, 1020 := r_cs r, 1019 := r_eip r,
     1018 - d := r_gs r, 1017 - d := r_fs r, 1016 - d := r_es r, 1015 - d := r_ds r, 1014 - d := r_eax r,
     1013 - d := r_ebp r, 1012 - d := r_edi r, 1011 - d := r_esi r, 1010 - d := r_edx r, 1009 - d := r_ecx r,
     1008 - d := r_ebx r)\<rparr>) k"

text \<open>\<open>RESTORE_ALL; IRET\<close> from the stack of the running process.\<close>

definition RESTORE_ALL :: "int \<Rightarrow> kernel \<Rightarrow> regs" where
  "RESTORE_ALL d k = (let s = stack (current k) in \<lparr>
     r_ebx = s (1008 - d), r_ecx = s (1009 - d), r_edx = s (1010 - d), r_esi = s (1011 - d), r_edi = s (1012 - d),
     r_ebp = s (1013 - d), r_eax = s (1014 - d), r_ds = s (1015 - d), r_es = s (1016 - d), r_fs = s (1017 - d),
     r_gs = s (1018 - d), r_eip = s 1019, r_cs = s 1020, r_eflags = s 1021, r_oldesp = s 1022, r_oldss = s 1023\<rparr>)"

definition EOI :: "kernel \<Rightarrow> kernel" where
  "EOI k = k\<lparr>eois := eois k + 1\<rparr>"

text \<open>The end of a handler: \<open>fin\<close> is what it does before \<open>RESTORE_ALL\<close> when the routine returns.\<close>

definition leave :: "int \<Rightarrow> ('a \<Rightarrow> kernel \<Rightarrow> kernel) \<Rightarrow> 'a routine_result \<Rightarrow> regs routine_result" where
  "leave d fin res = do {
     (out, k) \<leftarrow> res;
     case out of
       Return v \<Rightarrow> let k = fin v k in Some (Return (RESTORE_ALL d k), k)
     | Switched \<Rightarrow> Some (Return (RESTORE_ALL 0 k), k)
     | Halted \<Rightarrow> Some (Halted, k)
   }"

section \<open>Handlers\<close>

definition clock_handler :: "regs \<Rightarrow> kernel \<Rightarrow> regs routine_result" where
  "clock_handler r k = leave 0 (\<lambda>_. EOI) (clock_routine (SAVE_ALL 0 r k))"

definition keyboard_handler :: "8 word \<Rightarrow> regs \<Rightarrow> kernel \<Rightarrow> regs routine_result" where
  "keyboard_handler i r k = leave 0 (\<lambda>_. EOI) (map_option (Pair (Return ())) (keyboard_routine i (SAVE_ALL 0 r k)))"

text \<open>The exceptions with an error code remove it before \<open>IRET\<close>.\<close>

definition has_error_code :: "int \<Rightarrow> bool" where
  "has_error_code v \<longleftrightarrow> v \<in> {8, 10, 11, 12, 13, 14, 17}"

definition exception_handler :: "int \<Rightarrow> regs \<Rightarrow> kernel \<Rightarrow> regs routine_result" where
  "exception_handler v r k =
     (let d = (if has_error_code v then 1 else 0)
      in leave d (\<lambda>_ k. k) (exception_routine v (SAVE_ALL d r k)))"

section \<open>System calls\<close>

text \<open>The arguments of the C functions are the saved \<open>%ebx\<close>, \<open>%ecx\<close> and \<open>%edx\<close>.\<close>

definition arg :: "int \<Rightarrow> kernel \<Rightarrow> 32 word" where
  "arg i k = stack (current k) (1008 + i)"

definition ret :: "(int \<times> kernel) option \<Rightarrow> int routine_result" where
  "ret = map_option (\<lambda>(v, k). (Return v, k))"

text \<open>\<open>sys_exit\<close> returns nothing: when it comes back, \<open>%eax\<close> holds some value \<open>junk\<close>.\<close>

definition void :: "int \<Rightarrow> unit routine_result \<Rightarrow> int routine_result" where
  "void junk = map_option (\<lambda>(out, k). (case out of Return _ \<Rightarrow> Return junk | Switched \<Rightarrow> Switched | Halted \<Rightarrow> Halted, k))"

definition sys_call_table :: "int \<Rightarrow> int \<Rightarrow> kernel \<Rightarrow> int routine_result" where
  "sys_call_table n junk k =
     (let i1 = sint (arg 0 k); i2 = sint (arg 1 k); i3 = sint (arg 2 k); p1 = uint (arg 0 k); p2 = uint (arg 1 k)
      in if n = 1 then void junk (sys_exit k)
         else if n = 2 then ret (sys_fork k)
         else if n = 3 then sys_read i1 p2 i3 k
         else if n = 4 then ret (sys_write i1 p2 i3 k)
         else if n = 5 then ret (sys_open p1 i2 k)
         else if n = 6 then ret (sys_close i1 k)
         else if n = 10 then ret (sys_unlink p1 k)
         else if n = 20 then Some (Return (sys_getpid k), k)
         else if n = 21 then ret (Some (sys_sem_init i1 p2 k))
         else if n = 22 then sys_sem_wait i1 k
         else if n = 23 then ret (sys_sem_signal i1 k)
         else if n = 24 then ret (sys_sem_destroy i1 k)
         else if n = 34 then ret (Some (sys_nice i1 k))
         else if n = 35 then ret (sys_get_stats i1 p2 k)
         else if n = 41 then ret (sys_dup i1 k)
         else Some (Return sys_ni_syscall, k))"

definition system_call_handler :: "int \<Rightarrow> regs \<Rightarrow> kernel \<Rightarrow> regs routine_result" where
  "system_call_handler junk r k =
     (let k = SAVE_ALL 0 r k; n = sint (r_eax r)
      in if n < 0 \<or> n > 41
         then let k = upd_task (cur k) (set_eax (- ENOSYS)) k in Some (Return (RESTORE_ALL 0 k), k)
         else leave 0 (\<lambda>v k. upd_task (cur k) (set_eax v) k) (sys_call_table n junk k))"

section \<open>Steps of the system\<close>

text \<open>
  Between two entries the running process executes user code, which may change its registers and
  the bytes of pages that the page table opens to it for writing.
\<close>

definition user_store :: "int \<Rightarrow> 8 word \<Rightarrow> kernel \<Rightarrow> kernel option" where
  "user_store va b k =
     (let e = pagusr_table (mm k) (va div PAGE_SIZE)
      in if 0 \<le> va \<and> va < TOTAL_PAGES * PAGE_SIZE \<and> pte_present e \<and> pte_user e \<and> pte_rw e
         then lift_mm (\<lambda>m. vwrite m va b) k else None)"

inductive kstep :: "kernel \<Rightarrow> kernel \<Rightarrow> bool" where
  syscall: "live k (cur k) \<Longrightarrow> next_pid k < 2 ^ 31 - 1 \<Longrightarrow> system_call_handler junk r k = Some (Return r', k') \<Longrightarrow> kstep k k'"
| clock: "live k (cur k) \<Longrightarrow> clock_handler r k = Some (Return r', k') \<Longrightarrow> kstep k k'"
| key: "live k (cur k) \<Longrightarrow> keyboard_handler i r k = Some (Return r', k') \<Longrightarrow> kstep k k'"
| fault: "live k (cur k) \<Longrightarrow> exception_handler 14 r k = Some (Return r', k') \<Longrightarrow> kstep k k'"
| store: "live k (cur k) \<Longrightarrow> user_store va b k = Some k' \<Longrightarrow> kstep k k'"

end
