(* ===== verification/Invariants.thy ===== *)
theory Invariants
  imports Syscalls
begin

text \<open>
  The invariant of the whole kernel and that every step keeps it: the queues hold exactly the live
  processes, the frames of different processes are different, the running process sees no frame of
  another one in its data pages and is entered on its own kernel stack, process identifiers are unique and file descriptors are valid.
  The one way out of the invariant is an exit that leaves a dead process running.
\<close>

section \<open>The invariant\<close>

definition iso_ok :: "kernel \<Rightarrow> bool" where
  "iso_ok k \<longleftrightarrow> (\<forall>p. 0 \<le> p \<and> p < 20 \<longrightarrow> (\<exists>f. pagusr_table (mm k) (264 + p) = user_pte f \<and> owned (mm k) f \<and>
     (\<forall>i q. live k i \<and> i \<noteq> cur k \<and> 0 \<le> q \<and> q < 20 \<longrightarrow> ph_pages (task k i) q \<noteq> f)))"

definition pids_ok :: "kernel \<Rightarrow> bool" where
  "pids_ok k \<longleftrightarrow> 0 < next_pid k \<and> (\<forall>i. live k i \<longrightarrow> pid (task k i) < next_pid k) \<and>
     (\<forall>i j. live k i \<and> live k j \<and> pid (task k i) = pid (task k j) \<longrightarrow> i = j)"

definition fds_all :: "kernel \<Rightarrow> bool" where
  "fds_all k \<longleftrightarrow> (\<forall>i. live k i \<longrightarrow> fds_ok (fs k) (file_descriptors (task k i)))"

text \<open>\<open>count\<close> is an unsigned integer.\<close>

definition sems_ok :: "kernel \<Rightarrow> bool" where
  "sems_ok k \<longleftrightarrow> (\<forall>n. 0 \<le> count (sem k n))"

text \<open>The kernel stack that the next interrupt uses is the one of the running process.\<close>

definition esp_ok :: "kernel \<Rightarrow> bool" where
  "esp_ok k \<longleftrightarrow> esp0 (tss (mm k)) = word_of_int (stack_addr (lay k) (cur k) KERNEL_STACK_SIZE)"

definition kinv :: "kernel \<Rightarrow> bool" where
  "kinv k \<longleftrightarrow> (\<exists>Q. queues k Q) \<and> frames_ok k \<and> iso_ok k \<and> pids_ok k \<and> fds_all k \<and> sems_ok k \<and> esp_ok k"

text \<open>What a step that does not touch processes leaves as it is.\<close>

definition kframe :: "kernel \<Rightarrow> kernel \<Rightarrow> bool" where
  "kframe k k' \<longleftrightarrow> lay k' = lay k \<and> tss (mm k') = tss (mm k) \<and> lists k' = lists k \<and> cur k' = cur k \<and> sem k' = sem k \<and> next_pid k' = next_pid k \<and>
     (\<forall>i. pid (task k' i) = pid (task k i) \<and> ph_pages (task k' i) = ph_pages (task k i)) \<and>
     phys_mem (mm k') = phys_mem (mm k) \<and> (\<forall>p. p < 284 \<longrightarrow> pagusr_table (mm k') p = pagusr_table (mm k) p)"

definition devs_kept :: "fs_state \<Rightarrow> fs_state \<Rightarrow> bool" where
  "devs_kept s s' \<longleftrightarrow> (\<forall>v. logic_dev (fdt s v) \<noteq> None \<longrightarrow> logic_dev (fdt s' v) \<noteq> None)"

definition kstable :: "kernel \<Rightarrow> kernel \<Rightarrow> bool" where
  "kstable k k' \<longleftrightarrow> kframe k k' \<and> devs_kept (fs k) (fs k') \<and> (\<forall>i. file_descriptors (task k' i) = file_descriptors (task k i))"

lemma devs_kept_refl [simp]: "devs_kept s s" by (simp add: devs_kept_def)

lemma devs_kept_trans: "devs_kept s t \<Longrightarrow> devs_kept t u \<Longrightarrow> devs_kept s u" by (simp add: devs_kept_def)

lemma fds_ok_mono: "devs_kept s s' \<Longrightarrow> fds_ok s fds \<Longrightarrow> fds_ok s' fds"
  by (auto simp: devs_kept_def fds_ok_def)

lemma kstable_refl [simp]: "kstable k k" by (simp add: kstable_def kframe_def)

lemma kstable_trans: "kstable k k1 \<Longrightarrow> kstable k1 k2 \<Longrightarrow> kstable k k2"
  using devs_kept_trans by (auto simp: kstable_def kframe_def)

lemma iso_mapped: "iso_ok k \<Longrightarrow> mapped_ok k"
  unfolding iso_ok_def mapped_ok_def by blast

lemma kframe_live: "kframe k k' \<Longrightarrow> live k' = live k"
  by (auto simp: kframe_def live_def fun_eq_iff)

lemma kframe_queues: "kframe k k' \<Longrightarrow> queues k Q \<Longrightarrow> queues k' Q"
  by (subst queues_cong [of k' k]) (auto simp: kframe_def)

lemma kframe_frames: "kframe k k' \<Longrightarrow> frames_ok k \<Longrightarrow> frames_ok k'"
  by (subst frames_ok_cong [of k' k]) (auto simp: kframe_def)

lemma kframe_iso:
  assumes f: "kframe k k'" and i: "iso_ok k"
  shows "iso_ok k'"
proof -
  have "owned (mm k') = owned (mm k)" using f by (intro owned_cong) (simp add: kframe_def)
  then show ?thesis using i f kframe_live [OF f] unfolding iso_ok_def kframe_def by simp
qed

lemma kframe_pids: "kframe k k' \<Longrightarrow> pids_ok k \<Longrightarrow> pids_ok k'"
  using kframe_live [of k k'] by (simp add: pids_ok_def kframe_def)

lemma kframe_sems: "kframe k k' \<Longrightarrow> sems_ok k \<Longrightarrow> sems_ok k'"
  by (simp add: sems_ok_def kframe_def)

lemma kframe_esp: "kframe k k' \<Longrightarrow> esp_ok k \<Longrightarrow> esp_ok k'"
  by (simp add: esp_ok_def kframe_def)

lemma esp_ok_switched: "esp_ok (switched t k)"
  by (simp add: esp_ok_def switched_def)

text \<open>The descriptors are checked apart, since some calls change those of the running process.\<close>

lemma kinv_kframe: "kinv k \<Longrightarrow> kframe k k' \<Longrightarrow> fds_all k' \<Longrightarrow> kinv k'"
  using kframe_queues [of k k'] kframe_frames [of k k'] kframe_iso [of k k'] kframe_pids [of k k'] kframe_sems [of k k']
    kframe_esp [of k k'] unfolding kinv_def by blast

lemma kstable_fds: "kstable k k' \<Longrightarrow> fds_all k \<Longrightarrow> fds_all k'"
  using kframe_live [of k k'] fds_ok_mono [of "fs k" "fs k'"] unfolding kstable_def fds_all_def by simp

lemma kinv_kstable: "kinv k \<Longrightarrow> kstable k k' \<Longrightarrow> kinv k'"
  using kinv_kframe [of k k'] kstable_fds [of k k'] by (simp add: kstable_def kinv_def)

lemma kinv_cur: "kinv k \<Longrightarrow> live k (cur k)"
  using queues_cur unfolding kinv_def by blast

text \<open>A switch to a live process.\<close>

lemma iso_ok_switched:
  assumes fo: "frames_ok k" and t: "live k t"
  shows "iso_ok (switched t k)"
proof -
  have lv: "live (switched t k) i = live k i" for i by (simp add: live_def)
  have ow: "owned (mm (switched t k)) = owned (mm k)" by (rule owned_cong) simp
  have ph: "ph_pages (task k t) i \<noteq> -1" if "0 \<le> i" "i < 20" for i using owned_bounds [OF frames_okD [OF fo t that]] by simp
  show ?thesis
    unfolding iso_ok_def lv ow
  proof (intro allI impI)
    fix p :: int
    assume p: "0 \<le> p \<and> p < 20"
    let ?f = "ph_pages (task k t) p"
    have "pagusr_table (mm (switched t k)) (264 + p) = user_pte ?f" using map_pages_full [of "task k t"] ph p by simp
    moreover have "owned (mm k) ?f" using frames_okD [OF fo t] p by simp
    moreover have "ph_pages (task k i) q \<noteq> ?f" if "live k i" "i \<noteq> t" "0 \<le> q" "q < 20" for i q
      using frames_ok_inj [OF fo that(1) t that(3,4)] p that(2) by blast
    ultimately show "\<exists>f. pagusr_table (mm (switched t k)) (264 + p) = user_pte f \<and> owned (mm k) f \<and>
        (\<forall>i q. live k i \<and> i \<noteq> cur (switched t k) \<and> 0 \<le> q \<and> q < 20 \<longrightarrow> ph_pages (task (switched t k) i) q \<noteq> f)"
      by (intro exI [of _ ?f]) simp
  qed
qed

lemma kinv_switched:
  assumes q: "queues (switched t k) Q" and fo: "frames_ok k" and t: "live k t" and p: "pids_ok k" and f: "fds_all k"
    and s: "sems_ok k"
  shows "kinv (switched t k)"
proof -
  have lv: "live (switched t k) i = live k i" for i by (simp add: live_def)
  have "pids_ok (switched t k)" using p unfolding pids_ok_def lv by simp
  moreover have "fds_all (switched t k)" using f unfolding fds_all_def lv by simp
  moreover have "sems_ok (switched t k)" using s by (simp add: sems_ok_def)
  ultimately show ?thesis using q frames_ok_switched [OF fo] iso_ok_switched [OF fo t] esp_ok_switched unfolding kinv_def by blast
qed

text \<open>A switch from a state whose queues alone have changed.\<close>

lemma kinv_block:
  assumes k: "kinv k" and q: "queues (switched t k1) Q" and t: "live k t" and n: "next_pid k1 = next_pid k"
    and m: "phys_mem (mm k1) = phys_mem (mm k)" and s: "fs k1 = fs k" "sem k1 = sem k"
    and i: "\<And>i. pid (task k1 i) = pid (task k i) \<and> ph_pages (task k1 i) = ph_pages (task k i) \<and>
      file_descriptors (task k1 i) = file_descriptors (task k i)"
  shows "kinv (switched t k1)"
proof -
  have lv: "live k1 = live k" using i by (auto simp: live_def fun_eq_iff)
  have "frames_ok k1" using k i m by (subst frames_ok_cong [of k1 k]) (auto simp: kinv_def)
  moreover have "pids_ok k1" using k i n lv by (simp add: kinv_def pids_ok_def)
  moreover have "fds_all k1" using k i s lv by (simp add: kinv_def fds_all_def)
  moreover have "sems_ok k1" using k s by (simp add: kinv_def sems_ok_def)
  ultimately show ?thesis using kinv_switched [OF q] t lv by simp
qed

section \<open>Calls that leave the processes alone\<close>

lemma kstable_upd_task:
  assumes "\<And>t. pid (f t) = pid t \<and> ph_pages (f t) = ph_pages t \<and> file_descriptors (f t) = file_descriptors t"
  shows "kstable k (upd_task i f k)"
  using assms by (simp add: kstable_def kframe_def)

lemma kstable_SAVE_ALL: "kstable k (SAVE_ALL d r k)"
  unfolding SAVE_ALL_def by (rule kstable_upd_task) simp

lemma kstable_set_eax: "kstable k (upd_task i (set_eax v) k)"
  by (rule kstable_upd_task) (simp add: set_eax_def)

lemma kstable_EOI: "kstable k (EOI k)"
  by (simp add: kstable_def kframe_def EOI_def)

lemma kstable_scr: "kstable k (k\<lparr>scr := s\<rparr>)"
  by (simp add: kstable_def kframe_def)

lemma kstable_fs: "devs_kept (fs k) s \<Longrightarrow> kstable k (k\<lparr>fs := s\<rparr>)"
  by (simp add: kstable_def kframe_def)

lemma kstable_ram: "kstable k (k\<lparr>mm := (mm k)\<lparr>ram := r\<rparr>\<rparr>)"
  by (simp add: kstable_def kframe_def)

lemma sys_write_console_stable:
  assumes "sys_write_console buffer n k = Some (v, k')"
  shows "kstable k k'"
proof -
  have wc: "kstable k k'" if "kstable k k1" "write_chunk p m k1 = Some k'" for k1 p m k'
    using that kstable_trans [OF that(1) kstable_scr] by (auto simp: write_chunk_def dest!: bind_SomeD)
  let ?body = "\<lambda>i (w :: int, k). Option.bind (write_chunk (buffer + i * 256) 256 k) (\<lambda>k. Some (w + 256, k))"
  obtain w k1 where f: "for_opt 0 (cdiv n 256) ?body (0, k) = Some (w, k1)" and rest: "kstable k k1 \<Longrightarrow> kstable k k'"
    using assms wc by (auto simp: sys_write_console_def Let_def dest!: bind_SomeD split: if_splits)
  have "kstable k (snd (w, k1))"
    by (rule for_opt_keeps [OF f]) (use wc in \<open>auto dest!: bind_SomeD\<close>)
  then show ?thesis using rest by simp
qed

lemma balloc_devs: "balloc n s = Some (f, t) \<Longrightarrow> fdt t = fdt s"
  by (auto simp: balloc_def Let_def dest!: bind_SomeD split: if_splits prod.splits)

lemma write_step_devs:
  assumes "write_step ld addr vi di blk byte s = Some (r, s')"
  shows "logic_dev (fdt s' v) = logic_dev (fdt s v)"
proof -
  have room: "fdt t = fdt s" if "write_room di blk byte s = Some (x, t)" for x t
    using that by (auto simp: write_room_def add_block_def dest!: bind_SomeD balloc_devs split: if_splits prod.splits)
  have cp: "fdt t' = fdt t" if "copy_from_user (\<lambda>_. ld) (disk_st b) addr j 1 t = Some (rc, t')" for b j t rc t'
  proof -
    have "copy_data (\<lambda>_. ld) (disk_st b) addr j 1 t = Some t'" using that by (auto simp: copy_from_user_data)
    then show ?thesis by (rule copy_data_keeps) (auto simp: disk_st_def dest!: bind_SomeD)
  qed
  show ?thesis
    using assms room cp
    by (auto simp: write_step_def Let_def set_offset_def set_size_def dest!: bind_SomeD split: sum.splits if_splits prod.splits)
qed

lemma write_loop_devs:
  "write_loop ld buffer n vi di i blk byte s = Some (r, s') \<Longrightarrow> logic_dev (fdt s' v) = logic_dev (fdt s v)"
proof (induction ld buffer n vi di i blk byte s rule: write_loop.induct)
  case (1 ld buffer n vi di i blk byte s)
  show ?case
  proof (cases "i < n")
    case True
    then obtain x s1 where x: "write_step ld (buffer + i) vi di blk byte s = Some (x, s1)"
      "(case x of Inl e \<Rightarrow> Some (e, s1) | Inr (b, c) \<Rightarrow> write_loop ld buffer n vi di (i + 1) b c s1) = Some (r, s')"
      using "1.prems" by (subst (asm) write_loop.simps) (auto dest!: bind_SomeD)
    show ?thesis
    proof (cases x)
      case (Inl e)
      then show ?thesis using x write_step_devs [OF x(1)] by simp
    next
      case (Inr p)
      obtain b c where p: "p = (b, c)" by (cases p)
      have "write_loop ld buffer n vi di (i + 1) b c s1 = Some (r, s')" using x(2) Inr p by simp
      then have "logic_dev (fdt s' v) = logic_dev (fdt s1 v)" using "1.IH" [OF True x(1) refl _ p [symmetric]] Inr p by simp
      then show ?thesis using write_step_devs [OF x(1)] by simp
    qed
  qed (use "1.prems" in \<open>simp add: write_loop.simps\<close>)
qed

lemma sys_write_file_devs: "sys_write_file ld vi di buffer n s = Some (r, s') \<Longrightarrow> devs_kept s s'"
  using write_loop_devs by (auto simp: sys_write_file_def Let_def devs_kept_def dest!: bind_SomeD)

lemma sys_write_stable:
  assumes "sys_write fd buffer n k = Some (v, k')"
  shows "kstable k k'"
proof -
  have "kstable k k'" if "call_write r vi di buffer n k = Some (v, k')" for r vi di
    using that sys_write_console_stable kstable_fs [OF sys_write_file_devs]
    by (auto simp: call_write_def lift_fs_def split: routine.splits)
  then show ?thesis
    using assms by (auto simp: sys_write_def dest!: bind_SomeD split: if_splits option.splits prod.splits)
qed

text \<open>Stores to user memory change nothing but the memory.\<close>

definition ram_only :: "mm_state \<Rightarrow> mm_state \<Rightarrow> bool" where
  "ram_only m m' \<longleftrightarrow> (\<exists>r. m' = m\<lparr>ram := r\<rparr>)"

lemma ram_only_refl [simp]: "ram_only m m"
  unfolding ram_only_def by (intro exI [of _ "ram m"]) simp

lemma ram_only_trans: "ram_only m m1 \<Longrightarrow> ram_only m1 m2 \<Longrightarrow> ram_only m m2"
  by (auto simp: ram_only_def)

lemma ust_ram: "ust m a b = Some m' \<Longrightarrow> ram_only m m'"
  by (auto simp: ust_def vwrite_def ram_only_def split: if_splits)

lemma kstable_mm: "ram_only (mm k) m \<Longrightarrow> kstable k (k\<lparr>mm := m\<rparr>)"
  by (auto simp: ram_only_def kstable_ram)

lemma read_step_keeps:
  assumes "read_step addr n vi blk byte (s, m) = Some (r, s', m')"
  shows "(\<forall>v. logic_dev (fdt s' v) = logic_dev (fdt s v)) \<and> ram_only m m'"
  using assms ust_ram [of m] by (auto simp: read_step_def Let_def set_offset_def dest!: bind_SomeD split: option.splits if_splits prod.splits)

lemma read_loop_keeps:
  "read_loop buffer n vi di i blk byte sm = Some (r, s', m') \<Longrightarrow>
    (\<forall>v. logic_dev (fdt s' v) = logic_dev (fdt (fst sm) v)) \<and> ram_only (snd sm) m'"
proof (induction buffer n vi di i blk byte sm rule: read_loop.induct)
  case (1 buffer n vi di i blk byte sm)
  obtain s m where sm: "sm = (s, m)" by (cases sm)
  show ?case
  proof (cases "i < n \<and> voffset (fdt (fst sm) vi) < fsize (dir (fst sm) di)")
    case True
    then obtain x s1 m1 where x: "read_step (buffer + i) n vi blk byte (s, m) = Some (x, s1, m1)"
      "(case x of None \<Rightarrow> Some (i, s1, m1) | Some (b, c) \<Rightarrow> read_loop buffer n vi di (i + 1) b c (s1, m1)) = Some (r, s', m')"
      using "1.prems" sm by (subst (asm) read_loop.simps) (auto dest!: bind_SomeD)
    note st = read_step_keeps [OF x(1)]
    show ?thesis
    proof (cases x)
      case None
      then show ?thesis using x st sm by simp
    next
      case (Some p)
      obtain b c where p: "p = (b, c)" by (cases p)
      have "read_loop buffer n vi di (i + 1) b c (s1, m1) = Some (r, s', m')" using x(2) Some p by simp
      then have "(\<forall>v. logic_dev (fdt s' v) = logic_dev (fdt s1 v)) \<and> ram_only m1 m'"
        using "1.IH" [OF True x(1) [folded sm] refl _ p [symmetric]] Some p by simp
      then show ?thesis using st sm ram_only_trans [of m m1 m'] by simp
    qed
  qed (use "1.prems" sm in \<open>auto simp: read_loop.simps\<close>)
qed

lemma sys_read_file_stable:
  assumes "sys_read_file vi di buffer n (fs k, mm k) = Some (v, s, m)"
  shows "kstable k (k\<lparr>fs := s, mm := m\<rparr>)"
proof -
  obtain b where "read_loop buffer n vi di 0 b (voffset (fdt (fs k) vi) mod 256) (fs k, mm k) = Some (v, s, m)"
    using assms by (auto simp: sys_read_file_def Let_def dest!: bind_SomeD)
  from read_loop_keeps [OF this] have "devs_kept (fs k) s" "ram_only (mm k) m" by (auto simp: devs_kept_def)
  then show ?thesis using kstable_trans [OF kstable_fs [of k s] kstable_mm [of "k\<lparr>fs := s\<rparr>" m]] by simp
qed

lemma copy_to_user_ust:
  assumes "copy_to_user ld ust p q n m = Some (v, m')"
  shows "ram_only m m'"
proof -
  have "copy_data ld ust p q n m = Some m'" using assms by (auto simp: copy_to_user_data)
  then show ?thesis by (rule copy_data_keeps) (simp, blast intro: ust_ram ram_only_trans)
qed

lemma sys_get_stats_stable: "sys_get_stats p st k = Some (v, k') \<Longrightarrow> kstable k k'"
  using kstable_mm [OF copy_to_user_ust]
  by (auto simp: sys_get_stats_def Let_def dest!: bind_SomeD split: if_splits)

lemma sys_nice_stable: "sys_nice q k = (v, k') \<Longrightarrow> kstable k k'"
  using kstable_upd_task [of "\<lambda>t. t\<lparr>quantum := q\<rparr>" k "cur k"] by (auto simp: sys_nice_def split: if_splits)

lemma copy_from_circ_buffer_stable:
  assumes "copy_from_circ_buffer b n k = Some k'"
  shows "kstable k k'"
proof -
  let ?k1 = "upd_task b (\<lambda>t. t\<lparr>t_buffer := t_buffer t + 81920\<rparr>)
    (k\<lparr>mm := (mm k)\<lparr>pagusr_table := (\<lambda>pg. if 284 \<le> pg \<and> pg < 304 then user_pte (ph_pages (task k b) (pg - 284)) else pagusr_table (mm k) pg)\<rparr>\<rparr>)"
  obtain buff v m buf' where c: "copy_to_user (buf_ld 5) ust_buf 0 (t_buffer (task ?k1 b)) n (mm ?k1, buff) = Some (v, m, buf')"
    and k': "k' = upd_task b (\<lambda>t. t\<lparr>t_buffer := t_buffer t - 81920\<rparr>) (?k1\<lparr>mm := set_cr3 (dir_pages_addr (lay k))
      (m\<lparr>pagusr_table := (\<lambda>pg. if 284 \<le> pg \<and> pg < 304 then user_pte (ph_pages (current (?k1\<lparr>mm := m\<rparr>)) (pg - 284)) else pagusr_table (mm (?k1\<lparr>mm := m\<rparr>)) pg)\<rparr>)\<rparr>)"
    using assms by (auto simp: copy_from_circ_buffer_def lift_mm_def map_behind_eq Let_def dest!: bind_SomeD)
  have "copy_data (buf_ld 5) ust_buf 0 (t_buffer (task ?k1 b)) n (mm ?k1, buff) = Some (m, buf')" using c by (auto simp: copy_to_user_data)
  then have "ram_only (mm ?k1) (fst (m, buf'))"
    by (rule copy_data_keeps) (use ust_ram ram_only_trans in \<open>auto simp: ust_buf_def\<close>)
  then show ?thesis unfolding k' by (auto simp: kstable_def kframe_def set_cr3_def ram_only_def)
qed

end
