(* ===== verification/Reachable.thy ===== *)
theory Reachable
  imports Invariants
begin

text \<open>
  Every step of the system keeps the kernel invariant, or ends in a state whose running process is
  dead. Calls that change the descriptors of the running process, that block or wake processes and
  that create or end them are treated in turn, then the interrupts, and at the end the step relation.
\<close>

section \<open>Descriptors of the running process\<close>

text \<open>The calls that change descriptors change those of the running process only.\<close>

definition fd_change :: "kernel \<Rightarrow> kernel \<Rightarrow> bool" where
  "fd_change k k' \<longleftrightarrow> kframe k k' \<and> devs_kept (fs k) (fs k') \<and>
     (\<forall>i. i \<noteq> cur k \<longrightarrow> file_descriptors (task k' i) = file_descriptors (task k i)) \<and>
     (fds_ok (fs k) (file_descriptors (current k)) \<longrightarrow> fds_ok (fs k') (file_descriptors (current k')))"

lemma fd_change_kstable: "kstable k k' \<Longrightarrow> fd_change k k'"
  unfolding fd_change_def kstable_def kframe_def using fds_ok_mono [of "fs k" "fs k'"] by simp

lemma kinv_fd_change:
  assumes k: "kinv k" and c: "fd_change k k'"
  shows "kinv k'"
proof (rule kinv_kframe [OF k])
  show f: "kframe k k'" using c by (simp add: fd_change_def)
  have "fds_ok (fs k') (file_descriptors (task k' i))" if "live k i" for i
  proof (cases "i = cur k")
    case True
    have "cur k' = cur k" using f by (simp add: kframe_def)
    moreover have "fds_ok (fs k) (file_descriptors (current k))" using k that True by (simp add: kinv_def fds_all_def)
    ultimately show ?thesis using c True by (simp add: fd_change_def)
  next
    case False
    then show ?thesis using k c that fds_ok_mono [of "fs k" "fs k'"] by (simp add: kinv_def fds_all_def fd_change_def)
  qed
  then show "fds_all k'" using kframe_live [OF f] by (simp add: fds_all_def)
qed

text \<open>A new descriptor for an open file.\<close>

lemma fd_change_set:
  assumes s: "devs_kept (fs k) s" and v: "0 \<le> v" "v < 15" "logic_dev (fdt s v) \<noteq> None"
    and k': "k' = upd_task (cur k) (\<lambda>t. t\<lparr>file_descriptors := (file_descriptors t)(fd \<mapsto> v)\<rparr>) (k\<lparr>fs := s\<rparr>)"
  shows "fd_change k k'"
proof -
  have "fds_ok s ((file_descriptors (current k))(fd \<mapsto> v))" if "fds_ok (fs k) (file_descriptors (current k))"
    using fds_ok_mono [OF s that] v by (simp add: fds_ok_def)
  then show ?thesis using s unfolding k' by (simp add: fd_change_def kframe_def)
qed

lemma share_fd_devs: "share_fd fd s = Some s' \<Longrightarrow> (\<forall>v. logic_dev (fdt s' v) = logic_dev (fdt s v)) \<and>
    (\<forall>v. fd = Some v \<longrightarrow> 0 \<le> v \<and> v < 15 \<and> logic_dev (fdt s' v) \<noteq> None)"
  by (auto simp: share_fd_def rd_def dest!: bind_SomeD split: option.splits if_splits)

lemma sys_dup_fds:
  assumes d: "sys_dup fd k = Some (v, k')"
  shows "fd_change k k'"
proof (cases "fd < 0 \<or> fd \<ge> 10 \<or> file_descriptors (current k) fd = None \<or> fd_slot k = 10")
  case True
  then have "k' = k" using d by (auto simp: sys_dup_def fd_slot_def split: if_splits)
  then show ?thesis using fd_change_kstable by simp
next
  case False
  then obtain w where w: "file_descriptors (current k) fd = Some w" by auto
  let ?k1 = "upd_task (cur k) (\<lambda>t. t\<lparr>file_descriptors := (file_descriptors t)(fd_slot k \<mapsto> w)\<rparr>) k"
  obtain s where s: "share_fd (Some w) (fs k) = Some s" "k' = ?k1\<lparr>fs := s\<rparr>"
    using d [unfolded sys_dup_def Let_def, folded fd_slot_def] False w by (auto simp: upd_task_def dest!: bind_SomeD)
  show ?thesis
  proof (rule fd_change_set)
    show "devs_kept (fs k) s" using share_fd_devs [OF s(1)] by (simp add: devs_kept_def)
    show "0 \<le> w" "w < 15" "logic_dev (fdt s w) \<noteq> None" using share_fd_devs [OF s(1)] by auto
    show "k' = upd_task (cur k) (\<lambda>t. t\<lparr>file_descriptors := (file_descriptors t)(fd_slot k \<mapsto> w)\<rparr>) (k\<lparr>fs := s\<rparr>)"
      unfolding s(2) by (simp add: upd_task_def)
  qed
qed

lemma sys_close_fds:
  assumes c: "sys_close fd k = Some (v, k')"
  shows "fd_change k k'"
proof (cases "fd < 0 \<or> fd \<ge> 10 \<or> file_descriptors (current k) fd = None")
  case True
  then have "k' = k" using c by (auto simp: sys_close_def split: if_splits)
  then show ?thesis using fd_change_kstable by simp
next
  case False
  then obtain w where w: "file_descriptors (current k) fd = Some w" by auto
  obtain di where k1: "k' = upd_task (cur k) (\<lambda>t. t\<lparr>file_descriptors := (file_descriptors t)(fd := None)\<rparr>) (k\<lparr>fs := (fs k)\<lparr>
      fdt := (fdt (fs k))(w := (fdt (fs k) w)\<lparr>refs := refs (fdt (fs k) w) - 1\<rparr>),
      dir := (dir (fs k))(di := (dir (fs k) di)\<lparr>n_refs := n_refs (dir (fs k) di) - 1\<rparr>)\<rparr>\<rparr>)"
    using c False w by (auto simp: sys_close_def Let_def dest!: bind_SomeD split: if_splits prod.splits)
  obtain s where s: "\<forall>v. logic_dev (fdt s v) = logic_dev (fdt (fs k) v)"
    and k': "k' = upd_task (cur k) (\<lambda>t. t\<lparr>file_descriptors := (file_descriptors t)(fd := None)\<rparr>) (k\<lparr>fs := s\<rparr>)"
    by (rule that [OF _ k1]) simp
  have "fds_ok s ((file_descriptors (current k))(fd := None))" if "fds_ok (fs k) (file_descriptors (current k))"
    using that s by (simp add: fds_ok_def)
  then show ?thesis using s unfolding k' by (simp add: fd_change_def kframe_def devs_kept_def)
qed

lemma sys_open_fds:
  assumes o: "sys_open path flags k = Some (fd, k')"
  shows "fd_change k k'"
proof -
  have same: "fd_change k (k\<lparr>fs := s\<rparr>)" if "open_lookup (uld (mm k)) path flags (fs k) = Some (r, s)" for r s
    using open_lookup_frame(1) [OF that] by (intro fd_change_kstable kstable_fs) (simp add: devs_kept_def)
  have set: "fd_change k (opened di fl k s)"
    if l: "open_lookup (uld (mm k)) path flags (fs k) = Some (r, s)" and sl: "fdt_slot k \<noteq> 15" for di fl r s
    by (rule fd_change_set [OF _ _ _ _ opened_def])
      (use open_lookup_frame(1) [OF l] fdt_slot_free [OF sl] in \<open>auto simp: devs_kept_def\<close>)
  show ?thesis
    using o [unfolded sys_open_def Let_def, folded fd_slot_def fdt_slot_def] same set fd_change_kstable [OF kstable_refl, of k]
    by (auto simp: opened_def [symmetric] dest!: bind_SomeD split: if_splits sum.splits prod.splits)
qed

lemma freeb_devs: "freeb b s = Some (r, s') \<Longrightarrow> fdt s' = fdt s"
  by (auto simp: freeb_def dest!: bind_SomeD split: if_splits)

lemma sys_unlink_stable: "sys_unlink path k = Some (v, k') \<Longrightarrow> kstable k k'"
  using freeb_devs
  by (auto simp: sys_unlink_def call_release_def sys_release_file_def Let_def devs_kept_def intro!: kstable_fs
    dest!: bind_SomeD split: if_splits option.splits routine.splits)

section \<open>Blocking and waking\<close>

text \<open>What a step that only moves processes between queues leaves as it is.\<close>

definition pframe :: "kernel \<Rightarrow> kernel \<Rightarrow> bool" where
  "pframe k k' \<longleftrightarrow> lay k' = lay k \<and> tss (mm k') = tss (mm k) \<and> fs k' = fs k \<and> next_pid k' = next_pid k \<and> phys_mem (mm k') = phys_mem (mm k) \<and>
     (\<forall>i. pid (task k' i) = pid (task k i) \<and> ph_pages (task k' i) = ph_pages (task k i) \<and>
       file_descriptors (task k' i) = file_descriptors (task k i)) \<and> (sems_ok k \<longrightarrow> sems_ok k')"

lemma kinv_moved:
  assumes k: "kinv k" and f: "pframe k k'" and q: "queues k' Q" and c: "cur k' = cur k"
    and t: "\<And>p. p < 284 \<Longrightarrow> pagusr_table (mm k') p = pagusr_table (mm k) p"
  shows "kinv k'"
proof -
  have lv: "live k' = live k" using f by (auto simp: live_def fun_eq_iff pframe_def)
  have ow: "owned (mm k') = owned (mm k)" using f by (intro owned_cong) (simp add: pframe_def)
  have "frames_ok k'" using k f by (subst frames_ok_cong [of k' k]) (auto simp: kinv_def pframe_def)
  moreover have "iso_ok k'" using k f c t unfolding kinv_def iso_ok_def lv ow by (simp add: pframe_def)
  moreover have "pids_ok k'" using k f unfolding kinv_def pids_ok_def lv by (simp add: pframe_def)
  moreover have "fds_all k'" using k f unfolding kinv_def fds_all_def lv by (simp add: pframe_def)
  moreover have "sems_ok k'" using k f by (simp add: kinv_def pframe_def)
  moreover have "esp_ok k'" using k f c by (simp add: kinv_def esp_ok_def pframe_def)
  ultimately show ?thesis using q unfolding kinv_def by blast
qed

lemma kinv_moved_switched:
  assumes k: "kinv k" and f: "pframe k k1" and q: "queues (switched t k1) Q" and t: "live k t" and s: "sem k1 = sem k"
  shows "kinv (switched t k1)"
  by (rule kinv_block [OF k q t]) (use f s in \<open>auto simp: pframe_def\<close>)

lemma kinvE:
  assumes "kinv k"
  obtains Q rq where "queues k Q" and "Q RunQ = Some (TaskL (cur k) # rq)" and "frames_ok k"
  using assms queues_run unfolding kinv_def by metis

text \<open>A process other than process 0 never has the run queue for itself, since process 0 never blocks.\<close>

lemma kinv_second:
  assumes k: "kinv k" and p: "pid (current k) \<noteq> 0"
  obtains Q t rq where "queues k Q" and "frames_ok k" and "Q RunQ = Some (TaskL (cur k) # TaskL t # rq)"
proof -
  obtain Q rq where q: "queues k Q" "Q RunQ = Some (TaskL (cur k) # rq)" "frames_ok k" using k by (rule kinvE)
  have "TaskL 0 \<in> set (TaskL (cur k) # rq)" using queues_run [OF q(1)] q(2) by (metis option.inject)
  moreover have "cur k \<noteq> 0" using queues_pid [OF q(1), of "cur k"] queues_cur [OF q(1)] p by (auto simp: live_def)
  ultimately obtain a as where as: "rq = a # as" by (cases rq) auto
  then obtain t where "a = TaskL t" using queues_entry [OF q(1,2), of a] by auto
  then show ?thesis using that q as by blast
qed

lemma sys_sem_init_inv:
  assumes k: "kinv k" and s: "sys_sem_init n v k = (r, k')"
  shows "kinv k'"
proof (cases "0 \<le> n \<and> n < 26 \<and> init (sem k n) \<noteq> 1")
  case True
  obtain Q where q: "queues k Q" using k by (rule kinvE)
  obtain k1 where k1: "sys_sem_init n v k = (0, k1)" "queues k1 (Q(SemQ n \<mapsto> []))"
    using sys_sem_init_ok [OF q] True by blast
  have k': "k' = k1" using s k1 by simp
  have "pframe k k' \<and> cur k' = cur k \<and> mm k' = mm k" using s True by (auto simp: sys_sem_init_def Let_def pframe_def sems_ok_def)
  then show ?thesis using kinv_moved [OF k, of k'] k1(2) unfolding k' by simp
next
  case False
  then show ?thesis using s k by (auto simp: sys_sem_init_def split: if_splits)
qed

lemma sys_sem_wait_inv:
  assumes k: "kinv k" and s: "sys_sem_wait n k = Some (out, k')"
  shows "kinv k'"
proof (cases "pid (current k) \<noteq> 0 \<and> 0 \<le> n \<and> n < 26 \<and> init (sem k n) = 1")
  case True
  obtain Q where q: "queues k Q" using k by (rule kinvE)
  obtain ws where w: "Q (SemQ n) = Some ws" using queues_sem [OF q] True by blast
  show ?thesis
  proof (cases "0 < count (sem k n)")
    case pos: True
    let ?k = "upd_sem n (\<lambda>s. s\<lparr>count := u32 (count s - 1)\<rparr>) k"
    have "k' = ?k" using sys_sem_wait_pass(1) [OF q] True pos s by simp
    moreover have "queues ?k Q" using sys_sem_wait_pass(2) [OF q] True pos by simp
    ultimately show ?thesis using kinv_moved [OF k, of ?k Q] by (simp add: pframe_def sems_ok_def)
  next
    case False
    then have c: "count (sem k n) = 0" using k by (simp add: kinv_def sems_ok_def order_antisym)
    obtain h t rq where b: "Q RunQ = Some (TaskL (cur k) # TaskL t # rq)"
      "sys_sem_wait n k = Some (Switched, switched t (k\<lparr>lists := h, it_is_int := 0\<rparr>))"
      "queues (switched t (k\<lparr>lists := h, it_is_int := 0\<rparr>)) (Q(RunQ \<mapsto> TaskL t # rq, SemQ n \<mapsto> ws @ [TaskL (cur k)]))"
      using sys_sem_wait_block [OF q _ _ _ _ c w] True by metis
    have "live k t" using queues_entry [OF q b(1), of "TaskL t"] by auto
    then have "kinv (switched t (k\<lparr>lists := h, it_is_int := 0\<rparr>))"
      by (intro kinv_moved_switched [OF k _ b(3)]) (auto simp: pframe_def sems_ok_def)
    then show ?thesis using b(2) s by simp
  qed
next
  case False
  then show ?thesis using s k by (auto simp: sys_sem_wait_def split: if_splits)
qed

lemma sys_sem_signal_inv:
  assumes k: "kinv k" and s: "sys_sem_signal n k = Some (r, k')"
  shows "kinv k'"
proof (cases "0 \<le> n \<and> n < 26 \<and> init (sem k n) = 1")
  case True
  obtain Q rq where q: "queues k Q" "Q RunQ = Some (TaskL (cur k) # rq)" using k by (rule kinvE)
  obtain ws where w: "Q (SemQ n) = Some ws" using queues_sem [OF q(1)] True by blast
  show ?thesis
  proof (cases ws)
    case Nil
    let ?k = "upd_sem n (\<lambda>s. s\<lparr>count := u32 (count s + 1)\<rparr>) k"
    have "k' = ?k" using sys_sem_signal_empty(1) [OF q(1)] True w Nil s by simp
    moreover have "queues ?k Q" using sys_sem_signal_empty(2) [OF q(1)] True w Nil by simp
    ultimately show ?thesis using kinv_moved [OF k, of ?k Q] by (simp add: pframe_def sems_ok_def)
  next
    case (Cons a as)
    then obtain i where a: "a = TaskL i" using queues_entry [OF q(1) w, of a] by auto
    obtain h where h: "sys_sem_signal n k = Some (0, (upd_task i (set_eax 0) k)\<lparr>lists := h\<rparr>)"
      "queues ((upd_task i (set_eax 0) k)\<lparr>lists := h\<rparr>) (Q(SemQ n \<mapsto> as, RunQ \<mapsto> (TaskL (cur k) # rq) @ [TaskL i]))"
      using sys_sem_signal_wake [OF q(1) _ _ _ _ q(2)] True w Cons a by metis
    have "kinv ((upd_task i (set_eax 0) k)\<lparr>lists := h\<rparr>)"
      by (rule kinv_moved [OF k _ h(2)]) (auto simp: pframe_def sems_ok_def)
    then show ?thesis using h(1) s by simp
  qed
next
  case False
  then show ?thesis using s k by (auto simp: sys_sem_signal_def split: if_splits)
qed

text \<open>\<open>sys_sem_destroy\<close> touches the descriptors and frames of no process, whatever it does.\<close>

lemma pframe_refl [simp]: "pframe k k" by (simp add: pframe_def)

lemma pframe_trans: "pframe k k1 \<Longrightarrow> pframe k1 k2 \<Longrightarrow> pframe k k2" by (simp add: pframe_def)

lemma wake_first_pframe: "wake_first n v k = Some k' \<Longrightarrow> pframe k k' \<and> mm k' = mm k \<and> cur k' = cur k"
  by (auto simp: wake_first_def lift_lists_def Let_def pframe_def sems_ok_def dest!: bind_SomeD)

lemma wake_all_pframe:
  assumes w: "wake_all n k = Some k'"
  shows "pframe k k' \<and> mm k' = mm k \<and> cur k' = cur k"
proof (rule wake_all.raw_induct [where P = "\<lambda>n k k'. pframe k k' \<and> mm k' = mm k \<and> cur k' = cur k", OF _ w])
  fix wake n and k k' :: kernel
  assume IH: "\<And>n k k'. wake n k = Some k' \<Longrightarrow> pframe k k' \<and> mm k' = mm k \<and> cur k' = cur k"
    and w: "(if list_empty (lists k) (SemQ n) then Some k else Option.bind (wake_first n (-1) k) (wake n)) = Some k'"
  show "pframe k k' \<and> mm k' = mm k \<and> cur k' = cur k"
  proof (cases "list_empty (lists k) (SemQ n)")
    case False
    then obtain k1 where k1: "wake_first n (-1) k = Some k1" "wake n k1 = Some k'" using w by (auto dest!: bind_SomeD)
    show ?thesis using wake_first_pframe [OF k1(1)] IH [OF k1(2)] pframe_trans by auto
  qed (use w in simp)
qed

lemma sys_sem_destroy_pframe:
  assumes "sys_sem_destroy n k = Some (r, k')"
  shows "pframe k k' \<and> mm k' = mm k \<and> cur k' = cur k"
proof -
  have "pframe k (upd_task i (\<lambda>t. t\<lparr>owned_sems := f t\<rparr>) (upd_sem n (\<lambda>s. s\<lparr>init := 0\<rparr>) k1))" if "pframe k k1" for k1 i f
    using that by (simp add: pframe_def sems_ok_def)
  then show ?thesis
    using assms wake_all_pframe by (auto simp: sys_sem_destroy_def Let_def dest!: bind_SomeD split: if_splits)
qed

lemma sys_sem_destroy_inv:
  assumes k: "kinv k" and s: "sys_sem_destroy n k = Some (r, k')"
  shows "kinv k'"
proof (cases "0 \<le> n \<and> n < 26 \<and> owned_sems (current k) n = 1")
  case True
  obtain Q rq where q: "queues k Q" "Q RunQ = Some (TaskL (cur k) # rq)" using k by (rule kinvE)
  obtain Q' where "queues k' Q'" using sem_destroy_any [OF q(1) _ _ _ q(2), of n] True s by fastforce
  then show ?thesis using kinv_moved [OF k, of k'] sys_sem_destroy_pframe [OF s] by simp
next
  case False
  then show ?thesis using s k by (auto simp: sys_sem_destroy_def split: if_splits)
qed

section \<open>Reads\<close>

lemma sys_read_keyboard_inv:
  assumes k: "kinv k" and r: "sys_read_keyboard n k = Some (out, k')"
  shows "kinv k'"
proof -
  define v where "v = (if n > circ_chars k then n - circ_chars k else 0)"
  define k1 where "k1 = upd_task (cur k) (\<lambda>t. t\<lparr>pending_chars := v\<rparr>) k"
  have s1: "kstable k k1" unfolding k1_def by (rule kstable_upd_task) simp
  have r1: "sys_read_keyboard n k =
      (if v \<le> 0 \<and> list_empty (lists k) KbdQ then Option.bind (copy_from_circ_buffer (cur k) n k1)
         (\<lambda>k. Some (Return n, k\<lparr>circ_chars := circ_chars k - n, kstart := cmod (kstart k + n) 5\<rparr>))
       else if pid (current k) \<noteq> 0 then Option.bind (block_into_kbd (cur k) (k1\<lparr>kstart := kp k1\<rparr>)) (\<lambda>k1.
         Option.bind (list_head_to_task_struct (nxt (lists k1) RunQ)) (\<lambda>t.
           Some (Switched, switched t ((upd_task (cur k) (set_eax n) (upd_task (cur k) (\<lambda>t. t\<lparr>t_size := n\<rparr>) k1))\<lparr>it_is_int := 0\<rparr>))))
       else Some (Return (- EPERM), k1))"
    unfolding sys_read_keyboard_def Let_def v_def [symmetric] k1_def [symmetric] by (simp add: k1_def task_switch_eq)
  show ?thesis
  proof (cases "(v \<le> 0 \<and> list_empty (lists k) KbdQ) \<or> pid (current k) = 0")
    case True
    have "kstable k (u\<lparr>circ_chars := a, kstart := c\<rparr>)" if "copy_from_circ_buffer (cur k) n k1 = Some u" for u a c
      using kstable_trans [OF s1 copy_from_circ_buffer_stable [OF that]] by (simp add: kstable_def kframe_def)
    then have "kstable k k'" using True r s1 unfolding r1 by (auto dest!: bind_SomeD split: if_splits)
    then show ?thesis by (rule kinv_kstable [OF k])
  next
    case False
    obtain Q where q: "queues k Q" using k by (rule kinvE)
    obtain ws where w: "Q KbdQ = Some ws" using queues_kbd [OF q] by blast
    have p: "pid (current k) \<noteq> 0" and nf: "\<not> (v \<le> 0 \<and> list_empty (lists k) KbdQ)" using False by auto
    obtain h1 h t rq where b: "Q RunQ = Some (TaskL (cur k) # TaskL t # rq)" "list_del (lists k) (TaskL (cur k)) = Some h1"
      "list_add_tail h1 (TaskL (cur k)) KbdQ = Some h" "nxt h RunQ = Some (TaskL t)"
      and q': "\<And>k'. lists k' = h \<Longrightarrow> cur k' = t \<Longrightarrow> (\<And>i. pid (task k' i) = pid (task k i)) \<Longrightarrow> sem k' = sem k \<Longrightarrow>
        queues k' (Q(RunQ \<mapsto> TaskL t # rq, KbdQ \<mapsto> ws @ [TaskL (cur k)]))"
      by (rule block_current [OF q p w]) auto
    let ?k = "(upd_task (cur k) (set_eax n) (upd_task (cur k) (\<lambda>t. t\<lparr>t_size := n\<rparr>) (k1\<lparr>kstart := kp k1, lists := h\<rparr>)))\<lparr>it_is_int := 0\<rparr>"
    have "k' = switched t ?k"
      using r b(2-4) unfolding r1 if_not_P [OF nf] if_P [OF p] by (simp add: block_into_kbd_def lift_lists_def k1_def)
    moreover have "kinv (switched t ?k)"
    proof (rule kinv_moved_switched [OF k])
      show "pframe k ?k" "sem ?k = sem k" by (simp_all add: k1_def pframe_def sems_ok_def)
      show "live k t" using queues_entry [OF q b(1), of "TaskL t"] by auto
      show "queues (switched t ?k) (Q(RunQ \<mapsto> TaskL t # rq, KbdQ \<mapsto> ws @ [TaskL (cur k)]))"
        by (rule q') (simp_all add: k1_def)
    qed
    ultimately show ?thesis by simp
  qed
qed

lemma sys_read_inv:
  assumes k: "kinv k" and r: "sys_read fd buffer n k = Some (out, k')"
  shows "kinv k'"
proof -
  let ?k = "upd_task (cur k) (\<lambda>t. t\<lparr>t_size := n, t_buffer := buffer\<rparr>) k"
  have s: "kinv ?k" by (rule kinv_kstable [OF k kstable_upd_task]) simp
  have "kinv k'" if "call_read f vi di buffer n ?k = Some (out, k')" for f vi di
    using that sys_read_keyboard_inv [OF s] kinv_kstable [OF s sys_read_file_stable [of vi di buffer n]]
    by (auto simp: call_read_def dest!: bind_SomeD split: routine.splits)
  then show ?thesis
    using r k s by (auto simp: sys_read_def Let_def dest!: bind_SomeD split: if_splits option.splits)
qed

section \<open>The clock\<close>

lemma schedule_inv:
  assumes k: "kinv k" and s: "schedule b k = Some (out, k')"
  shows "kinv k' \<and> (out = Return () \<longrightarrow> kstable k k')"
proof (cases "left4current k \<le> 0")
  case True
  obtain Q rq where q: "queues k Q" "Q RunQ = Some (TaskL (cur k) # rq)" using k by (rule kinvE)
  show ?thesis
  proof (cases rq)
    case Nil
    let ?k = "upd_task (cur k) (\<lambda>t. t\<lparr>remaining := quantum t\<rparr>) (k\<lparr>left4current := quantum (current k)\<rparr>)"
    have "k' = ?k" using schedule_lone [OF q(1) True] q(2) Nil s by simp
    moreover have "kstable k ?k" by (simp add: kstable_def kframe_def)
    ultimately show ?thesis using kinv_kstable [OF k] by simp
  next
    case (Cons a as)
    then obtain t where t: "a = TaskL t" "live k t" using queues_entry [OF q, of a] by auto
    obtain h where h: "schedule b k = Some (Switched, switched t (k\<lparr>lists := h, it_is_int := b\<rparr>))"
      "queues (switched t (k\<lparr>lists := h, it_is_int := b\<rparr>)) (Q(RunQ \<mapsto> TaskL t # as @ [TaskL (cur k)]))"
      using schedule_rotate [OF q(1) True] q(2) Cons t(1) by metis
    have "kinv (switched t (k\<lparr>lists := h, it_is_int := b\<rparr>))"
      by (rule kinv_moved_switched [OF k _ h(2) t(2)]) (auto simp: pframe_def sems_ok_def)
    then show ?thesis using h(1) s by simp
  qed
next
  case False
  then show ?thesis using s k by (simp add: schedule_def)
qed

lemma show_time_stable: "kstable k (show_time k)"
  by (simp add: show_time_def Let_def kstable_def kframe_def)

lemma clock_routine_inv:
  assumes k: "kinv k" and c: "clock_routine k = Some (out, k')"
  shows "kinv k'"
proof -
  let ?k = "upd_task (cur k) (\<lambda>t. t\<lparr>cpu_tics := s32 (cpu_tics t + 1), remaining := s32 (remaining t - 1)\<rparr>)
    (k\<lparr>tics := s32 (tics k + 1), left4current := s32 (left4current k - 1)\<rparr>)"
  have "kstable k ?k" by (simp add: kstable_def kframe_def)
  then have k1: "kinv ?k" by (rule kinv_kstable [OF k])
  obtain o2 k2 where s: "schedule 1 ?k = Some (o2, k2)" and k': "k' = k2 \<or> k' = show_time k2"
    using c by (auto simp: clock_routine_def Let_def dest!: bind_SomeD split: outcome.splits)
  show ?thesis using schedule_inv [OF k1 s] k' kinv_kstable [OF _ show_time_stable] by auto
qed

section \<open>The keyboard\<close>

lemma unblock_inv:
  assumes k: "kinv k" and b: "nxt (lists k) KbdQ = Some (TaskL b)" and u: "unblock_and_enqueque b k = Some k'"
  shows "kinv k'"
proof -
  obtain Q rq where q: "queues k Q" "Q RunQ = Some (TaskL (cur k) # rq)" using k by (rule kinvE)
  obtain ws where w: "Q KbdQ = Some ws" using queues_kbd [OF q(1)] by blast
  obtain ws' where ws: "ws = TaskL b # ws'"
    using lh.front_law [OF queues_rings [OF q(1)] w] b by (cases ws) (auto simp: list_first_def)
  obtain h where h: "unblock_and_enqueque b k = Some (k\<lparr>lists := h\<rparr>)" "queues (k\<lparr>lists := h\<rparr>) (Q(KbdQ \<mapsto> ws', RunQ \<mapsto> (TaskL (cur k) # rq) @ [TaskL b]))"
    using unblock_ok [OF q(1) w [unfolded ws] q(2)] by blast
  have "kinv (k\<lparr>lists := h\<rparr>)" by (rule kinv_moved [OF k _ h(2)]) (auto simp: pframe_def sems_ok_def)
  then show ?thesis using h(1) u by simp
qed

lemma keyboard_routine_inv:
  assumes k: "kinv k" and r: "keyboard_routine i k = Some k'"
  shows "kinv k'"
proof (cases "i AND 0x80 = 0")
  case press: True
  obtain c cb where c: "rd 98 (\<lambda>j. char_map ! nat j) (uint (i AND 0x7F)) = Some c" "wr 5 (circular k) (kp k) c = Some cb"
    using r press by (auto simp: keyboard_routine_def dest!: bind_SomeD)
  define k1 where "k1 = (let k = step_circ_buffer (k\<lparr>circular := cb\<rparr>) in k\<lparr>circ_chars := circ_chars k + 1\<rparr>)"
  have s1: "kstable k k1" and l1: "lists k1 = lists k" by (simp_all add: k1_def step_circ_buffer_def Let_def kstable_def kframe_def)
  show ?thesis
  proof (cases "list_empty (lists k) KbdQ")
    case True
    then have "k' = k1\<lparr>scr := printc c (scr k1)\<rparr>"
      using r press c by (simp add: keyboard_routine_def Let_def k1_def step_circ_buffer_def)
    then show ?thesis using kinv_kstable [OF k kstable_trans [OF s1 kstable_scr]] by simp
  next
    case False
    obtain b where b: "nxt (lists k) KbdQ = Some (TaskL b)"
      using r press c False
      by (auto simp: keyboard_routine_def Let_def step_circ_buffer_def list_head_to_task_struct_def dest!: bind_SomeD split: option.splits list_node.splits)
    define k2 where "k2 = upd_task b (\<lambda>t. t\<lparr>pending_chars := pending_chars t - 1\<rparr>) k1"
    have s2: "kstable k k2" unfolding k2_def by (rule kstable_trans [OF s1 kstable_upd_task]) simp
    have copied: "kstable k (u\<lparr>circ_chars := x, kstart := y\<rparr>)" "kstable k ((upd_task b (\<lambda>t. t\<lparr>t_size := f t, t_buffer := g t\<rparr>) u)\<lparr>circ_chars := x, kstart := y\<rparr>)"
      if "copy_from_circ_buffer b n k2 = Some u" for u n x y f g
      using kstable_trans [OF s2 copy_from_circ_buffer_stable [OF that]] by (simp_all add: kstable_def kframe_def)
    have b2: "nxt (lists u) KbdQ = Some (TaskL b)" if "copy_from_circ_buffer b n k2 = Some u" for u n
      using copy_from_circ_buffer_stable [OF that] b l1 by (simp add: kstable_def kframe_def k2_def)
    have eq: "keyboard_routine i k =
      (if pending_chars (task k2 b) \<le> 0 then Option.bind (copy_from_circ_buffer b (t_size (task k2 b)) k2)
         (\<lambda>k. unblock_and_enqueque b (k\<lparr>circ_chars := 0, kstart := kp k\<rparr>))
       else if circ_chars k2 \<ge> 5 then Option.bind (copy_from_circ_buffer b 5 k2)
         (\<lambda>k. Some ((upd_task b (\<lambda>t. t\<lparr>t_size := t_size t - circ_chars k, t_buffer := t_buffer t + circ_chars k\<rparr>) k)
           \<lparr>circ_chars := 0, kstart := kp k\<rparr>))
       else Some k2)"
      using press c False b by (simp add: keyboard_routine_def Let_def step_circ_buffer_def k2_def k1_def)
    have "(\<exists>u n x y. copy_from_circ_buffer b n k2 = Some u \<and> unblock_and_enqueque b (u\<lparr>circ_chars := x, kstart := y\<rparr>) = Some k') \<or> kstable k k'"
    proof (cases "pending_chars (task k2 b) \<le> 0")
      case True
      then show ?thesis using r unfolding eq by (auto dest!: bind_SomeD)
    next
      case False
      then show ?thesis using r s2 copied(2) unfolding eq by (auto dest!: bind_SomeD split: if_splits)
    qed
    then show ?thesis
      using kinv_kstable [OF k] unblock_inv [OF kinv_kstable [OF k copied(1)]] b2 by fastforce
  qed
next
  case False
  then have "k' = k" using r by (auto simp: keyboard_routine_def dest!: bind_SomeD)
  then show ?thesis using k by simp
qed

section \<open>Creation and end of processes\<close>

lemma fork_none_inv:
  assumes k: "kinv k" and k': "mm k' = mm k" "fs k' = fs k" "next_pid k' = next_pid k" "cur k' = cur k" "sem k' = sem k"
    and c: "\<not> live k c" "\<forall>i. pid (task k' i) = pid (task k i)" "\<forall>i. i \<noteq> c \<longrightarrow> task k' i = task k i"
    and q: "queues k' Q" "frames_ok k'" and l: "lay k' = lay k"
  shows "kinv k'"
proof -
  have lv: "live k' = live k" using c by (simp add: live_def fun_eq_iff)
  have same: "task k' i = task k i" if "live k i" for i using c that by auto
  have "iso_ok k'" using k same by (simp add: kinv_def iso_ok_def lv k')
  moreover have "pids_ok k'" using k c(2) by (simp add: kinv_def pids_ok_def lv k')
  moreover have "fds_all k'" using k same by (simp add: kinv_def fds_all_def lv k')
  moreover have "sems_ok k'" "esp_ok k'" using k by (simp_all add: kinv_def sems_ok_def esp_ok_def k' l)
  ultimately show ?thesis using q unfolding kinv_def by blast
qed

text \<open>The child owns new frames only, and has a new identifier.\<close>

lemma fork_iso:
  assumes iso: "iso_ok k" and fr: "length frames = 20" "set frames \<subseteq> avail (mm k)"
    and lv: "\<And>i. live k' i \<longleftrightarrow> live k i \<or> i = c" and ow: "\<And>f. owned (mm k') f \<longleftrightarrow> owned (mm k) f \<or> f \<in> set frames"
    and t: "\<And>p. p < 284 \<Longrightarrow> pagusr_table (mm k') p = pagusr_table (mm k) p" "cur k' = cur k"
      "\<And>i. i \<noteq> c \<Longrightarrow> ph_pages (task k' i) = ph_pages (task k i)" "\<And>q. 0 \<le> q \<Longrightarrow> q < 20 \<Longrightarrow> ph_pages (task k' c) q = frames ! nat q"
  shows "iso_ok k'"
  unfolding iso_ok_def lv
proof (intro allI impI)
  fix p :: int
  assume p: "0 \<le> p \<and> p < 20"
  then obtain f where f: "pagusr_table (mm k) (264 + p) = user_pte f" "owned (mm k) f"
    "\<forall>i q. live k i \<and> i \<noteq> cur k \<and> 0 \<le> q \<and> q < 20 \<longrightarrow> ph_pages (task k i) q \<noteq> f"
    using iso unfolding iso_ok_def by blast
  have "f \<notin> set frames" using f(2) fr(2) by (auto simp: owned_def)
  then have ch: "ph_pages (task k' c) q \<noteq> f" if "0 \<le> q" "q < 20" for q
    using that fr(1) nth_mem [of "nat q" frames] by (auto simp: t(4))
  show "\<exists>f. pagusr_table (mm k') (264 + p) = user_pte f \<and> owned (mm k') f \<and>
      (\<forall>i q. (live k i \<or> i = c) \<and> i \<noteq> cur k' \<and> 0 \<le> q \<and> q < 20 \<longrightarrow> ph_pages (task k' i) q \<noteq> f)"
  proof (intro exI [of _ f] conjI allI impI)
    show "pagusr_table (mm k') (264 + p) = user_pte f" using f(1) p t(1) by simp
    show "owned (mm k') f" using ow f(2) by simp
    fix i q :: int
    assume "(live k i \<or> i = c) \<and> i \<noteq> cur k' \<and> 0 \<le> q \<and> q < 20"
    then show "ph_pages (task k' i) q \<noteq> f" using f(3) ch by (cases "i = c") (simp_all add: t(2,3))
  qed
qed

lemma fork_pids:
  assumes pids: "pids_ok k" and lv: "\<And>i. live k' i \<longleftrightarrow> live k i \<or> i = c"
    and p: "\<And>i. pid (task k' i) = (if i = c then next_pid k else pid (task k i))" "next_pid k' = next_pid k + 1"
  shows "pids_ok k'"
  unfolding pids_ok_def lv
proof (intro conjI allI impI)
  have old: "pid (task k i) < next_pid k" if "live k i" for i using pids that by (simp add: pids_ok_def)
  show "0 < next_pid k'" using pids by (simp add: pids_ok_def p)
  show "pid (task k' i) < next_pid k'" if "live k i \<or> i = c" for i using that old [of i] by (auto simp: p)
  show "i = j" if "(live k i \<or> i = c) \<and> (live k j \<or> j = c) \<and> pid (task k' i) = pid (task k' j)" for i j
  proof (cases "i = c \<or> j = c")
    case True
    then show ?thesis using that old [of i] old [of j] by (auto simp: p split: if_splits)
  next
    case False
    then show ?thesis using that pids unfolding p(1) pids_ok_def by auto
  qed
qed

lemma fork_ok_inv:
  assumes k: "kinv k" and q: "queues k Q" "Q RunQ = Some rq" and c: "0 \<le> c" "c < 10" "\<not> live k c"
    and fr: "length frames = 20" "distinct frames" "set frames \<subseteq> avail (mm k)"
    and av: "avail m = avail (mm k) - set frames" "\<And>p. p < 284 \<Longrightarrow> pagusr_table m p = pagusr_table (mm k) p"
    and r: "rings h (Q(RunQ \<mapsto> rq @ [TaskL c]))" and s: "\<And>v. logic_dev (fdt s v) = logic_dev (fdt (fs k) v)"
    and k': "task k' = (task k)(c := child_of k frames)" "lists k' = h" "next_pid k' = next_pid k + 1" "fs k' = s" "mm k' = m"
      "cur k' = cur k" "sem k' = sem k" "lay k' = lay k" "tss m = tss (mm k)"
  shows "kinv k'"
proof -
  have fo: "frames_ok k" and iso: "iso_ok k" and pids: "pids_ok k" and fds: "fds_all k" and sm: "sems_ok k"
    using k by (simp_all add: kinv_def)
  have np: "0 < next_pid k" using pids by (simp add: pids_ok_def)
  have lv: "live k' i \<longleftrightarrow> live k i \<or> i = c" for i using c np by (auto simp: live_def k' child_of_def)
  have ow: "owned (mm k') f \<longleftrightarrow> owned (mm k) f \<or> f \<in> set frames" for f
    using owned_alloc [of m "mm k" frames f] av(1) fr(3) by (simp add: k')
  have cc: "c \<noteq> cur k" using queues_cur [OF q(1)] c(3) by auto
  have "queues k' (Q(RunQ \<mapsto> rq @ [TaskL c]))"
    by (rule fork_queues [OF q c np r]) (simp_all add: k' child_of_def)
  moreover have "frames_ok k'"
    by (rule fork_frames [OF fo c(3) fr lv _ ow]) (simp add: k' child_of_def)
  moreover have "iso_ok k'" by (rule fork_iso [OF iso fr(1,3) lv ow]) (simp_all add: k' child_of_def av(2))
  moreover have "pids_ok k'" by (rule fork_pids [OF pids lv]) (simp_all add: k' child_of_def)
  moreover have "fds_all k'"
  proof -
    have "devs_kept (fs k) s" using s by (simp add: devs_kept_def)
    then have "fds_ok s (file_descriptors (task k i))" if "live k i" for i
      using that fds fds_ok_mono [of "fs k" s] by (simp add: fds_all_def)
    then show ?thesis using queues_cur [OF q(1)] unfolding fds_all_def lv by (simp add: k' child_of_def)
  qed
  moreover have "sems_ok k'" using sm by (simp add: sems_ok_def k')
  moreover have "esp_ok k'" using k k'(5,6,8,9) by (simp add: kinv_def esp_ok_def)
  ultimately show ?thesis unfolding kinv_def by blast
qed

lemma sys_fork_inv:
  assumes k: "kinv k" and np: "next_pid k < 2 ^ 31 - 1" and f: "sys_fork k = Some (r, k')"
  shows "kinv k'"
proof -
  obtain Q rq where q: "queues k Q" "Q RunQ = Some (TaskL (cur k) # rq)" "frames_ok k" using k by (rule kinvE)
  have iso: "iso_ok k" and pids: "pids_ok k" and fds: "fds_all k" using k by (simp_all add: kinv_def)
  define c where "c = srch_free_task k"
  consider (none) "c = -1" | (few) "c \<noteq> -1" "card (avail (mm k)) < 20" | (ok) "c \<noteq> -1" "20 \<le> card (avail (mm k))" by linarith
  then show ?thesis
  proof cases
    case none
    then show ?thesis using f k by (simp add: sys_fork_def c_def)
  next
    case few
    obtain k1 where k1: "sys_fork k = Some (- EAGAIN, k1)" "mm k1 = mm k" "fs k1 = fs k" "next_pid k1 = next_pid k"
      "cur k1 = cur k" "sem k1 = sem k" "\<not> live k c" "\<forall>i. pid (task k1 i) = pid (task k i)"
      "\<forall>i. i \<noteq> c \<longrightarrow> task k1 i = task k i" "queues k1 Q" "frames_ok k1" "lay k1 = lay k"
      using sys_fork_no_memory [OF q(1,3) c_def [symmetric] few] by blast
    show ?thesis using fork_none_inv [OF k k1(2-)] k1(1) f by simp
  next
    case ok
    obtain pf where pf: "\<forall>p. 0 \<le> p \<and> p < 20 \<longrightarrow> pagusr_table (mm k) (264 + p) = user_pte (pf p) \<and> owned (mm k) (pf p)"
      using iso_mapped [OF iso] by (rule mapped_okE)
    have fd: "fds_ok (fs k) (file_descriptors (current k))" using fds kinv_cur [OF k] by (simp add: fds_all_def)
    have np0: "0 \<le> next_pid k" using pids by (simp add: pids_ok_def)
    obtain frames m ra h s where st:
      "sys_fork k = Some (next_pid k, k\<lparr>task := (task k)(c := child_of k frames), lists := h, next_pid := next_pid k + 1,
         fs := s, mm := m\<lparr>ram := ra, pagusr_table := (\<lambda>p. if 284 \<le> p \<and> p < 304 then 0 else pagusr_table (mm k) p),
           cr3 := dir_pages_addr (lay k)\<rparr>\<rparr>)"
      "length frames = 20" "distinct frames" "set frames \<subseteq> avail (mm k)" "avail m = avail (mm k) - set frames" "mm_rest m = mm_rest (mm k)"
      "rings h (Q(RunQ \<mapsto> (TaskL (cur k) # rq) @ [TaskL c]))" "\<forall>v. refs (fdt s v) = refs (fdt (fs k) v) + fd_count 10 (file_descriptors (current k)) v \<and>
      logic_dev (fdt s v) = logic_dev (fdt (fs k) v)"
      by (rule sys_fork_state [OF q(1,3) iso_mapped [OF iso] q(2) c_def [symmetric] ok fd np0 np pf]) (rule that, assumption+)
    have c: "0 \<le> c" "c < 10" "\<not> live k c" using srch_free_task_cases [of k] ok(1) by (auto simp: live_def c_def)
    have k': "k' = k\<lparr>task := (task k)(c := child_of k frames), lists := h, next_pid := next_pid k + 1,
         fs := s, mm := m\<lparr>ram := ra, pagusr_table := (\<lambda>p. if 284 \<le> p \<and> p < 304 then 0 else pagusr_table (mm k) p),
           cr3 := dir_pages_addr (lay k)\<rparr>\<rparr>" using trans [OF f [symmetric] st(1)] by simp
    have "avail (mm k') = avail m" by (simp add: k' avail_def)
    then show ?thesis
      using fork_ok_inv [OF k q(1,2) c st(2-4) _ _ st(7), of "mm k'" s k'] st(5,8) mm_rest_tss [OF st(6)] by (simp add: k')
  qed
qed

text \<open>\<open>sys_exit\<close> leaves the file system, the pid counter and all descriptors as they are.\<close>

definition xframe :: "kernel \<Rightarrow> kernel \<Rightarrow> bool" where
  "xframe k k' \<longleftrightarrow> fs k' = fs k \<and> next_pid k' = next_pid k \<and> (sems_ok k \<longrightarrow> sems_ok k') \<and>
     (\<forall>i. file_descriptors (task k' i) = file_descriptors (task k i))"

lemma xframe_pframe: "pframe k k' \<Longrightarrow> xframe k k'" by (simp add: pframe_def xframe_def)

lemma xframe_trans: "xframe k k1 \<Longrightarrow> xframe k1 k2 \<Longrightarrow> xframe k k2" by (simp add: xframe_def)

lemma xframe_switched: "xframe k k1 \<Longrightarrow> xframe k (switched t k1)" by (simp add: xframe_def sems_ok_def)

lemma schedule_xframe:
  assumes s: "schedule b k = Some (out, k')"
  shows "xframe k k'"
proof -
  have "xframe k (switched t (k\<lparr>lists := h, it_is_int := b\<rparr>))" for t h by (simp add: xframe_def sems_ok_def)
  moreover have "xframe k (switched t (k\<lparr>it_is_int := b\<rparr>))" for t by (simp add: xframe_def sems_ok_def)
  moreover have "xframe k (upd_task i (\<lambda>t. t\<lparr>remaining := v\<rparr>) (k\<lparr>left4current := w\<rparr>))" for i v w by (simp add: xframe_def sems_ok_def)
  moreover have "xframe k k" by (simp add: xframe_def)
  ultimately show ?thesis
    using s by (auto simp: schedule_def Let_def task_switch_eq lift_lists_def dest!: bind_SomeD split: if_splits)
qed

lemma exit_sems_pframe: "exit_sems k = Some k' \<Longrightarrow> pframe k k'"
  unfolding exit_sems_def
  by (erule for_opt_keeps) (auto dest: sys_sem_destroy_pframe intro: pframe_trans split: if_splits)

lemma sys_exit_xframe:
  assumes x: "sys_exit k = Some (out, k')" and p: "pid (current k) \<noteq> 0"
  shows "xframe k k'"
proof -
  obtain k1 h m where k1: "exit_sems k = Some k1"
    and s: "schedule 0 ((upd_task (cur k1) (\<lambda>t. t\<lparr>pid := -1\<rparr>) k1)\<lparr>lists := h, mm := m, left4current := 0\<rparr>) = Some (out, k')"
    using x p unfolding sys_exit_def exit_sems_def [symmetric] by (auto simp: Let_def lift_lists_def lift_mm_def dest!: bind_SomeD)
  have "xframe k1 ((upd_task (cur k1) (\<lambda>t. t\<lparr>pid := -1\<rparr>) k1)\<lparr>lists := h, mm := m, left4current := 0\<rparr>)"
    by (simp add: xframe_def sems_ok_def)
  then show ?thesis using xframe_trans [OF xframe_pframe [OF exit_sems_pframe [OF k1]]] xframe_trans schedule_xframe [OF s] by blast
qed

lemma sys_exit_inv:
  assumes k: "kinv k" and x: "sys_exit k = Some (out, k')"
  shows "kinv k' \<or> \<not> live k' (cur k')"
proof (cases "pid (current k) = 0")
  case True
  then show ?thesis using k x by (simp add: sys_exit_def)
next
  case p: False
  obtain Q t as where q: "queues k Q" "frames_ok k" and rq: "Q RunQ = Some (TaskL (cur k) # TaskL t # as)"
    using k p by (rule kinv_second)
  show ?thesis
  proof (rule sys_exit_cases [OF q p rq])
    fix k1 Q'
    assume s: "sys_exit k = Some (Switched, switched t k1)" "queues (switched t k1) Q'" "frames_ok k1"
      "\<forall>i. live k1 i \<longleftrightarrow> live k i \<and> i \<noteq> cur k" "live k1 t" "\<forall>i. i \<noteq> cur k \<longrightarrow> pid (task k1 i) = pid (task k i)"
    have xf: "xframe k (switched t k1)" using sys_exit_xframe [OF s(1) p] .
    have "kinv (switched t k1)"
    proof (rule kinv_switched [OF s(2,3,5)])
      have "pid (task k1 i) = pid (task k i)" if "live k1 i" for i using that s(4,6) by simp
      then show "pids_ok k1" using k s(4) xf unfolding kinv_def pids_ok_def xframe_def by simp metis
      show "fds_all k1" using k s(4) xf by (simp add: kinv_def fds_all_def xframe_def)
      show "sems_ok k1" using k xf by (simp add: kinv_def sems_ok_def xframe_def)
    qed
    then show ?thesis using s(1) x by simp
  next
    fix k1
    assume "sys_exit k = Some (Return (), k1)" "\<not> live k1 (cur k1)"
    then show ?thesis using x by simp
  qed
qed

lemma page_fault_inv:
  assumes k: "kinv k" and x: "page_fault_routine k = Some (out, k')"
  shows "kinv k' \<or> \<not> live k' (cur k')"
proof -
  define k0 where "k0 = say (cstr ('' generated this exception and has been terminated'' @ [CHR 0x0A]))
    (let k = say (cstr (''PAGE FAULT:'' @ [CHR 0x0A] @ ''The process with PID='')) k
     in k\<lparr>scr := printc (word_of_int (48 + pid (current k))) (scr k)\<rparr>)"
  have s: "kstable k k0" by (simp add: k0_def say_def Let_def kstable_def kframe_def)
  have "page_fault_routine k = (if pid (current k) \<noteq> 0 then sys_exit k0 else Some (Halted, k0))"
    by (simp add: page_fault_routine_def k0_def Let_def say_def)
  then show ?thesis using x sys_exit_inv [OF kinv_kstable [OF k s], of out k'] kinv_kstable [OF k s] by (auto split: if_splits)
qed

section \<open>Every step\<close>

lemma leave_inv:
  assumes l: "leave d fin res = Some (o2, k')" and r: "\<And>out k1. res = Some (out, k1) \<Longrightarrow> P k1" and f: "\<And>v k1. P k1 \<Longrightarrow> P (fin v k1)"
  shows "P k'"
  using l r f by (auto simp: leave_def Let_def dest!: bind_SomeD split: outcome.splits)

lemma sys_call_table_inv:
  assumes k: "kinv k" and np: "next_pid k < 2 ^ 31 - 1" and s: "sys_call_table n junk k = Some (out, k')"
  shows "kinv k' \<or> \<not> live k' (cur k')"
proof -
  note inv = sys_read_inv [OF k] kinv_kstable [OF k sys_write_stable] kinv_fd_change [OF k sys_open_fds]
    kinv_fd_change [OF k sys_close_fds] kinv_kstable [OF k sys_unlink_stable] sys_sem_init_inv [OF k] sys_sem_wait_inv [OF k]
    sys_sem_signal_inv [OF k] sys_sem_destroy_inv [OF k] kinv_kstable [OF k sys_nice_stable] kinv_kstable [OF k sys_get_stats_stable]
    kinv_fd_change [OF k sys_dup_fds] sys_fork_inv [OF k np]
  have v: "kinv k' \<or> \<not> live k' (cur k')" if "void junk (sys_exit k) = Some (out, k')"
    using that sys_exit_inv [OF k] by (auto simp: void_def)
  have r: "\<exists>v. m = Some (v, k')" if "ret m = Some (out, k')" for m using that by (auto simp: ret_def)
  show ?thesis
    using s k v inv unfolding sys_call_table_def Let_def
    by (auto dest!: r split: if_splits)
qed

text \<open>A store of user code changes the memory alone.\<close>

lemma user_store_stable: "user_store va b k = Some k' \<Longrightarrow> kstable k k'"
  by (auto simp: user_store_def Let_def lift_mm_def vwrite_def kstable_def kframe_def split: if_splits)

lemma system_call_inv:
  assumes k: "kinv k" and np: "next_pid k < 2 ^ 31 - 1" and s: "system_call_handler junk r k = Some (out, k')"
  shows "kinv k' \<or> \<not> live k' (cur k')"
proof -
  let ?k = "SAVE_ALL 0 r k"
  have k1: "kinv ?k" by (rule kinv_kstable [OF k kstable_SAVE_ALL])
  have np1: "next_pid ?k < 2 ^ 31 - 1" using np by (simp add: SAVE_ALL_def)
  have fin: "kinv (upd_task i (set_eax v) k) \<or> \<not> live (upd_task i (set_eax v) k) (cur (upd_task i (set_eax v) k))"
    if "kinv k \<or> \<not> live k (cur k)" for i v k
    using that kinv_kstable [OF _ kstable_set_eax] kframe_live [of k "upd_task i (set_eax v) k"] kstable_set_eax [of k i v]
    by (auto simp: kstable_def)
  show ?thesis
  proof (cases "sint (r_eax r) < 0 \<or> sint (r_eax r) > 41")
    case True
    then have "k' = upd_task (cur ?k) (set_eax (- ENOSYS)) ?k" using s by (simp add: system_call_handler_def Let_def)
    then show ?thesis using kinv_kstable [OF k1 kstable_set_eax] by simp
  next
    case False
    then have "leave 0 (\<lambda>v k. upd_task (cur k) (set_eax v) k) (sys_call_table (sint (r_eax r)) junk ?k) = Some (out, k')"
      using s by (simp add: system_call_handler_def Let_def)
    then show ?thesis
      by (rule leave_inv [where P = "\<lambda>k. kinv k \<or> \<not> live k (cur k)"]) (use sys_call_table_inv [OF k1 np1] fin in auto)
  qed
qed

lemma kstep_inv:
  assumes s: "kstep k k'" and k: "kinv k"
  shows "kinv k' \<or> \<not> live k' (cur k')"
  using s
proof cases
  case (syscall junk r r')
  then show ?thesis using system_call_inv [OF k] by blast
next
  case (clock r r')
  have "kinv k'"
    by (rule leave_inv [OF clock(2) [unfolded clock_handler_def]])
      (use clock_routine_inv [OF kinv_kstable [OF k kstable_SAVE_ALL]] kinv_kstable [OF _ kstable_EOI] in auto)
  then show ?thesis by simp
next
  case (key i r r')
  have "kinv k'"
    by (rule leave_inv [OF key(2) [unfolded keyboard_handler_def]])
      (use keyboard_routine_inv [OF kinv_kstable [OF k kstable_SAVE_ALL]] kinv_kstable [OF _ kstable_EOI] in auto)
  then show ?thesis by simp
next
  case (fault r r')
  show ?thesis
    by (rule leave_inv [OF fault(2) [unfolded exception_handler_def Let_def]])
      (use page_fault_inv [OF kinv_kstable [OF k kstable_SAVE_ALL]] in \<open>auto simp: exception_routine_def\<close>)
next
  case (store va b)
  then show ?thesis using kinv_kstable [OF k user_store_stable] by blast
qed

lemma kstep_live: "kstep k k' \<Longrightarrow> live k (cur k)"
  by (auto elim: kstep.cases)

lemma ksteps_inv: "kstep\<^sup>*\<^sup>* k k' \<Longrightarrow> kinv k \<Longrightarrow> kinv k' \<or> \<not> live k' (cur k')"
  by (induction rule: rtranclp_induct) (use kstep_inv kstep_live in blast)+

end
