(* ===== verification/System.thy ===== *)
theory System
  imports Reachable
begin

text \<open>
  \<open>zeos/system.c\<close> and the assembler of \<open>zeos/hardware.c\<close>: the start of the system. The theorem
  about \<open>main\<close> gives the first state of the step relation: the invariant holds, the user program is in
  place and the processor is in user mode with the clock and the keyboard enabled.
\<close>

section \<open>The machine\<close>

text \<open>The state of the kernel with what only the start-up code touches: the interrupt table, the
  flags, the mask of the interrupt controller, the LDT register and the registers.\<close>

record machine =
  kern :: kernel
  idts :: idt_state
  eflags :: "32 word"
  pic_mask :: "8 word"
  ldtr :: "16 word"
  cpu :: regs

definition get_eflags :: "machine \<Rightarrow> 32 word" where
  "get_eflags M = eflags M"

definition set_ldt_reg :: "16 word \<Rightarrow> machine \<Rightarrow> machine" where
  "set_ldt_reg ldt M = M\<lparr>ldtr := ldt\<rparr>"

definition delay :: "machine \<Rightarrow> machine" where [simp]:
  "delay M = M"

definition set_eflags :: "machine \<Rightarrow> machine" where
  "set_eflags M = M\<lparr>eflags := 0\<rparr>"

text \<open>\<open>cli\<close> and \<open>sti\<close> are bit 9 of the flags; the mask 0xFC enables the clock and the keyboard.\<close>

definition enable_int :: "machine \<Rightarrow> machine" where
  "enable_int M = (let M = delay (M\<lparr>pic_mask := 0xFC\<rparr>) in M\<lparr>eflags := set_bit 9 (eflags M)\<rparr>)"

definition set_seg_regs :: "16 word \<Rightarrow> 16 word \<Rightarrow> 32 word \<Rightarrow> machine \<Rightarrow> machine" where
  "set_seg_regs data_sel stack_sel esp M =
     M\<lparr>cpu := (cpu M)\<lparr>r_ds := ucast data_sel, r_es := ucast data_sel, r_fs := ucast data_sel, r_gs := ucast data_sel,
       r_oldss := ucast stack_sel, r_oldesp := esp - 20\<rparr>\<rparr>"

definition load32 :: "mm_state \<Rightarrow> int \<Rightarrow> 32 word option" where
  "load32 m a = map_option (\<lambda>bs. word_of_int (horner_sum uint 256 bs)) (load_list vread m a 4)"

definition store32 :: "int \<Rightarrow> 32 word \<Rightarrow> mm_state \<Rightarrow> mm_state option" where
  "store32 a v = store_list vwrite a (word_bytes (uint v))"

abbreviation (input) "p_sys_size \<equiv> (0x10000 :: int)"  \<comment> \<open>KERNEL_START\<close>
abbreviation (input) "p_usr_size \<equiv> (0x10004 :: int)"
abbreviation (input) "p_rdtr \<equiv> (0x10008 :: int)"

text \<open>\<open>return_gate\<close> stores \<open>*p_rdtr\<close> just above the new stack and returns to user mode.\<close>

definition return_gate :: "16 word \<Rightarrow> 16 word \<Rightarrow> 32 word \<Rightarrow> 16 word \<Rightarrow> 32 word \<Rightarrow> machine \<Rightarrow> machine option" where
  "return_gate ds ss esp cs ip M = do {
     v \<leftarrow> load32 (mm (kern M)) p_rdtr;
     k \<leftarrow> lift_mm (store32 (uint (esp + 12)) v) (kern M);
     Some (M\<lparr>kern := k, cpu := (cpu M)\<lparr>r_es := ucast ds, r_ds := ucast ds, r_eax := esp + 12, r_edx := v,
       r_oldss := ucast ss, r_oldesp := esp, r_cs := ucast cs, r_eip := ip\<rparr>\<rparr>)
   }"

definition main :: "(handler \<Rightarrow> 32 word) \<Rightarrow> machine \<Rightarrow> machine option" where
  "main haddr M = do {
     let l = lay (kern M);
     let M = set_seg_regs KERNEL_DS KERNEL_DS (KERNEL_ESP l) (set_eflags M);
     let k = say (cstr (''Kernel Loaded!'' @ [CHR 0x0A])) (kern M);
     let k = k\<lparr>mm := setGdt (tss_addr l) (gdt_addr l) (mm k)\<rparr>;
     let M = M\<lparr>idts := setIdt (idt_addr l) haddr (idts M)\<rparr>;
     let k = k\<lparr>mm := setTSS (KERNEL_ESP l) (mm k)\<rparr>;
     k \<leftarrow> lift_mm (init_mm (task_addr l) (pagusr_table_addr l) (dir_pages_addr l)) k;
     let k = init_keyboard (init_sched k);
     s \<leftarrow> init_filesystem (fs k);
     k \<leftarrow> init_task0 (k\<lparr>fs := s\<rparr>);
     sys_size \<leftarrow> load32 (mm k) p_sys_size;
     usr_size \<leftarrow> load32 (mm k) p_usr_size;
     k \<leftarrow> lift_mm (copy_data vread vwrite (u32 (0x10000 + uint sys_size)) L_USER_START (sint usr_size)) k;
     let M = enable_int (M\<lparr>kern := iniTics k\<rparr>);
     let M = M\<lparr>kern := say (cstr (''Entering user mode...'' @ [CHR 0x0A])) (kern M)\<rparr>;
     return_gate USER_DS USER_DS USER_ESP USER_CS 0x100000 M
   }"

section \<open>Up to the first process\<close>

text \<open>The address space when \<open>init_task0\<close> returns: user pages lie behind the kernel in other frames.\<close>

definition boot_frame :: "int \<Rightarrow> int" where
  "boot_frame p = (if p < 264 then p else 264 + 2 * (p - 264))"

lemma boot_frame_inj: "256 \<le> p \<Longrightarrow> 256 \<le> q \<Longrightarrow> boot_frame p = boot_frame q \<Longrightarrow> p = q"
  by (auto simp: boot_frame_def split: if_splits)

definition boot_state :: "kernel \<Rightarrow> kernel option" where
  "boot_state k = do {
     let l = lay k;
     let k = say (cstr (''Kernel Loaded!'' @ [CHR 0x0A])) k;
     let k = k\<lparr>mm := setTSS (KERNEL_ESP l) (setGdt (tss_addr l) (gdt_addr l) (mm k))\<rparr>;
     k \<leftarrow> lift_mm (init_mm (task_addr l) (pagusr_table_addr l) (dir_pages_addr l)) k;
     let k = init_keyboard (init_sched k);
     s \<leftarrow> init_filesystem (fs k);
     init_task0 (k\<lparr>fs := s\<rparr>)
   }"

lemma owned_free_from:
  assumes "free_from a m" "256 \<le> f" "f < a" "a \<le> 1024" "even f"
  shows "owned m f"
  using assms by (auto simp: owned_def avail_def free_from_def)

text \<open>A single process, number 0, with the frames 304, 306, .. of its structure and 264, 266, .. in the table.\<close>

lemma kinv_first:
  assumes q: "queues k [RunQ \<mapsto> [TaskL 0], KbdQ \<mapsto> []]" and ff: "free_from 344 (mm k)"
    and ph: "\<forall>i. 0 \<le> i \<and> i < 20 \<longrightarrow> ph_pages (task k 0) i = 304 + 2 * i"
    and t: "\<forall>p. 264 \<le> p \<and> p < 284 \<longrightarrow> pagusr_table (mm k) p = user_pte (264 + 2 * (p - 264))"
    and c: "cur k = 0" and n: "next_pid k = 1" and s: "sems_ok k" and f: "fds_ok (fs k) (file_descriptors (task k 0))"
    and e: "esp0 (tss (mm k)) = KERNEL_ESP (lay k)"
  shows "kinv k"
proof -
  have "TaskL ` {i. live k i} = {TaskL 0}"
    unfolding queues_members [OF q, symmetric] by (auto simp: members_def split: if_splits)
  then have lv: "live k i \<longleftrightarrow> i = 0" for i by auto
  have pid0: "pid (task k 0) = 0" using queues_pid [OF q, of 0] by simp
  have "frames_ok k"
    by (rule frames_okI) (use ph in \<open>auto simp: lv intro!: owned_free_from [OF ff]\<close>)
  moreover have "iso_ok k"
    unfolding iso_ok_def lv c
  proof (intro allI impI)
    fix p :: int
    assume "0 \<le> p \<and> p < 20"
    then show "\<exists>f. pagusr_table (mm k) (264 + p) = user_pte f \<and> owned (mm k) f \<and>
        (\<forall>i q. i = 0 \<and> i \<noteq> 0 \<and> 0 \<le> q \<and> q < 20 \<longrightarrow> ph_pages (task k i) q \<noteq> f)"
      using t owned_free_from [OF ff, of "264 + 2 * p"] by (intro exI [of _ "264 + 2 * p"]) simp
  qed
  moreover have "pids_ok k" unfolding pids_ok_def lv using n pid0 by simp
  moreover have "fds_all k" unfolding fds_all_def lv using f by simp
  moreover have "esp_ok k" using e c by (simp add: esp_ok_def KERNEL_ESP_def)
  ultimately show ?thesis using q s unfolding kinv_def by blast
qed

lemma init_mm_frames:
  assumes "4096 dvd ta" "0 \<le> ta" "ta + 81920 \<le> 1048576"
  obtains m0 where "init_mm ta pa da m = Some (init_frames m0)" and "ram m0 = ram m" and "tss m0 = tss m"
    and "\<forall>p. 0 \<le> p \<and> p < 256 \<longrightarrow> (pte_present (pagusr_table m0 p) \<longleftrightarrow> \<not> guard_page ta p) \<and> pte_base (pagusr_table m0 p) = p"
proof -
  obtain t where t: "init_table_pages ta m = Some (m\<lparr>pagusr_table := t\<rparr>)"
    "\<forall>p. 0 \<le> p \<and> p < 1024 \<longrightarrow> (pte_present (t p) \<longleftrightarrow> p < 256 \<and> \<not> guard_page ta p) \<and> \<not> pte_user (t p)"
    "\<forall>p. 0 \<le> p \<and> p < 256 \<longrightarrow> pte_base (t p) = p"
    by (rule init_table_pages_eq [OF assms]) blast
  show ?thesis
  proof (rule that)
    show "init_mm ta pa da m = Some (init_frames (set_pe_flag (set_cr3 da (init_dir_pages pa (m\<lparr>pagusr_table := t\<rparr>)))))"
      by (simp add: init_mm_def Let_def t(1) set_pe_flag_def set_cr3_def init_dir_pages_def init_frames_def)
  qed (use t(2,3) in \<open>simp_all add: set_pe_flag_def set_cr3_def init_dir_pages_def\<close>)
qed

text \<open>The kernel when the first process is ready.\<close>

definition readable :: "layout \<Rightarrow> int \<Rightarrow> bool" where
  "readable l a \<longleftrightarrow> 0 \<le> a \<and> a < L_USER_START \<and> \<not> guard_page (task_addr l) (a div PAGE_SIZE)"

definition boot_fs :: "fs_state \<Rightarrow> fs_state" where
  "boot_fs s = s\<lparr>fdt := (fdt s)(0 := \<lparr>access_mode = O_RDONLY, refs = 1, voffset = 0, logic_dev = Some 0\<rparr>,
        1 := \<lparr>access_mode = O_WRONLY, refs = 1, voffset = 0, logic_dev = Some 1\<rparr>),
      dir := (dir s)(0 := (dir s 0)\<lparr>n_refs := 1\<rparr>, 1 := (dir s 1)\<lparr>n_refs := 1\<rparr>)\<rparr>"

lemma boot_state_ok:
  assumes ta: "4096 dvd task_addr (lay k)" "0 \<le> task_addr (lay k)" "task_addr (lay k) + 81920 \<le> 1048576"
    and z: "\<And>n. init (sem k n) \<noteq> 1" "sems_ok k" "cur k = 0"
  obtains k' where "boot_state k = Some k'" and "kinv k'" and "queues k' [RunQ \<mapsto> [TaskL 0], KbdQ \<mapsto> []]"
    and "\<forall>a. readable (lay k) a \<longrightarrow> translate (mm k') a = Some a"
    and "\<forall>p x. 256 \<le> p \<and> p < 284 \<and> 0 \<le> x \<and> x < 4096 \<longrightarrow> translate (mm k') (4096 * p + x) = Some (4096 * boot_frame p + x)"
    and "ram (mm k') = ram (mm k)" and "lay k' = lay k" and "free_from 344 (mm k')" and "next_pid k' = 1" and "cur k' = 0"
    and "circ_chars k' = 0 \<and> kp k' = 0 \<and> kstart k' = 0 \<and> left4current k' = 60 \<and> it_is_int k' = 0 \<and> sem k' = sem k"
    and "fs k' = boot_fs (the (init_filesystem (fs k)))"
    and "\<forall>i. 0 \<le> i \<and> i < 10 \<longrightarrow> file_descriptors (task k' 0) i = (if i = 0 then Some 0 else if i < 3 then Some 1 else None)"
proof -
  let ?k1 = "(say (cstr (''Kernel Loaded!'' @ [CHR 0x0A])) k)\<lparr>mm := setTSS (KERNEL_ESP (lay k)) (setGdt (tss_addr (lay k)) (gdt_addr (lay k)) (mm k))\<rparr>"
  obtain m0 where m0: "init_mm (task_addr (lay k)) (pagusr_table_addr (lay k)) (dir_pages_addr (lay k)) (mm ?k1) = Some (init_frames m0)"
    "ram m0 = ram (mm ?k1)" "tss m0 = tss (mm ?k1)" "\<forall>p. 0 \<le> p \<and> p < 256 \<longrightarrow> (pte_present (pagusr_table m0 p) \<longleftrightarrow> \<not> guard_page (task_addr (lay k)) p) \<and> pte_base (pagusr_table m0 p) = p"
    by (rule init_mm_frames [OF ta])
  obtain s where s: "init_filesystem (fs k) = Some s"
    by (rule init_filesystem_ok)
  define k2 where "k2 = init_sched (init_keyboard ?k1\<lparr>mm := init_frames m0, fs := s\<rparr>)"
  have k2: "(init_keyboard (init_sched (?k1\<lparr>mm := init_frames m0\<rparr>)))\<lparr>fs := s\<rparr> = k2"
    by (simp add: k2_def init_keyboard_def init_sched_def)
  have f2: "mm k2 = init_frames m0" "sem k2 = sem k" "cur k2 = cur k" "lay k2 = lay k" "fs k2 = s"
    by (simp_all add: k2_def init_sched_def init_keyboard_def say_def)
  have z2: "\<And>n. init (sem k2 n) \<noteq> 1" "cur k2 = 0" using z f2 by simp_all
  obtain k' where k': "init_task0 k2 = Some k'" "queues k' [RunQ \<mapsto> [TaskL 0], KbdQ \<mapsto> []]"
    "\<forall>i. 0 \<le> i \<and> i < 20 \<longrightarrow> ph_pages (task k' 0) i = 304 + 2 * i"
    "\<forall>p. 264 \<le> p \<and> p < 284 \<longrightarrow> pagusr_table (mm k') p = user_pte (264 + 2 * (p - 264))" "free_from 344 (mm k')"
    "next_pid k' = 1" "lay k' = lay k2" "sem k' = sem k2" "cur k' = 0"
    "\<forall>p. 256 \<le> p \<and> p < 264 \<longrightarrow> pagusr_table (mm k') p = code_pte p"
    "\<forall>p. p < 256 \<longrightarrow> pagusr_table (mm k') p = pagusr_table (mm k2) p" "ram (mm k') = ram (mm k2)"
    "fs k' = (fs k2)\<lparr>fdt := (fdt (fs k2))(0 := \<lparr>access_mode = O_RDONLY, refs = 1, voffset = 0, logic_dev = Some 0\<rparr>,
        1 := \<lparr>access_mode = O_WRONLY, refs = 1, voffset = 0, logic_dev = Some 1\<rparr>),
      dir := (dir (fs k2))(0 := (dir (fs k2) 0)\<lparr>n_refs := 1\<rparr>, 1 := (dir (fs k2) 1)\<lparr>n_refs := 1\<rparr>)\<rparr>"
    "\<forall>i. 0 \<le> i \<and> i < 10 \<longrightarrow> file_descriptors (task k' 0) i = (if i = 0 then Some 0 else if i < 3 then Some 1 else None)"
    "circ_chars k' = circ_chars k2 \<and> kp k' = kp k2 \<and> kstart k' = kstart k2 \<and> left4current k' = 60 \<and> quantum (task k' 0) = 60 \<and>
      it_is_int k' = it_is_int k2 \<and> eois k' = eois k2" "tss (mm k') = tss (mm k2)"
    by (rule init_task0_ok [OF k2_def f2(1) z2]) (rule that, assumption+)
  have b: "boot_state k = Some k'"
    using m0(1) s k'(1) k2 by (simp add: boot_state_def lift_mm_def Let_def say_def init_keyboard_def init_sched_def)
  have "fds_ok (fs k') (file_descriptors (task k' 0))"
    using k'(14) by (auto simp: fds_ok_def k'(13) split: if_splits)
  moreover have "esp0 (tss (mm k')) = KERNEL_ESP (lay k')"
    using k'(7,16) f2(1,4) m0(3) by (simp add: init_frames_def setTSS_def)
  ultimately have "kinv k'" using kinv_first [OF k'(2,5,3,4,9,6)] z(2) by (simp add: sems_ok_def k'(8) f2)
  moreover have "translate (mm k') a = Some a" if "readable (lay k) a" for a
  proof -
    have p: "0 \<le> a div 4096" "a div 4096 < 256" using that by (auto simp: readable_def)
    then have "pagusr_table (mm k') (a div 4096) = pagusr_table m0 (a div 4096)" using k'(11) f2(1) by (simp add: init_frames_def)
    then show ?thesis using m0(4) p that by (simp add: translate_def readable_def)
  qed
  moreover have "translate (mm k') (4096 * p + x) = Some (4096 * boot_frame p + x)" if "256 \<le> p" "p < 284" "0 \<le> x" "x < 4096" for p x
    using that k'(4,10) pte_base_code_pte [of p] translate_page [of "mm k'" p "264 + 2 * (p - 264)" x]
    by (cases "p < 264") (simp_all add: translate_def boot_frame_def)
  moreover have "ram (mm k') = ram (mm k)" using k'(12) f2(1) m0(2) by (simp add: init_frames_def setTSS_def setGdt_def Let_def)
  moreover have "circ_chars k' = 0 \<and> kp k' = 0 \<and> kstart k' = 0 \<and> left4current k' = 60 \<and> it_is_int k' = 0 \<and> sem k' = sem k"
    using k'(8,15) f2(2) by (simp add: k2_def init_sched_def init_keyboard_def)
  moreover have "fs k' = boot_fs (the (init_filesystem (fs k)))" using k'(13) s f2(5) by (simp add: boot_fs_def)
  ultimately show ?thesis using that [OF b _ k'(2)] k'(5-7,9,14) f2(4) by simp
qed

section \<open>The user program\<close>

definition boot_addr :: "int \<Rightarrow> int" where
  "boot_addr va = 4096 * boot_frame (va div 4096) + va mod 4096"

lemma boot_addr_inj:
  assumes "1048576 \<le> u" "1048576 \<le> v" "boot_addr u = boot_addr v"
  shows "u = v"
proof -
  have "boot_addr u div 4096 = boot_frame (u div 4096)" "boot_addr v div 4096 = boot_frame (v div 4096)"
    "boot_addr u mod 4096 = u mod 4096" "boot_addr v mod 4096 = v mod 4096" by (simp_all add: boot_addr_def)
  moreover have "256 \<le> u div 4096" "256 \<le> v div 4096" using assms by auto
  ultimately have "u div 4096 = v div 4096" "u mod 4096 = v mod 4096" using boot_frame_inj assms(3) by metis+
  then show ?thesis by (metis div_mult_mod_eq)
qed

lemma boot_addr_ge: "1048576 \<le> va \<Longrightarrow> 1048576 \<le> boot_addr va"
proof -
  assume "1048576 \<le> va"
  then have "256 \<le> boot_frame (va div 4096)" by (auto simp: boot_frame_def)
  then show ?thesis by (simp add: boot_addr_def)
qed

locale booted =
  fixes m :: mm_state and l :: layout
  assumes kernel_pages: "readable l a \<Longrightarrow> translate m a = Some a"
    and user_pages: "256 \<le> p \<Longrightarrow> p < 284 \<Longrightarrow> 0 \<le> x \<Longrightarrow> x < 4096 \<Longrightarrow> translate m (4096 * p + x) = Some (4096 * boot_frame p + x)"
begin

lemma user_addr:
  assumes "1048576 \<le> va" "va < 1163264"
  shows "translate m va = Some (boot_addr va)"
proof -
  have "256 \<le> va div 4096" "va div 4096 < 284" using assms by auto
  from user_pages [OF this, of "va mod 4096"] show ?thesis by (simp add: boot_addr_def)
qed

text \<open>Stores to user addresses.\<close>

lemma store_user:
  assumes u: "1048576 \<le> u" "u + int (length bs) \<le> 1163264"
  obtains r where "store_list vwrite u bs m = Some (m\<lparr>ram := r\<rparr>)" and "\<forall>i<length bs. r (boot_addr (u + int i)) = bs ! i"
    and "\<forall>pa. (\<forall>i<length bs. pa \<noteq> boot_addr (u + int i)) \<longrightarrow> r pa = ram m pa"
proof -
  have "inj_on (\<lambda>i. boot_addr (u + int i)) {..<length bs}"
    by (rule inj_onI) (use boot_addr_inj [of "u + int i" "u + int j" for i j] u in simp)
  then have "\<exists>r. store_list vwrite u bs m = Some (m\<lparr>ram := r\<rparr>) \<and> (\<forall>i<length bs. r (boot_addr (u + int i)) = bs ! i) \<and>
     (\<forall>pa. pa \<notin> (\<lambda>i. boot_addr (u + int i)) ` {..<length bs} \<longrightarrow> r pa = ram m pa)"
    by (intro store_list_inj) (use user_addr u in auto)
  then show ?thesis using that by (auto simp: image_iff)
qed

lemma load32_ok:
  assumes "\<forall>i. 0 \<le> i \<and> i < 4 \<longrightarrow> readable l (a + i)"
  shows "load32 m a = Some (word_of_int (horner_sum uint 256 (map (\<lambda>i. ram m (a + int i)) [0..<4])))"
proof -
  have "load_list vread m a 4 = Some (map (\<lambda>i. ram m (a + int i)) [0..<4])"
    by (rule load_list_phys) (use kernel_pages assms in simp)
  then show ?thesis by (simp add: load32_def)
qed

text \<open>The program behind the kernel image is copied to the user pages.\<close>

lemma copy_program:
  assumes src: "\<forall>i. 0 \<le> i \<and> i < n \<longrightarrow> readable l (p + i)" and n: "0 \<le> n" "n \<le> 114688"
  obtains r where "copy_data vread vwrite p 1048576 n m = Some (m\<lparr>ram := r\<rparr>)"
    and "\<forall>i. 0 \<le> i \<and> i < n \<longrightarrow> r (boot_addr (1048576 + i)) = ram m (p + i)"
    and "\<forall>pa. pa < 1048576 \<longrightarrow> r pa = ram m pa"
proof -
  let ?S = "{p..<p + n}" and ?D = "{1048576..<1048576 + n}"
  have S: "translate m a = Some a" "a < 1048576" if "a \<in> ?S" for a
    using kernel_pages [of a] src [rule_format, of "a - p"] that by (simp_all add: readable_def)
  have D: "translate m d = Some (boot_addr d)" "1048576 \<le> boot_addr d" if "d \<in> ?D" for d
    using user_addr [of d] boot_addr_ge [of d] that n by auto
  have ok: "paged_ok m ?S ?D" unfolding paged_ok_def using S D by fastforce
  obtain bs t where bs: "load_list vread m p (nat n) = Some bs" "length bs = nat n"
    "store_list vwrite 1048576 bs m = Some t" "copy_data vread vwrite p 1048576 n m = Some t"
    using ok order_refl order_refl by (rule paged.copy_data_store)
  have "load_list vread m p (nat n) = Some (map (\<lambda>i. ram m (p + int i)) [0..<nat n])"
    by (rule load_list_phys) (use S in auto)
  then have b: "bs = map (\<lambda>i. ram m (p + int i)) [0..<nat n]" using bs(1) by simp
  obtain r where r: "store_list vwrite 1048576 bs m = Some (m\<lparr>ram := r\<rparr>)" "\<forall>i<length bs. r (boot_addr (1048576 + int i)) = bs ! i"
    "\<forall>pa. (\<forall>i<length bs. pa \<noteq> boot_addr (1048576 + int i)) \<longrightarrow> r pa = ram m pa"
    using n bs(2) by (auto intro: store_user [of 1048576 bs])
  have "r (boot_addr (1048576 + i)) = ram m (p + i)" if "0 \<le> i" "i < n" for i
    using r(2) [rule_format, of "nat i"] that bs(2) by (simp add: b)
  moreover have "r pa = ram m pa" if "pa < 1048576" for pa
  proof (rule r(3) [rule_format])
    fix i
    show "pa \<noteq> boot_addr (1048576 + int i)" using boot_addr_ge [of "1048576 + int i"] that by simp
  qed
  ultimately show ?thesis using that [of r] bs(3,4) r(1) by simp
qed

end

lemma booted_ram: "booted m l \<Longrightarrow> booted (m\<lparr>ram := r\<rparr>) l"
  by (simp add: booted_def)

text \<open>The states a system can start from: globals are zero, the task structures lie in the kernel image,
  which has the sizes at its start and the user program behind it.\<close>

definition image32 :: "kernel \<Rightarrow> int \<Rightarrow> int" where
  "image32 k a = horner_sum uint 256 (map (\<lambda>i. ram (mm k) (a + int i)) [0..<4])"

definition loaded :: "kernel \<Rightarrow> bool" where
  "loaded k \<longleftrightarrow> (let ta = task_addr (lay k); n = image32 k p_sys_size; u = image32 k p_usr_size in
     4096 dvd ta \<and> 0x11000 \<le> ta \<and> ta + 81920 \<le> 0x10000 + n \<and> 0x10000 + n + u \<le> L_USER_START \<and> u \<le> 114688 - 16 \<and>
     (\<forall>i. init (sem k i) = 0 \<and> count (sem k i) = 0) \<and> cur k = 0)"

lemma horner_bytes: "0 \<le> horner_sum uint 256 (bs :: 8 word list) \<and> horner_sum uint 256 bs < 256 ^ length bs"
proof (induction bs)
  case (Cons b bs)
  have "0 \<le> uint b" "uint b < 256" using uint_bounded [of b] by simp_all
  with Cons show ?case by simp
qed simp

lemma image32_bounds: "0 \<le> image32 k a" "image32 k a < 2 ^ 32"
  using horner_bytes [of "map (\<lambda>i. ram (mm k) (a + int i)) [0..<4]"] by (simp_all add: image32_def)

lemma guard_above:
  "guard_page ta p \<Longrightarrow> 4096 dvd ta \<Longrightarrow> 0 \<le> ta \<Longrightarrow> ta + 81920 \<le> 1048576 \<Longrightarrow> ta div 4096 \<le> p \<and> p < ta div 4096 + 20"
  using protect_page_eq(1) [of ta] by (auto simp: guard_page_def)

lemma loaded_readable:
  assumes l: "loaded k" and a: "0x10000 \<le> a" "a < 0x11000 \<or> task_addr (lay k) + 81920 \<le> a" "a < 1048576"
  shows "readable (lay k) a"
proof -
  have d: "4096 dvd task_addr (lay k)" "0x11000 \<le> task_addr (lay k)" "task_addr (lay k) + 81920 \<le> 1048576"
    using l image32_bounds(1) [of k "0x10004"] unfolding loaded_def Let_def by auto
  have "\<not> guard_page (task_addr (lay k)) (a div 4096)"
  proof
    assume "guard_page (task_addr (lay k)) (a div 4096)"
    then have "task_addr (lay k) div 4096 \<le> a div 4096" "a div 4096 < task_addr (lay k) div 4096 + 20"
      using guard_above [of "task_addr (lay k)" "a div 4096"] d by auto
    then show False using a(2) d by auto
  qed
  then show ?thesis using a by (simp add: readable_def)
qed

lemma main_boot:
  "main haddr M = Option.bind (boot_state (kern M)) (\<lambda>k. do {
     sys_size \<leftarrow> load32 (mm k) p_sys_size;
     usr_size \<leftarrow> load32 (mm k) p_usr_size;
     k \<leftarrow> lift_mm (copy_data vread vwrite (u32 (0x10000 + uint sys_size)) L_USER_START (sint usr_size)) k;
     return_gate USER_DS USER_DS USER_ESP USER_CS 0x100000 (M\<lparr>
       cpu := (cpu M)\<lparr>r_ds := 0x18, r_es := 0x18, r_fs := 0x18, r_gs := 0x18, r_oldss := 0x18, r_oldesp := KERNEL_ESP (lay (kern M)) - 20\<rparr>,
       idts := setIdt (idt_addr (lay (kern M))) haddr (idts M), pic_mask := 0xFC, eflags := set_bit 9 0,
       kern := say (cstr (''Entering user mode...'' @ [CHR 0x0A])) (iniTics k)\<rparr>)})"
  by (simp add: main_def boot_state_def Let_def set_seg_regs_def set_eflags_def enable_int_def say_def)

lemma main_starts:
  assumes l: "loaded (kern M)"
  shows "\<exists>M'. main haddr M = Some M' \<and> kinv (kern M') \<and> queues (kern M') [RunQ \<mapsto> [TaskL 0], KbdQ \<mapsto> []] \<and>
    idts M' = setIdt (idt_addr (lay (kern M))) haddr (idts M) \<and> bit (eflags M') 9 \<and> pic_mask M' = 0xFC \<and>
    r_cs (cpu M') = 0x23 \<and> r_ds (cpu M') = 0x2B \<and> r_oldss (cpu M') = 0x2B \<and> r_oldesp (cpu M') = USER_ESP \<and> r_eip (cpu M') = 0x100000 \<and>
    (\<forall>i. 0 \<le> i \<and> i < image32 (kern M) p_usr_size \<longrightarrow>
      uld (mm (kern M')) (L_USER_START + i) = Some (ram (mm (kern M)) (0x10000 + image32 (kern M) p_sys_size + i)))"
proof -
  define n u where "n = image32 (kern M) 0x10000" and "u = image32 (kern M) 0x10004"
  note d = l [unfolded loaded_def Let_def, folded n_def u_def]
  have b: "0 \<le> n" "n < 2 ^ 32" "0 \<le> u" "u < 2 ^ 32" using image32_bounds by (simp_all add: n_def u_def)
  obtain k where k: "boot_state (kern M) = Some k" "kinv k" "queues k [RunQ \<mapsto> [TaskL 0], KbdQ \<mapsto> []]"
    "\<forall>a. readable (lay (kern M)) a \<longrightarrow> translate (mm k) a = Some a"
    "\<forall>p x. 256 \<le> p \<and> p < 284 \<and> 0 \<le> x \<and> x < 4096 \<longrightarrow> translate (mm k) (4096 * p + x) = Some (4096 * boot_frame p + x)"
    "ram (mm k) = ram (mm (kern M))" "lay k = lay (kern M)"
    by (rule boot_state_ok [of "kern M"]) (use d b in \<open>auto simp: sems_ok_def\<close>)
  have bt: "booted (mm k) (lay (kern M))" using k(4,5) by unfold_locales auto
  have rd4: "\<forall>i. 0 \<le> i \<and> i < 4 \<longrightarrow> readable (lay (kern M)) (a + i)" if "a \<in> {0x10000, 0x10004, 0x10008}" for a
    using loaded_readable [OF l, of "a + i" for i] that by auto
  have sz: "load32 (mm k) 0x10000 = Some (word_of_int n)" "load32 (mm k) 0x10004 = Some (word_of_int u)"
    using booted.load32_ok [OF bt rd4] by (simp_all add: n_def u_def image32_def k(6))
  have si: "u32 (0x10000 + uint (word_of_int n :: 32 word)) = 0x10000 + n" "sint (word_of_int u :: 32 word) = u"
    using d b s32_id [of u] by (simp_all add: u32_word [symmetric] s32_word [symmetric] in_int_def)
  have src: "\<forall>i. 0 \<le> i \<and> i < u \<longrightarrow> readable (lay (kern M)) (0x10000 + n + i)"
    using loaded_readable [OF l] d b by auto
  obtain r where r: "copy_data vread vwrite (0x10000 + n) 1048576 u (mm k) = Some ((mm k)\<lparr>ram := r\<rparr>)"
    "\<forall>i. 0 \<le> i \<and> i < u \<longrightarrow> r (boot_addr (1048576 + i)) = ram (mm k) (0x10000 + n + i)" "\<forall>pa. pa < 1048576 \<longrightarrow> r pa = ram (mm k) pa"
    using booted.copy_program [OF bt src] d b by auto
  let ?m = "(mm k)\<lparr>ram := r\<rparr>"
  have bt2: "booted ?m (lay (kern M))" by (rule booted_ram [OF bt])
  obtain v where v: "load32 ?m 0x10008 = Some v" using booted.load32_ok [OF bt2 rd4] by simp
  let ?bs = "word_bytes (uint v)"
  have lb: "length ?bs = 4" by (simp add: word_bytes_def)
  obtain r2 where r2: "store_list vwrite 1163260 ?bs ?m = Some (?m\<lparr>ram := r2\<rparr>)"
    "\<forall>pa. (\<forall>i<length ?bs. pa \<noteq> boot_addr (1163260 + int i)) \<longrightarrow> r2 pa = ram ?m pa"
    by (rule booted.store_user [OF bt2, of 1163260 ?bs]) (simp, simp add: lb, rule that)
  define k' where "k' = (say (cstr (''Entering user mode...'' @ [CHR 0x0A])) (iniTics (k\<lparr>mm := ?m\<rparr>)))\<lparr>mm := ?m\<lparr>ram := r2\<rparr>\<rparr>"
  have st: "kstable k k'" by (simp add: k'_def say_def iniTics_def kstable_def kframe_def)
  have img: "uld (mm k') (1048576 + i) = Some (ram (mm (kern M)) (0x10000 + n + i))" if "0 \<le> i" "i < u" for i
  proof -
    have "boot_addr (1048576 + i) \<noteq> boot_addr (1163260 + int j)" if "j < 4" for j
      using boot_addr_inj [of "1048576 + i" "1163260 + int j"] \<open>0 \<le> i\<close> \<open>i < u\<close> d by auto
    then have "r2 (boot_addr (1048576 + i)) = ram (mm k) (0x10000 + n + i)" using r2(2) r(2) that lb by simp
    then show ?thesis using booted.user_addr [OF bt, of "1048576 + i"] that d by (simp add: uld_def vread_def k'_def k(6))
  qed
  have k1: "lift_mm (copy_data vread vwrite (u32 (0x10000 + uint (word_of_int n :: 32 word))) 1048576 (sint (word_of_int u :: 32 word))) k = Some (k\<lparr>mm := ?m\<rparr>)"
    using r(1) by (simp add: si lift_mm_def)
  have k2: "lift_mm (store32 1163260 v) (say (cstr (''Entering user mode...'' @ [CHR 0x0A])) (iniTics (k\<lparr>mm := ?m\<rparr>))) = Some k'"
    using r2(1) by (simp add: lift_mm_def store32_def say_def iniTics_def k'_def)
  have mk: "mm (say x (iniTics (k\<lparr>mm := ?m\<rparr>))) = ?m" for x by (simp add: say_def iniTics_def)
  have q: "queues k' [RunQ \<mapsto> [TaskL 0], KbdQ \<mapsto> []]" using kframe_queues [OF _ k(3)] st by (simp add: kstable_def)
  show ?thesis
    using k1 k2 v sz k(1) kinv_kstable [OF k(2) st] q img unfolding main_boot return_gate_def n_def [symmetric] u_def [symmetric]
    by (simp add: mk)
qed

text \<open>C16: the system starts: from a loaded kernel image \<open>main\<close> reaches user mode with the invariant of the kernel
  established, the interrupt table set, the clock and keyboard interrupts enabled, and the user program at its address.\<close>

theorem main_boots:
  assumes l: "loaded (kern M)"
  shows "\<exists>M'. main haddr M = Some M' \<and> kinv (kern M') \<and> queues (kern M') [RunQ \<mapsto> [TaskL 0], KbdQ \<mapsto> []] \<and>
    idts M' = setIdt (idt_addr (lay (kern M))) haddr (idts M) \<and> bit (eflags M') 9 \<and> pic_mask M' = 0xFC \<and>
    r_cs (cpu M') = 0x23 \<and> r_ds (cpu M') = 0x2B \<and> r_oldss (cpu M') = 0x2B \<and> r_oldesp (cpu M') = USER_ESP \<and> r_eip (cpu M') = 0x100000 \<and>
    (\<forall>i. 0 \<le> i \<and> i < image32 (kern M) p_usr_size \<longrightarrow>
      uld (mm (kern M')) (L_USER_START + i) = Some (ram (mm (kern M)) (0x10000 + image32 (kern M) p_sys_size + i)))"
  by (rule main_starts [OF l])

text \<open>A loaded image: a kernel of 0x24000 bytes with its task structures at 0x20000, and 4 bytes of user program.\<close>

definition blank_machine :: machine where
  "blank_machine = \<lparr>kern = blank_kernel\<lparr>mm := blank_mm\<lparr>ram := (\<lambda>_. 0)(0x10001 := 0x40, 0x10002 := 0x02, 0x10004 := 4,
       0x34000 := 0xC3)\<rparr>\<rparr>,
     idts = \<lparr>idt = (\<lambda>_. \<lparr>lowOffset = 0, segmentSelector = 0, gate_flags = 0, highOffset = 0\<rparr>),
       idtR = \<lparr>reg_limit = 0, reg_base = 0\<rparr>, idt_reg = None\<rparr>,
     eflags = 2, pic_mask = 0xFF, ldtr = 0, cpu = \<lparr>r_ebx = 0, r_ecx = 0, r_edx = 0, r_esi = 0, r_edi = 0, r_ebp = 0, r_eax = 0, r_ds = 0,
       r_es = 0, r_fs = 0, r_gs = 0, r_eip = 0, r_cs = 0, r_eflags = 0, r_oldesp = 0, r_oldss = 0\<rparr>\<rparr>"

lemma image32_blank: "image32 (kern blank_machine) 0x10000 = 0x24000" "image32 (kern blank_machine) 0x10004 = 4"
  by (simp_all add: image32_def blank_machine_def blank_kernel_def upt_rec)

lemma loaded_blank: "loaded (kern blank_machine)"
  unfolding loaded_def image32_blank by (simp add: blank_machine_def blank_kernel_def)

text \<open>The locale on the first state of that machine.\<close>

interpretation first: booted "mm (the (boot_state (kern blank_machine)))" "lay (kern blank_machine)"
proof -
  have l: "4096 dvd task_addr (lay (kern blank_machine))" "0 \<le> task_addr (lay (kern blank_machine))"
    "task_addr (lay (kern blank_machine)) + 81920 \<le> 1048576" "\<And>n. init (sem (kern blank_machine) n) \<noteq> 1"
    "sems_ok (kern blank_machine)" "cur (kern blank_machine) = 0"
    by (simp_all add: blank_machine_def blank_kernel_def sems_ok_def)
  obtain k' where "boot_state (kern blank_machine) = Some k'" "\<forall>a. readable (lay (kern blank_machine)) a \<longrightarrow> translate (mm k') a = Some a"
    "\<forall>p x. 256 \<le> p \<and> p < 284 \<and> 0 \<le> x \<and> x < 4096 \<longrightarrow> translate (mm k') (4096 * p + x) = Some (4096 * boot_frame p + x)"
    by (rule boot_state_ok [OF l]) (rule that)
  then show "booted (mm (the (boot_state (kern blank_machine)))) (lay (kern blank_machine))" by unfold_locales auto
qed

theorem main_boots_witness:
  "\<exists>M'. main (\<lambda>_. 0) blank_machine = Some M' \<and> kinv (kern M') \<and> uld (mm (kern M')) 0x100000 = Some 0xC3"
proof -
  obtain M' where M': "main (\<lambda>_. 0) blank_machine = Some M'" "kinv (kern M')"
    "\<forall>i. 0 \<le> i \<and> i < image32 (kern blank_machine) 0x10004 \<longrightarrow>
      uld (mm (kern M')) (1048576 + i) = Some (ram (mm (kern blank_machine)) (0x10000 + image32 (kern blank_machine) 0x10000 + i))"
    using main_boots [OF loaded_blank, of "\<lambda>_. 0"] by blast
  have "uld (mm (kern M')) 0x100000 = Some (ram (mm (kern blank_machine)) 0x34000)"
    using M'(3) [rule_format, of 0] unfolding image32_blank by simp
  then show ?thesis using M'(1,2) by (simp add: blank_machine_def)
qed

end
