(* ===== verification/Scenarios.thy ===== *)
theory Scenarios
  imports System
begin

text \<open>
  Concrete runs on which the properties of the development are instantiated: the state after the
  boot of \<open>blank_machine\<close>, the state after its first fork, and the one in which the child runs.
\<close>

section \<open>After the boot\<close>

definition k_boot :: kernel where
  "k_boot = the (boot_state (kern blank_machine))"

lemma k_boot_facts:
  shows k_boot_eq: "boot_state (kern blank_machine) = Some k_boot" and k_boot_inv: "kinv k_boot"
    and k_boot_queues: "queues k_boot [RunQ \<mapsto> [TaskL 0], KbdQ \<mapsto> []]"
    and k_boot_ram: "ram (mm k_boot) = ram (mm (kern blank_machine))" and k_boot_lay: "lay k_boot = lay (kern blank_machine)"
    and k_boot_user: "\<forall>p x. 256 \<le> p \<and> p < 284 \<and> 0 \<le> x \<and> x < 4096 \<longrightarrow> translate (mm k_boot) (4096 * p + x) = Some (4096 * boot_frame p + x)"
    and k_boot_free: "free_from 344 (mm k_boot)" and k_boot_pid: "next_pid k_boot = 1" and k_boot_cur: "cur k_boot = 0"
    and k_boot_kbd: "circ_chars k_boot = 0" "kp k_boot = 0" "kstart k_boot = 0" "left4current k_boot = 60" "it_is_int k_boot = 0"
    and k_boot_sem: "sem k_boot = (\<lambda>_. \<lparr>count = 0, init = 0\<rparr>)"
    and k_boot_fs: "fs k_boot = boot_fs (the (init_filesystem blank_fs))"
    and k_boot_fds: "\<forall>i. 0 \<le> i \<and> i < 10 \<longrightarrow> file_descriptors (task k_boot 0) i = (if i = 0 then Some 0 else if i < 3 then Some 1 else None)"
proof -
  let ?k = "kern blank_machine"
  have l: "4096 dvd task_addr (lay ?k)" "0 \<le> task_addr (lay ?k)" "task_addr (lay ?k) + 81920 \<le> 1048576" "\<And>n. init (sem ?k n) \<noteq> 1"
    "sems_ok ?k" "cur ?k = 0"
    by (simp_all add: blank_machine_def blank_kernel_def sems_ok_def)
  have b: "sem ?k = (\<lambda>_. \<lparr>count = 0, init = 0\<rparr>)" "fs ?k = blank_fs" by (simp_all add: blank_machine_def blank_kernel_def)
  obtain k' where k': "boot_state ?k = Some k'" "kinv k'" "queues k' [RunQ \<mapsto> [TaskL 0], KbdQ \<mapsto> []]"
    "\<forall>p x. 256 \<le> p \<and> p < 284 \<and> 0 \<le> x \<and> x < 4096 \<longrightarrow> translate (mm k') (4096 * p + x) = Some (4096 * boot_frame p + x)"
    "ram (mm k') = ram (mm ?k)" "lay k' = lay ?k" "free_from 344 (mm k')" "next_pid k' = 1" "cur k' = 0"
    "circ_chars k' = 0 \<and> kp k' = 0 \<and> kstart k' = 0 \<and> left4current k' = 60 \<and> it_is_int k' = 0 \<and> sem k' = sem ?k"
    "fs k' = boot_fs (the (init_filesystem (fs ?k)))"
    "\<forall>i. 0 \<le> i \<and> i < 10 \<longrightarrow> file_descriptors (task k' 0) i = (if i = 0 then Some 0 else if i < 3 then Some 1 else None)"
    by (rule boot_state_ok [OF l]) (rule that, assumption+)
  have e: "k_boot = k'" using k'(1) by (simp add: k_boot_def)
  show "boot_state ?k = Some k_boot" "kinv k_boot" "queues k_boot [RunQ \<mapsto> [TaskL 0], KbdQ \<mapsto> []]"
    "\<forall>p x. 256 \<le> p \<and> p < 284 \<and> 0 \<le> x \<and> x < 4096 \<longrightarrow> translate (mm k_boot) (4096 * p + x) = Some (4096 * boot_frame p + x)"
    "ram (mm k_boot) = ram (mm ?k)" "lay k_boot = lay ?k" "free_from 344 (mm k_boot)" "next_pid k_boot = 1" "cur k_boot = 0"
    "circ_chars k_boot = 0" "kp k_boot = 0" "kstart k_boot = 0" "left4current k_boot = 60" "it_is_int k_boot = 0"
    "sem k_boot = (\<lambda>_. \<lparr>count = 0, init = 0\<rparr>)" "fs k_boot = boot_fs (the (init_filesystem blank_fs))"
    "\<forall>i. 0 \<le> i \<and> i < 10 \<longrightarrow> file_descriptors (task k_boot 0) i = (if i = 0 then Some 0 else if i < 3 then Some 1 else None)"
    unfolding e using k' b by simp_all
qed

lemma k_boot_live: "live k_boot i \<longleftrightarrow> i = 0"
  and k_boot_pids: "0 \<le> i \<Longrightarrow> i < 10 \<Longrightarrow> pid (task k_boot i) = (if i = 0 then 0 else -1)"
proof -
  have "TaskL ` {i. live k_boot i} = {TaskL 0}"
    unfolding queues_members [OF k_boot_queues, symmetric] by (auto simp: members_def split: if_splits)
  then have lv: "live k_boot i \<longleftrightarrow> i = 0" for i by auto
  then show "live k_boot i \<longleftrightarrow> i = 0" .
  assume i: "0 \<le> i" "i < 10"
  then show "pid (task k_boot i) = (if i = 0 then 0 else -1)" using queues_pid [OF k_boot_queues i] lv [of i] by (auto simp: live_def)
qed

text \<open>The least free slot.\<close>

lemma slot_found:
  assumes c: "0 \<le> c" "c < 10" "\<not> live k c" and i: "\<And>i. 0 \<le> i \<Longrightarrow> i < c \<Longrightarrow> live k i"
  shows "srch_free_task k = c"
proof -
  let ?c = "srch_free_task k"
  have neg: "pid (task k c) < 0" using c by (simp add: live_def)
  then have "\<not> (\<forall>i. 0 \<le> i \<and> i < 10 \<longrightarrow> 0 \<le> pid (task k i))" using c by (intro notI) (drule spec [of _ c], simp)
  then have f: "0 \<le> ?c" "?c < 10" "pid (task k ?c) < 0" "\<forall>i. 0 \<le> i \<and> i < ?c \<longrightarrow> 0 \<le> pid (task k i)"
    using srch_free_task_cases [of k] by blast+
  have "\<not> c < ?c" using f(4) [rule_format, of c] c(1) neg by auto
  moreover have "\<not> ?c < c" using i [of ?c] f(1,3) by (auto simp: live_def)
  ultimately show ?thesis by simp
qed

lemma k_boot_slot: "srch_free_task k_boot = 1"
  by (rule slot_found) (auto simp: k_boot_live)

lemma k_boot_avail40: "40 \<le> card (avail (mm k_boot))"
proof -
  have "(\<lambda>i. 344 + 2 * i) ` {0..<40} \<subseteq> avail (mm k_boot)"
    using k_boot_free by (auto simp: avail_def free_from_def)
  moreover have "card ((\<lambda>i. 344 + 2 * i) ` {0..<40 :: int}) = 40" by (subst card_image) (auto intro: inj_onI)
  ultimately show ?thesis using card_mono [OF finite_avail] by metis
qed

lemma k_boot_avail: "20 \<le> card (avail (mm k_boot))"
  using k_boot_avail40 by simp

section \<open>After the first fork\<close>

definition k_fork :: kernel where
  "k_fork = snd (the (sys_fork k_boot))"

lemma k_fork_facts:
  shows k_fork_eq: "sys_fork k_boot = Some (1, k_fork)" and k_fork_inv: "kinv k_fork"
    and k_fork_queues: "queues k_fork [RunQ \<mapsto> [TaskL 0, TaskL 1], KbdQ \<mapsto> []]" and k_fork_cur: "cur k_fork = 0"
    and k_fork_pid: "pid (task k_fork 1) = 1" and k_fork_next: "next_pid k_fork = 2"
    and k_fork_kbd: "circ_chars k_fork = 0" "kp k_fork = 0" "it_is_int k_fork = 0" "sem k_fork = (\<lambda>_. \<lparr>count = 0, init = 0\<rparr>)"
    and k_fork_avail: "20 \<le> card (avail (mm k_fork))" and k_fork_lay: "lay k_fork = lay k_boot"
    and k_fork_sems: "owned_sems (task k_fork 1) i = (if 0 \<le> i \<and> i < 26 then -1 else owned_sems (task k_boot 0) i)"
proof -
  have iso: "iso_ok k_boot" "frames_ok k_boot" "fds_all k_boot" using k_boot_inv by (simp_all add: kinv_def)
  obtain pf where pf: "\<forall>p. 0 \<le> p \<and> p < 20 \<longrightarrow> pagusr_table (mm k_boot) (264 + p) = user_pte (pf p) \<and> owned (mm k_boot) (pf p)"
    using iso_mapped [OF iso(1)] by (rule mapped_okE)
  have fd: "fds_ok (fs k_boot) (file_descriptors (current k_boot))"
    using iso(3) k_boot_live by (simp add: fds_all_def k_boot_cur)
  have np: "0 \<le> next_pid k_boot" "next_pid k_boot < 2 ^ 31 - 1" by (simp_all add: k_boot_pid)
  have rq: "[RunQ \<mapsto> [TaskL 0], KbdQ \<mapsto> []] RunQ = Some [TaskL 0]" by simp
  obtain frames m r h s where st: "sys_fork k_boot = Some (next_pid k_boot, k_boot\<lparr>task := (task k_boot)(1 := child_of k_boot frames),
       lists := h, next_pid := next_pid k_boot + 1, fs := s,
       mm := m\<lparr>ram := r, pagusr_table := (\<lambda>p. if 284 \<le> p \<and> p < 304 then 0 else pagusr_table (mm k_boot) p),
         cr3 := dir_pages_addr (lay k_boot)\<rparr>\<rparr>)" and fr: "length frames = 20" "avail m = avail (mm k_boot) - set frames"
      and h: "rings h ([RunQ \<mapsto> [TaskL 0], KbdQ \<mapsto> []](RunQ \<mapsto> [TaskL 0] @ [TaskL 1]))"
    by (rule sys_fork_state [OF k_boot_queues iso(2) iso_mapped [OF iso(1)] rq k_boot_slot _ k_boot_avail fd np pf]) (simp, rule that, assumption+)
  define k where "k = k_boot\<lparr>task := (task k_boot)(1 := child_of k_boot frames), lists := h, next_pid := next_pid k_boot + 1, fs := s,
       mm := m\<lparr>ram := r, pagusr_table := (\<lambda>p. if 284 \<le> p \<and> p < 304 then 0 else pagusr_table (mm k_boot) p),
         cr3 := dir_pages_addr (lay k_boot)\<rparr>\<rparr>"
  have e: "sys_fork k_boot = Some (1, k)" using st by (simp add: k_def k_boot_pid)
  then have k: "k_fork = k" by (simp add: k_fork_def)
  show "sys_fork k_boot = Some (1, k_fork)" using e k by simp
  show "kinv k_fork" using sys_fork_inv [OF k_boot_inv np(2) e] k by simp
  have Q: "[RunQ \<mapsto> [TaskL 0], KbdQ \<mapsto> []](RunQ \<mapsto> [TaskL 0] @ [TaskL 1]) = [RunQ \<mapsto> [TaskL 0, TaskL 1], KbdQ \<mapsto> []]" by auto
  have "queues k ([RunQ \<mapsto> [TaskL 0], KbdQ \<mapsto> []](RunQ \<mapsto> [TaskL 0] @ [TaskL 1]))"
    by (rule fork_queues [OF k_boot_queues rq _ _ _ _ h]) (simp_all add: k_boot_live k_boot_pid k_def child_of_def)
  then show "queues k_fork [RunQ \<mapsto> [TaskL 0, TaskL 1], KbdQ \<mapsto> []]" unfolding Q k .
  have "card (avail m) \<ge> card (avail (mm k_boot)) - card (set frames)"
    unfolding fr(2) by (rule diff_card_le_card_Diff) simp
  then have "20 \<le> card (avail m)" using card_length [of frames] fr(1) k_boot_avail40 by simp
  then show "20 \<le> card (avail (mm k_fork))" unfolding k by (simp add: k_def avail_def)
  show "lay k_fork = lay k_boot" "cur k_fork = 0" "pid (task k_fork 1) = 1" "next_pid k_fork = 2" "circ_chars k_fork = 0" "kp k_fork = 0" "it_is_int k_fork = 0"
    "sem k_fork = (\<lambda>_. \<lparr>count = 0, init = 0\<rparr>)" "owned_sems (task k_fork 1) i = (if 0 \<le> i \<and> i < 26 then -1 else owned_sems (task k_boot 0) i)"
    unfolding k by (simp_all add: k_def k_boot_facts child_of_def)
qed

section \<open>The child runs\<close>

definition k_child :: kernel where
  "k_child = snd (the (schedule 0 (k_fork\<lparr>left4current := 0\<rparr>)))"

lemma k_child_facts:
  shows k_child_eq: "schedule 0 (k_fork\<lparr>left4current := 0\<rparr>) = Some (Switched, k_child)" and k_child_inv: "kinv k_child"
    and k_child_queues: "queues k_child [RunQ \<mapsto> [TaskL 1, TaskL 0], KbdQ \<mapsto> []]" and k_child_cur: "cur k_child = 1"
    and k_child_pid: "pid (task k_child 1) = 1" and k_child_next: "next_pid k_child = 2"
    and k_child_kbd: "circ_chars k_child = 0" "kp k_child = 0" "sem k_child = (\<lambda>_. \<lparr>count = 0, init = 0\<rparr>)"
    and k_child_avail: "20 \<le> card (avail (mm k_child))" and k_child_lay: "lay k_child = lay k_boot"
    and k_child_sems: "0 \<le> i \<Longrightarrow> i < 26 \<Longrightarrow> owned_sems (task k_child 1) i = -1"
proof -
  let ?k = "k_fork\<lparr>left4current := 0\<rparr>"
  have st: "kstable k_fork ?k" by (simp add: kstable_def kframe_def)
  have inv: "kinv ?k" by (rule kinv_kstable [OF k_fork_inv st])
  have q: "queues ?k [RunQ \<mapsto> [TaskL 0, TaskL 1], KbdQ \<mapsto> []]" using kframe_queues [OF _ k_fork_queues] st by (simp add: kstable_def)
  have rq: "[RunQ \<mapsto> [TaskL 0, TaskL 1], KbdQ \<mapsto> []] RunQ = Some (TaskL (cur ?k) # TaskL 1 # [])" by (simp add: k_fork_cur)
  obtain h where h: "schedule 0 ?k = Some (Switched, switched 1 (?k\<lparr>lists := h, it_is_int := 0\<rparr>))"
    "queues (switched 1 (?k\<lparr>lists := h, it_is_int := 0\<rparr>)) ([RunQ \<mapsto> [TaskL 0, TaskL 1], KbdQ \<mapsto> []](RunQ \<mapsto> TaskL 1 # [] @ [TaskL (cur ?k)]))"
    by (rule schedule_rotate [OF q _ rq]) (simp, rule that)
  have c: "k_child = switched 1 (?k\<lparr>lists := h, it_is_int := 0\<rparr>)" using h(1) by (simp add: k_child_def)
  show s: "schedule 0 ?k = Some (Switched, k_child)" using h(1) c by simp
  show "kinv k_child" using schedule_inv [OF inv s] by simp
  have Q: "[RunQ \<mapsto> [TaskL 0, TaskL 1], KbdQ \<mapsto> []](RunQ \<mapsto> TaskL 1 # [] @ [TaskL (cur ?k)]) = [RunQ \<mapsto> [TaskL 1, TaskL 0], KbdQ \<mapsto> []]"
    by (auto simp: k_fork_cur)
  show "queues k_child [RunQ \<mapsto> [TaskL 1, TaskL 0], KbdQ \<mapsto> []]" using h(2) unfolding Q c .
  show "lay k_child = lay k_boot" "cur k_child = 1" "pid (task k_child 1) = 1" "next_pid k_child = 2" "circ_chars k_child = 0" "kp k_child = 0"
    "sem k_child = (\<lambda>_. \<lparr>count = 0, init = 0\<rparr>)" "0 \<le> i \<Longrightarrow> i < 26 \<Longrightarrow> owned_sems (task k_child 1) i = -1"
    unfolding c by (simp_all add: k_fork_facts)
  show "20 \<le> card (avail (mm k_child))" using k_fork_avail unfolding c by (simp add: avail_def)
qed

lemma k_child_live: "live k_child i \<longleftrightarrow> i = 0 \<or> i = 1"
proof -
  have "TaskL ` {i. live k_child i} = {TaskL 0, TaskL 1}"
    unfolding queues_members [OF k_child_queues, symmetric] by (auto simp: members_def split: if_splits)
  then have "{i. live k_child i} = {0, 1}" by (metis (no_types) image_empty image_insert inj_image_eq_iff inj_onI list_node.inject(2))
  then show ?thesis by auto
qed

section \<open>Three processes\<close>

definition k_three :: kernel where
  "k_three = snd (the (sys_fork k_child))"

lemma k_three_facts:
  shows k_three_eq: "sys_fork k_child = Some (2, k_three)" and k_three_inv: "kinv k_three" and k_three_cur: "cur k_three = 1"
    and k_three_queues: "queues k_three [RunQ \<mapsto> [TaskL 1, TaskL 0, TaskL 2], KbdQ \<mapsto> []]" and k_three_pid: "pid (task k_three 1) = 1"
proof -
  have iso: "iso_ok k_child" "frames_ok k_child" "fds_all k_child" using k_child_inv by (simp_all add: kinv_def)
  obtain pf where pf: "\<forall>p. 0 \<le> p \<and> p < 20 \<longrightarrow> pagusr_table (mm k_child) (264 + p) = user_pte (pf p) \<and> owned (mm k_child) (pf p)"
    using iso_mapped [OF iso(1)] by (rule mapped_okE)
  have fd: "fds_ok (fs k_child) (file_descriptors (current k_child))"
    using iso(3) k_child_live by (simp add: fds_all_def k_child_cur)
  have np: "0 \<le> next_pid k_child" "next_pid k_child < 2 ^ 31 - 1" by (simp_all add: k_child_next)
  have sl: "srch_free_task k_child = 2" by (rule slot_found) (auto simp: k_child_live)
  have rq: "[RunQ \<mapsto> [TaskL 1, TaskL 0], KbdQ \<mapsto> []] RunQ = Some [TaskL 1, TaskL 0]" by simp
  obtain frames m r h s where st: "sys_fork k_child = Some (next_pid k_child, k_child\<lparr>task := (task k_child)(2 := child_of k_child frames),
       lists := h, next_pid := next_pid k_child + 1, fs := s,
       mm := m\<lparr>ram := r, pagusr_table := (\<lambda>p. if 284 \<le> p \<and> p < 304 then 0 else pagusr_table (mm k_child) p),
         cr3 := dir_pages_addr (lay k_child)\<rparr>\<rparr>)"
      and h: "rings h ([RunQ \<mapsto> [TaskL 1, TaskL 0], KbdQ \<mapsto> []](RunQ \<mapsto> [TaskL 1, TaskL 0] @ [TaskL 2]))"
    by (rule sys_fork_state [OF k_child_queues iso(2) iso_mapped [OF iso(1)] rq sl _ k_child_avail fd np pf]) (simp, rule that, assumption+)
  define k where "k = k_child\<lparr>task := (task k_child)(2 := child_of k_child frames), lists := h, next_pid := next_pid k_child + 1, fs := s,
       mm := m\<lparr>ram := r, pagusr_table := (\<lambda>p. if 284 \<le> p \<and> p < 304 then 0 else pagusr_table (mm k_child) p),
         cr3 := dir_pages_addr (lay k_child)\<rparr>\<rparr>"
  have e: "sys_fork k_child = Some (2, k)" using st by (simp add: k_def k_child_next)
  then have k: "k_three = k" by (simp add: k_three_def)
  show "sys_fork k_child = Some (2, k_three)" using e k by simp
  show "kinv k_three" using sys_fork_inv [OF k_child_inv np(2) e] k by simp
  have Q: "[RunQ \<mapsto> [TaskL 1, TaskL 0], KbdQ \<mapsto> []](RunQ \<mapsto> [TaskL 1, TaskL 0] @ [TaskL 2]) = [RunQ \<mapsto> [TaskL 1, TaskL 0, TaskL 2], KbdQ \<mapsto> []]" by auto
  have "queues k ([RunQ \<mapsto> [TaskL 1, TaskL 0], KbdQ \<mapsto> []](RunQ \<mapsto> [TaskL 1, TaskL 0] @ [TaskL 2]))"
    by (rule fork_queues [OF k_child_queues rq _ _ _ _ h]) (simp_all add: k_child_live k_child_next k_def child_of_def)
  then show "queues k_three [RunQ \<mapsto> [TaskL 1, TaskL 0, TaskL 2], KbdQ \<mapsto> []]" unfolding Q k .
  show "cur k_three = 1" "pid (task k_three 1) = 1" unfolding k by (simp_all add: k_def k_child_facts)
qed

end
