(* ===== verification/KernelProps.thy ===== *)
theory KernelProps
  imports Scenarios
begin

text \<open>
  What the scheduler, the processes, the semaphores and the handlers promise, stated over states that
  satisfy the invariant of the kernel, each with a run on the scenarios.
\<close>

section \<open>Scheduling\<close>

text \<open>\<open>n\<close> times in a row the running process uses up its quantum.\<close>

fun expiries :: "nat \<Rightarrow> kernel \<Rightarrow> kernel option" where
  "expiries 0 k = Some k"
| "expiries (Suc n) k = Option.bind (schedule 0 (k\<lparr>left4current := 0\<rparr>)) (\<lambda>(_, k). expiries n k)"

lemma expiry_rotates:
  assumes q: "queues k Q" and rq: "Q RunQ = Some xs"
  obtains out k' where "schedule 0 (k\<lparr>left4current := 0\<rparr>) = Some (out, k')" and "queues k' (Q(RunQ \<mapsto> rotate1 xs))"
proof -
  let ?k = "k\<lparr>left4current := 0\<rparr>"
  have qk: "queues ?k Q" using q by (subst queues_cong [of ?k k]) auto
  obtain rs where xs: "xs = TaskL (cur k) # rs" using queues_run [OF q] rq by (metis option.inject)
  show ?thesis
  proof (cases rs)
    case Nil
    let ?k' = "upd_task (cur ?k) (\<lambda>t. t\<lparr>remaining := quantum t\<rparr>) (?k\<lparr>left4current := quantum (current ?k)\<rparr>)"
    have s: "schedule 0 ?k = Some (Return (), ?k')" using schedule_lone [OF qk] rq xs Nil by simp
    have "queues ?k' Q" using q by (subst queues_cong [of ?k' k]) auto
    moreover have e: "Q(RunQ \<mapsto> rotate1 xs) = Q" using rq xs Nil by auto
    ultimately have "queues ?k' (Q(RunQ \<mapsto> rotate1 xs))" unfolding e by simp
    with s show ?thesis by (rule that)
  next
    case (Cons a as)
    then obtain t where a: "a = TaskL t" using queues_entry [OF q rq, of a] xs by auto
    have r: "Q RunQ = Some (TaskL (cur ?k) # TaskL t # as)" using rq xs Cons a by simp
    obtain h where h: "schedule 0 ?k = Some (Switched, switched t (?k\<lparr>lists := h, it_is_int := 0\<rparr>))"
      "queues (switched t (?k\<lparr>lists := h, it_is_int := 0\<rparr>)) (Q(RunQ \<mapsto> TaskL t # as @ [TaskL (cur ?k)]))"
      by (rule schedule_rotate [OF qk _ r]) (simp, rule that)
    have e: "rotate1 xs = TaskL t # as @ [TaskL (cur ?k)]" using xs Cons a by simp
    show ?thesis using h(1) h(2) [folded e] by (rule that)
  qed
qed

lemma expiries_rotate:
  "queues k Q \<Longrightarrow> Q RunQ = Some xs \<Longrightarrow> \<exists>k'. expiries n k = Some k' \<and> queues k' (Q(RunQ \<mapsto> rotate n xs))"
proof (induction n arbitrary: k Q xs)
  case (Suc n)
  obtain out k1 where k1: "schedule 0 (k\<lparr>left4current := 0\<rparr>) = Some (out, k1)" "queues k1 (Q(RunQ \<mapsto> rotate1 xs))"
    using Suc.prems by (rule expiry_rotates)
  obtain k' where k': "expiries n k1 = Some k'" "queues k' (Q(RunQ \<mapsto> rotate n (rotate1 xs)))"
    using Suc.IH [OF k1(2) fun_upd_same] unfolding fun_upd_upd by blast
  have "expiries (Suc n) k = Some k'" using k1(1) k'(1) by simp
  moreover have "rotate n (rotate1 xs) = rotate (Suc n) xs" by (simp add: rotate1_rotate_swap)
  ultimately show ?case using k'(2) by metis
qed (simp add: map_upd_triv)

text \<open>C5: the scheduler is fair: with \<open>m\<close> ready processes in the order \<open>is\<close>, after \<open>n\<close> expired quanta the process
  \<open>n mod m\<close> of the order runs and the ready queue is rotated by \<open>n\<close>, so within \<open>m\<close> quanta every ready process has run.\<close>

theorem round_robin:
  assumes q: "queues k Q" and rq: "Q RunQ = Some (map TaskL is)"
  shows "\<exists>k'. expiries n k = Some k' \<and> queues k' (Q(RunQ \<mapsto> map TaskL (rotate n is))) \<and> cur k' = is ! (n mod length is)"
proof -
  obtain k' where k': "expiries n k = Some k'" "queues k' (Q(RunQ \<mapsto> map TaskL (rotate n is)))"
    using expiries_rotate [OF q rq, of n] by (auto simp: rotate_map)
  have ne: "is \<noteq> []" by (rule queues_run [OF q]) (use rq in auto)
  obtain rs where rs: "map TaskL (rotate n is) = TaskL (cur k') # rs" by (rule queues_run [OF k'(2)]) (use that in simp)
  have "cur k' = hd (rotate n is)" using rs by (cases "rotate n is") simp_all
  then show ?thesis using k' hd_rotate_conv_nth [OF ne] by auto
qed

theorem round_robin_witness:
  "\<exists>k'. expiries 3 k_fork = Some k' \<and> queues k' [RunQ \<mapsto> [TaskL 1, TaskL 0], KbdQ \<mapsto> []] \<and> cur k' = 1"
proof -
  have "[RunQ \<mapsto> [TaskL 0, TaskL 1], KbdQ \<mapsto> []] RunQ = Some (map TaskL [0, 1])" by simp
  moreover have "[RunQ \<mapsto> [TaskL 0, TaskL 1], KbdQ \<mapsto> []](RunQ \<mapsto> map TaskL (rotate 3 [0, 1])) = [RunQ \<mapsto> [TaskL 1, TaskL 0], KbdQ \<mapsto> []]"
    by (auto simp: numeral_eq_Suc)
  ultimately show ?thesis using round_robin [OF k_fork_queues, of "[0, 1]" 3] by (simp flip: numeral_2_eq_2)
qed

section \<open>Fork\<close>

text \<open>What the running process reads in its data pages.\<close>

lemma seen_mapped:
  assumes pf: "\<forall>p. 0 \<le> p \<and> p < 20 \<longrightarrow> pagusr_table (mm k) (264 + p) = user_pte (pf p) \<and> owned (mm k) (pf p)"
    and p: "0 \<le> p" "p < 20" "0 \<le> x" "x < 4096"
  shows "vread (mm k) (4096 * (264 + p) + x) = Some (ram (mm k) (4096 * pf p + x))"
proof -
  have "pagusr_table (mm k) (264 + p) = user_pte (pf p)" "256 \<le> pf p" "pf p < 1024" using pf p owned_bounds by auto
  then show ?thesis using translate_page [of "mm k" "264 + p" "pf p" x] p by (simp add: vread_def)
qed

text \<open>C6: a fork with a free process slot and memory creates a live process at the tail of the ready queue, with the next
  identifier, the same registers except that it receives 0, the same open files with their references counted, and a
  copy of every data page of the parent in frames of its own; the parent runs on with its memory unchanged and
  receives the identifier.\<close>

theorem sys_fork_copies:
  assumes k: "kinv k" and c: "srch_free_task k = c" "c \<noteq> -1" and en: "20 \<le> card (avail (mm k))" and np: "next_pid k < 2 ^ 31 - 1"
  shows "\<exists>k' Q rq. sys_fork k = Some (next_pid k, k') \<and> kinv k' \<and> \<not> live k c \<and> live k' c \<and> cur k' = cur k \<and>
    queues k' Q \<and> Q RunQ = Some (rq @ [TaskL c]) \<and> (\<forall>i. i \<noteq> c \<longrightarrow> task k' i = task k i) \<and>
    pid (task k' c) = next_pid k \<and> saved_eax (task k' c) = 0 \<and> (\<forall>i. i \<noteq> EAX_SLOT \<longrightarrow> stack (task k' c) i = stack (current k) i) \<and>
    file_descriptors (task k' c) = file_descriptors (current k) \<and>
    (\<forall>v. refs (fdt (fs k') v) = refs (fdt (fs k) v) + fd_count MAX_FDS (file_descriptors (current k)) v) \<and>
    (\<forall>p x. 0 \<le> p \<and> p < 20 \<and> 0 \<le> x \<and> x < 4096 \<longrightarrow>
       Some (ram (mm k') (4096 * ph_pages (task k' c) p + x)) = vread (mm k) (4096 * (264 + p) + x) \<and>
       vread (mm k') (4096 * (264 + p) + x) = vread (mm k) (4096 * (264 + p) + x))"
proof -
  obtain Q rq where q: "queues k Q" "Q RunQ = Some (TaskL (cur k) # rq)" "frames_ok k" using k by (rule kinvE)
  have iso: "iso_ok k" and pids: "pids_ok k" and fds: "fds_all k" using k by (simp_all add: kinv_def)
  obtain pf where pf: "\<forall>p. 0 \<le> p \<and> p < 20 \<longrightarrow> pagusr_table (mm k) (264 + p) = user_pte (pf p) \<and> owned (mm k) (pf p)"
    using iso_mapped [OF iso] by (rule mapped_okE)
  have fd: "fds_ok (fs k) (file_descriptors (current k))" using fds kinv_cur [OF k] by (simp add: fds_all_def)
  have np0: "0 \<le> next_pid k" using pids by (simp add: pids_ok_def)
  obtain frames m r h s where st: "sys_fork k = Some (next_pid k, k\<lparr>task := (task k)(c := child_of k frames), lists := h,
         next_pid := next_pid k + 1, fs := s, mm := m\<lparr>ram := r,
           pagusr_table := (\<lambda>p. if 284 \<le> p \<and> p < 304 then 0 else pagusr_table (mm k) p), cr3 := dir_pages_addr (lay k)\<rparr>\<rparr>)"
      "length frames = 20" "set frames \<subseteq> avail (mm k)"
      "\<forall>i x. 0 \<le> i \<and> i < 20 \<and> 0 \<le> x \<and> x < 4096 \<longrightarrow> r (4096 * frames ! nat i + x) = ram (mm k) (4096 * pf i + x)"
      "\<forall>pa. pa div 4096 \<notin> set frames \<longrightarrow> r pa = ram (mm k) pa" "rings h (Q(RunQ \<mapsto> (TaskL (cur k) # rq) @ [TaskL c]))"
      "\<forall>v. refs (fdt s v) = refs (fdt (fs k) v) + fd_count 10 (file_descriptors (current k)) v \<and> logic_dev (fdt s v) = logic_dev (fdt (fs k) v)"
    by (rule sys_fork_state [OF q(1,3) iso_mapped [OF iso] q(2) c en fd np0 np pf]) (rule that, assumption+)
  define k' where "k' = k\<lparr>task := (task k)(c := child_of k frames), lists := h, next_pid := next_pid k + 1, fs := s, mm := m\<lparr>ram := r,
           pagusr_table := (\<lambda>p. if 284 \<le> p \<and> p < 304 then 0 else pagusr_table (mm k) p), cr3 := dir_pages_addr (lay k)\<rparr>\<rparr>"
  have f: "sys_fork k = Some (next_pid k, k')" using st(1) by (simp add: k'_def)
  have c': "0 \<le> c" "c < 10" "\<not> live k c" using srch_free_task_cases [of k] c by (auto simp: live_def)
  have q': "queues k' (Q(RunQ \<mapsto> (TaskL (cur k) # rq) @ [TaskL c]))"
    by (rule fork_queues [OF q(1,2) c' _ st(6)]) (use pids in \<open>simp_all add: pids_ok_def k'_def child_of_def\<close>)
  have mem: "Some (ram (mm k') (4096 * ph_pages (task k' c) p + x)) = vread (mm k) (4096 * (264 + p) + x) \<and>
      vread (mm k') (4096 * (264 + p) + x) = vread (mm k) (4096 * (264 + p) + x)" if p: "0 \<le> p" "p < 20" "0 \<le> x" "x < 4096" for p x
  proof -
    have pt: "pagusr_table (mm k') (264 + p) = user_pte (pf p)" "256 \<le> pf p" "pf p < 1024" using pf p owned_bounds by (auto simp: k'_def)
    have nf: "pf p \<notin> set frames" using pf p st(3) by (auto simp: owned_def)
    have "vread (mm k') (4096 * (264 + p) + x) = Some (r (4096 * pf p + x))"
      using translate_page [of "mm k'" "264 + p" "pf p" x] pt p by (simp add: vread_def k'_def)
    moreover have "r (4096 * pf p + x) = ram (mm k) (4096 * pf p + x)" using st(5) nf p by simp
    ultimately show ?thesis using seen_mapped [OF pf p] st(4) p by (simp add: k'_def child_of_def)
  qed
  have "live k' c" using c' np0 by (simp add: live_def k'_def child_of_def)
  moreover have "saved_eax (task k' c) = 0" by (simp add: k'_def child_of_def saved_eax_def set_eax_def)
  ultimately show ?thesis
    using f sys_fork_inv [OF k np f] c'(3) q' mem st(7)
    by (intro exI [of _ k'] exI [of _ "Q(RunQ \<mapsto> (TaskL (cur k) # rq) @ [TaskL c])"] exI [of _ "TaskL (cur k) # rq"])
      (simp add: k'_def child_of_def set_eax_def)
qed

theorem sys_fork_copies_witness:
  "sys_fork k_boot = Some (1, k_fork) \<and> saved_eax (task k_fork 1) = 0 \<and>
    Some (ram (mm k_fork) (4096 * ph_pages (task k_fork 1) 0)) = vread (mm k_boot) (4096 * 264)"
proof -
  have np: "next_pid k_boot < 2 ^ 31 - 1" by (simp add: k_boot_pid)
  obtain k' where k': "sys_fork k_boot = Some (next_pid k_boot, k')" "saved_eax (task k' 1) = 0"
    "\<forall>p x. 0 \<le> p \<and> p < 20 \<and> 0 \<le> x \<and> x < 4096 \<longrightarrow>
       Some (ram (mm k') (4096 * ph_pages (task k' 1) p + x)) = vread (mm k_boot) (4096 * (264 + p) + x) \<and>
       vread (mm k') (4096 * (264 + p) + x) = vread (mm k_boot) (4096 * (264 + p) + x)"
    using sys_fork_copies [OF k_boot_inv k_boot_slot _ k_boot_avail np] by auto
  have "k' = k_fork" using k'(1) k_fork_eq by simp
  then show ?thesis using k'(2) k'(3) [rule_format, of 0 0] k_fork_eq by simp
qed

text \<open>C7: a fork that finds no free process slot, or too few free frames, returns -EAGAIN and takes nothing: every frame
  it had allocated is free again, no process, queue, file or counter has changed but for the unused slot.\<close>

theorem sys_fork_rolls_back:
  assumes k: "kinv k" and few: "srch_free_task k = -1 \<or> card (avail (mm k)) < 20"
  shows "\<exists>k'. sys_fork k = Some (- EAGAIN, k') \<and> kinv k' \<and> mm k' = mm k \<and> fs k' = fs k \<and> next_pid k' = next_pid k \<and>
    cur k' = cur k \<and> sem k' = sem k \<and> live k' = live k \<and> (\<forall>i. live k i \<longrightarrow> task k' i = task k i) \<and> (\<forall>Q. queues k Q \<longrightarrow> queues k' Q)"
proof (cases "srch_free_task k = -1")
  case True
  then have "sys_fork k = Some (- EAGAIN, k)" by (simp add: sys_fork_def)
  then show ?thesis using k by simp
next
  case False
  obtain Q rq where q: "queues k Q" "Q RunQ = Some (TaskL (cur k) # rq)" "frames_ok k" using k by (rule kinvE)
  have few': "card (avail (mm k)) < 20" using few False by simp
  obtain k1 where k1: "sys_fork k = Some (- EAGAIN, k1)" "mm k1 = mm k" "fs k1 = fs k" "next_pid k1 = next_pid k"
    "cur k1 = cur k" "sem k1 = sem k" "\<not> live k (srch_free_task k)" "\<forall>i. pid (task k1 i) = pid (task k i)"
    "\<forall>i. i \<noteq> srch_free_task k \<longrightarrow> task k1 i = task k i" "queues k1 Q" "frames_ok k1" "lay k1 = lay k"
    by (rule sys_fork_no_memory [OF q(1,3) refl False few']) (rule that, assumption+)
  have "queues k1 Q2" if q2: "queues k Q2" for Q2
  proof -
    obtain k2 where "sys_fork k = Some (- EAGAIN, k2)" "queues k2 Q2"
      by (rule sys_fork_no_memory [OF q2 q(3) refl False few']) (rule that, assumption+)
    then show ?thesis using k1(1) by simp
  qed
  moreover have "live k1 = live k" using k1(8) by (simp add: live_def fun_eq_iff)
  moreover have "kinv k1" by (rule fork_none_inv [OF k k1(2-)])
  moreover have "\<forall>i. live k i \<longrightarrow> task k1 i = task k i" using k1(7,9) by metis
  ultimately show ?thesis using k1 by auto
qed

text \<open>The state of the boot with all frames taken.\<close>

theorem sys_fork_rolls_back_witness:
  "\<exists>k'. sys_fork (k_boot\<lparr>mm := (mm k_boot)\<lparr>phys_mem := (\<lambda>_. USED_FRAME)\<rparr>\<rparr>) = Some (- EAGAIN, k') \<and> next_pid k' = 1"
proof -
  let ?k = "k_boot\<lparr>mm := (mm k_boot)\<lparr>phys_mem := (\<lambda>_. USED_FRAME)\<rparr>\<rparr>"
  have av: "avail (mm ?k) = {}" by (simp add: avail_def)
  have ow: "owned (mm k_boot) f \<Longrightarrow> owned (mm ?k) f" for f using av by (simp add: owned_def)
  have lv: "live ?k = live k_boot" by (simp add: live_def fun_eq_iff)
  have "frames_ok ?k"
    by (rule frames_ok_mono [of k_boot]) (use k_boot_inv ow in \<open>auto simp: lv kinv_def\<close>)
  moreover have "iso_ok ?k"
    using k_boot_inv ow unfolding kinv_def iso_ok_def lv by simp metis
  moreover have "queues ?k [RunQ \<mapsto> [TaskL 0], KbdQ \<mapsto> []]"
    using k_boot_queues by (subst queues_cong [of ?k k_boot]) auto
  moreover have "pids_ok ?k" "fds_all ?k" "sems_ok ?k" "esp_ok ?k"
    using k_boot_inv by (simp_all add: kinv_def pids_ok_def fds_all_def sems_ok_def esp_ok_def lv)
  ultimately have "kinv ?k" unfolding kinv_def by blast
  then show ?thesis using sys_fork_rolls_back [of ?k] av by (auto simp: k_boot_pid)
qed

section \<open>Exit\<close>

lemma sys_exit_next:
  assumes k: "kinv k" and p: "pid (current k) \<noteq> 0" and q: "queues k Q" and rq: "Q RunQ = Some (TaskL (cur k) # TaskL t # TaskL u # rq)"
  shows "\<exists>k'. sys_exit k = Some (Switched, k') \<and> kinv k' \<and> cur k' = t \<and> (\<forall>i. live k' i \<longleftrightarrow> live k i \<and> i \<noteq> cur k) \<and>
    avail (mm k') = avail (mm k) \<union> ph_pages (current k) ` {0..<20} \<and>
    (\<forall>i. i \<noteq> cur k \<longrightarrow> pid (task k' i) = pid (task k i) \<and> ph_pages (task k' i) = ph_pages (task k i))"
proof -
  have fo: "frames_ok k" using k by (simp add: kinv_def)
  obtain k1 where k1: "sys_exit k = Some (Switched, switched t k1)" "\<forall>i. live k1 i \<longleftrightarrow> live k i \<and> i \<noteq> cur k" "live k1 t"
    "avail (mm k1) = avail (mm k) \<union> ph_pages (current k) ` {0..<20}" "\<forall>i. ph_pages (task k1 i) = ph_pages (task k i)"
    "\<forall>i. i \<noteq> cur k \<longrightarrow> pid (task k1 i) = pid (task k i)"
    by (rule sys_exit_cases [OF q fo p rq]) (rule that, assumption+, simp)
  have lv: "live (switched t k1) i = live k1 i" for i by (simp add: live_def)
  have "kinv (switched t k1)" using sys_exit_inv [OF k k1(1)] k1(3) lv by simp
  moreover have "avail (mm (switched t k1)) = avail (mm k1)" by (simp add: avail_def)
  ultimately show ?thesis using k1 lv by simp
qed



text \<open>C40: when the last process besides process 0 exits without waking another one, the scheduler takes the single entry of
  the ready queue for the running process and returns: the dead process keeps the processor, with a new quantum, while
  its frames are already free.\<close>

theorem last_exit_returns:
  assumes k: "kinv k" and p: "pid (current k) \<noteq> 0" and q: "queues k Q" and rq: "Q RunQ = Some [TaskL (cur k), TaskL 0]"
    and own: "\<forall>n. 0 \<le> n \<and> n < SEM_MAX_VALUE \<longrightarrow> owned_sems (current k) n \<noteq> 1"
  shows "\<exists>k'. sys_exit k = Some (Return (), k') \<and> cur k' = cur k \<and> \<not> live k' (cur k') \<and>
    ph_pages (current k') ` {0..<20} \<subseteq> avail (mm k') \<and> left4current k' = quantum (current k')"
  using sys_exit_stuck [OF q _ p rq own] k unfolding kinv_def by metis

theorem last_exit_returns_witness:
  "\<exists>k'. sys_exit k_child = Some (Return (), k') \<and> cur k' = 1 \<and> \<not> live k' 1"
proof -
  have "pid (current k_child) \<noteq> 0" by (simp add: k_child_facts)
  moreover have "[RunQ \<mapsto> [TaskL 1, TaskL 0], KbdQ \<mapsto> []] RunQ = Some [TaskL (cur k_child), TaskL 0]" by (simp add: k_child_cur)
  moreover have "\<forall>n. 0 \<le> n \<and> n < 26 \<longrightarrow> owned_sems (current k_child) n \<noteq> 1" by (simp add: k_child_cur k_child_sems)
  ultimately show ?thesis using last_exit_returns [OF k_child_inv _ k_child_queues] by (metis k_child_cur)
qed

section \<open>Semaphores\<close>

text \<open>A semaphore for its users: a counter and the processes that wait, in order.\<close>

definition sem_view :: "kernel \<Rightarrow> (list_node \<rightharpoonup> list_node list) \<Rightarrow> int \<Rightarrow> int \<times> int list \<Rightarrow> bool" where
  "sem_view k Q n v \<longleftrightarrow> queues k Q \<and> 0 \<le> n \<and> n < SEM_MAX_VALUE \<and> init (sem k n) = 1 \<and> count (sem k n) = fst v \<and>
     Q (SemQ n) = Some (map TaskL (snd v))"

definition sem_P :: "int \<Rightarrow> int \<times> int list \<Rightarrow> int \<times> int list" where
  "sem_P t v = (case v of (c, ws) \<Rightarrow> if c = 0 then (0, ws @ [t]) else (c - 1, ws))"

definition sem_V :: "int \<times> int list \<Rightarrow> int \<times> int list" where
  "sem_V v = (case v of (c, []) \<Rightarrow> (c + 1, []) | (c, w # ws) \<Rightarrow> (c, ws))"

lemma sem_viewD:
  assumes "sem_view k Q n (c, ws)"
  shows "queues k Q" "0 \<le> n" "n < 26" "init (sem k n) = 1" "count (sem k n) = c" "Q (SemQ n) = Some (map TaskL ws)"
  using assms by (auto simp: sem_view_def)

lemma sem_wait_P:
  assumes k: "kinv k" and v: "sem_view k Q n (c, ws)" and p: "pid (current k) \<noteq> 0" and c: "c < 2 ^ 32 - 1"
  shows "\<exists>k1 Q1. sys_sem_wait n k = Some (if c = 0 then Switched else Return 0, k1) \<and> kinv k1 \<and>
      sem_view k1 Q1 n (sem_P (cur k) (c, ws)) \<and> (cur k1 \<noteq> cur k \<longleftrightarrow> c = 0)"
proof (cases "c = 0")
  case True
  note n = sem_viewD [OF v]
  obtain h t rs where b: "Q RunQ = Some (TaskL (cur k) # TaskL t # rs)"
    "sys_sem_wait n k = Some (Switched, switched t (k\<lparr>lists := h, it_is_int := 0\<rparr>))"
    "queues (switched t (k\<lparr>lists := h, it_is_int := 0\<rparr>)) (Q(RunQ \<mapsto> TaskL t # rs, SemQ n \<mapsto> map TaskL ws @ [TaskL (cur k)]))"
    by (rule sys_sem_wait_block [OF n(1) p n(2-4) _ n(6)]) (use n(5) True in simp, rule that)
  have "t \<noteq> cur k" using lh.rep_distinct [OF queues_rings [OF n(1)] b(1)] by auto
  moreover have "sem_view (switched t (k\<lparr>lists := h, it_is_int := 0\<rparr>)) (Q(RunQ \<mapsto> TaskL t # rs, SemQ n \<mapsto> map TaskL ws @ [TaskL (cur k)]))
      n (sem_P (cur k) (c, ws))"
    unfolding sem_view_def using b(3) n True by (intro conjI) (simp_all add: sem_P_def)
  ultimately show ?thesis using b(2) sys_sem_wait_inv [OF k b(2)] True by auto
next
  case False
  note n = sem_viewD [OF v]
  have c0: "0 \<le> c" using k n(5) by (auto simp: kinv_def sems_ok_def)
  then have c1: "0 < count (sem k n)" using False n(5) by simp
  let ?k = "upd_sem n (\<lambda>s. s\<lparr>count := u32 (count s - 1)\<rparr>) k"
  have s: "sys_sem_wait n k = Some (Return 0, ?k)" "queues ?k Q" using sys_sem_wait_pass [OF n(1) p n(2-4) c1] by auto
  moreover have "u32 (c - 1) = c - 1" by (rule u32_id) (use c0 False c in auto)
  ultimately show ?thesis
    using sys_sem_wait_inv [OF k s(1)] False n by (intro exI [of _ ?k] exI [of _ Q]) (simp add: sem_view_def sem_P_def)
qed

lemma sem_signal_V:
  assumes k: "kinv k" and v: "sem_view k Q n (c, ws)" and c: "c < 2 ^ 32 - 1"
  shows "\<exists>k2 Q2. sys_sem_signal n k = Some (0, k2) \<and> kinv k2 \<and> sem_view k2 Q2 n (sem_V (c, ws)) \<and> cur k2 = cur k \<and>
      (\<forall>w ws'. ws = w # ws' \<longrightarrow> saved_eax (task k2 w) = 0 \<and> Q2 RunQ = map_option (\<lambda>rq. rq @ [TaskL w]) (Q RunQ))"
proof (cases ws)
  case Nil
  note n = sem_viewD [OF v]
  have c0: "0 \<le> c" using k n(5) by (auto simp: kinv_def sems_ok_def)
  let ?k = "upd_sem n (\<lambda>s. s\<lparr>count := u32 (count s + 1)\<rparr>) k"
  have s: "sys_sem_signal n k = Some (0, ?k)" "queues ?k Q" using sys_sem_signal_empty [OF n(1-4)] n(6) Nil by auto
  moreover have "u32 (c + 1) = c + 1" by (rule u32_id) (use c0 c in auto)
  ultimately show ?thesis
    using sys_sem_signal_inv [OF k s(1)] n Nil by (intro exI [of _ ?k] exI [of _ Q]) (simp add: sem_view_def sem_V_def)
next
  case (Cons i ws1)
  note n = sem_viewD [OF v]
  obtain rq where rq: "Q RunQ = Some (TaskL (cur k) # rq)" using n(1) by (rule queues_run)
  let ?Q = "Q(SemQ n \<mapsto> map TaskL ws1, RunQ \<mapsto> (TaskL (cur k) # rq) @ [TaskL i])"
  obtain h where h: "sys_sem_signal n k = Some (0, (upd_task i (set_eax 0) k)\<lparr>lists := h\<rparr>)"
    "queues ((upd_task i (set_eax 0) k)\<lparr>lists := h\<rparr>) ?Q"
    by (rule sys_sem_signal_wake [OF n(1-4) _ rq]) (use n(6) Cons in simp, rule that)
  have "sem_view ((upd_task i (set_eax 0) k)\<lparr>lists := h\<rparr>) ?Q n (sem_V (c, ws))"
    unfolding sem_view_def using h(2) n Cons by (intro conjI) (simp_all add: sem_V_def)
  moreover have "?Q RunQ = map_option (\<lambda>rq. rq @ [TaskL i]) (Q RunQ)" using rq by simp
  ultimately show ?thesis
    using h(1) sys_sem_signal_inv [OF k h(1)] Cons
    by (intro exI [of _ "(upd_task i (set_eax 0) k)\<lparr>lists := h\<rparr>"] exI [of _ ?Q] conjI allI impI) (simp_all add: in_int_def)
qed

text \<open>C9: \<open>sys_sem_wait\<close> and \<open>sys_sem_signal\<close> implement P and V on a counter with a first-come-first-served queue. A wait
  on zero blocks the caller and runs the next ready process, any other returns 0 to the caller; a signal puts the first
  waiting process at the end of the ready queue with the result 0 of its wait, and the caller runs on.\<close>

theorem semaphores_refine:
  assumes k: "kinv k" and v: "sem_view k Q n (c, ws)" and p: "pid (current k) \<noteq> 0" and c: "c < 2 ^ 32 - 1"
  shows "(\<exists>k1 Q1. sys_sem_wait n k = Some (if c = 0 then Switched else Return 0, k1) \<and> kinv k1 \<and>
      sem_view k1 Q1 n (sem_P (cur k) (c, ws)) \<and> (cur k1 \<noteq> cur k \<longleftrightarrow> c = 0)) \<and>
    (\<exists>k2 Q2. sys_sem_signal n k = Some (0, k2) \<and> kinv k2 \<and> sem_view k2 Q2 n (sem_V (c, ws)) \<and> cur k2 = cur k \<and>
      (\<forall>w ws'. ws = w # ws' \<longrightarrow> saved_eax (task k2 w) = 0 \<and> Q2 RunQ = map_option (\<lambda>rq. rq @ [TaskL w]) (Q RunQ)))"
  using sem_wait_P [OF assms] sem_signal_V [OF k v c] by (rule conjI)

text \<open>The child creates semaphore 3 with the value 0 and waits.\<close>

definition k_sem :: kernel where
  "k_sem = snd (sys_sem_init 3 0 k_child)"

lemma k_sem_facts:
  shows k_sem_inv: "kinv k_sem" and k_sem_view: "sem_view k_sem ([RunQ \<mapsto> [TaskL 1, TaskL 0], KbdQ \<mapsto> []](SemQ 3 \<mapsto> [])) 3 (0, [])"
    and k_sem_cur: "cur k_sem = 1" and k_sem_pid: "pid (task k_sem 1) = 1" and k_sem_own: "owned_sems (task k_sem 1) 3 = 1"
proof -
  have n: "0 \<le> (3 :: int)" "(3 :: int) < 26" "init (sem k_child 3) \<noteq> 1" by (simp_all add: k_child_kbd)
  obtain k' where k': "sys_sem_init 3 0 k_child = (0, k')" "queues k' ([RunQ \<mapsto> [TaskL 1, TaskL 0], KbdQ \<mapsto> []](SemQ 3 \<mapsto> []))"
    "sem k' = (sem k_child)(3 := \<lparr>count = u32 0, init = 1\<rparr>)" "owned_sems (current k') 3 = 1" "cur k' = cur k_child"
    by (rule sys_sem_init_ok [OF k_child_queues n]) (rule that, assumption+)
  have e: "k_sem = k'" using k'(1) by (simp add: k_sem_def)
  show "kinv k_sem" using sys_sem_init_inv [OF k_child_inv k'(1)] e by simp
  show "sem_view k_sem ([RunQ \<mapsto> [TaskL 1, TaskL 0], KbdQ \<mapsto> []](SemQ 3 \<mapsto> [])) 3 (0, [])"
    unfolding sem_view_def e using k'(2) by (intro conjI) (simp_all add: k'(3))
  show "cur k_sem = 1" "owned_sems (task k_sem 1) 3 = 1" using k'(4,5) by (simp_all add: e k_child_cur)
  have "pid (task (snd (sys_sem_init 3 0 k_child)) 1) = pid (task k_child 1)" by (simp add: sys_sem_init_def Let_def)
  then show "pid (task k_sem 1) = 1" by (simp add: k_sem_def k_child_pid)
qed

theorem semaphores_refine_witness:
  "\<exists>k1 Q1. sys_sem_wait 3 k_sem = Some (Switched, k1) \<and> kinv k1 \<and> sem_view k1 Q1 3 (0, [1]) \<and> cur k1 \<noteq> 1"
proof -
  have "pid (current k_sem) \<noteq> 0" by (simp add: k_sem_facts)
  then show ?thesis
    using semaphores_refine [OF k_sem_inv k_sem_view] by (auto simp: sem_P_def k_sem_cur)
qed

text \<open>C10: \<open>sys_sem_destroy\<close> by the creator wakes every waiting process, in order, with the result -1, and ends the
  semaphore, so that later waits and signals fail with -EINVAL; by another process it fails with -EPERM, and on a
  semaphore that is not in use with -EINVAL, changing nothing.\<close>

theorem sys_sem_destroy_wakes:
  assumes k: "kinv k" and v: "sem_view k Q n (c, ws)" and rq: "Q RunQ = Some rq"
  shows "if owned_sems (current k) n = 1
    then \<exists>k'. sys_sem_destroy n k = Some (0, k') \<and> kinv k' \<and> queues k' (Q(SemQ n := None, RunQ \<mapsto> rq @ map TaskL ws)) \<and>
      list_all (\<lambda>i. saved_eax (task k' i) = -1) ws \<and> owned_sems (current k') n = -1 \<and>
      sys_sem_signal n k' = Some (- EINVAL, k') \<and> sys_sem_destroy n k' = Some (- EINVAL, k')
    else sys_sem_destroy n k = Some (- EPERM, k)"
proof (cases "owned_sems (current k) n = 1")
  case True
  note n = sem_viewD [OF v]
  obtain k' where k': "sys_sem_destroy n k = Some (0, k')" "queues k' (Q(SemQ n := None, RunQ \<mapsto> rq @ map TaskL ws))"
    "\<forall>i. TaskL i \<in> set (map TaskL ws) \<longrightarrow> saved_eax (task k' i) = -1" "sem k' = (sem k)(n := (sem k n)\<lparr>init := 0\<rparr>)"
    "owned_sems (current k') = (owned_sems (current k))(n := -1)"
    by (rule sys_sem_destroy_ok [OF n(1-4) True n(6) rq]) (rule that, assumption+)
  have "sys_sem_signal n k' = Some (- EINVAL, k')" "sys_sem_destroy n k' = Some (- EINVAL, k')"
    by (simp_all add: sys_sem_signal_def sys_sem_destroy_def k'(4))
  moreover have "list_all (\<lambda>i. saved_eax (task k' i) = -1) ws" using k'(3) by (auto simp: list_all_iff)
  ultimately show ?thesis using True k'(1,2,5) sys_sem_destroy_inv [OF k k'(1)] unfolding if_P [OF True] by (intro exI [of _ k']) simp
next
  case False
  then show ?thesis using sem_viewD [OF v] by (simp add: sys_sem_destroy_def)
qed

theorem sys_sem_destroy_wakes_witness:
  "\<exists>k'. sys_sem_destroy 3 k_sem = Some (0, k') \<and> kinv k' \<and> sys_sem_signal 3 k' = Some (- EINVAL, k')"
proof -
  have "([RunQ \<mapsto> [TaskL 1, TaskL 0], KbdQ \<mapsto> []](SemQ 3 \<mapsto> [])) RunQ = Some [TaskL 1, TaskL 0]" by simp
  from sys_sem_destroy_wakes [OF k_sem_inv k_sem_view this] show ?thesis by (auto simp: k_sem_facts)
qed

end
