(* ===== verification/HandlerProps.thy ===== *)
theory HandlerProps
  imports KernelProps
begin

text \<open>
  What the entries into the kernel promise: every step of the system keeps the invariant, processes
  are protected from each other, interrupts are acknowledged once and registers come back.
\<close>

section \<open>Protection\<close>

text \<open>A store in the data pages goes to a frame no other process has.\<close>

lemma user_store_eq:
  assumes k: "kinv k" and va: "1081344 \<le> va" "va < 1163264"
  obtains f where "\<forall>b. user_store va b k = Some (k\<lparr>mm := (mm k)\<lparr>ram := (ram (mm k))(4096 * f + va mod 4096 := b)\<rparr>\<rparr>)"
    and "translate (mm k) va = Some (4096 * f + va mod 4096)" and "owned (mm k) f"
    and "\<forall>i q. live k i \<and> i \<noteq> cur k \<and> 0 \<le> q \<and> q < 20 \<longrightarrow> ph_pages (task k i) q \<noteq> f"
proof -
  define p where "p = va div 4096 - 264"
  have p: "0 \<le> p" "p < 20" "va = 4096 * (264 + p) + va mod 4096" "va div 4096 = 264 + p" using va by (auto simp: p_def)
  obtain f where f: "pagusr_table (mm k) (264 + p) = user_pte f" "owned (mm k) f"
    "\<forall>i q. live k i \<and> i \<noteq> cur k \<and> 0 \<le> q \<and> q < 20 \<longrightarrow> ph_pages (task k i) q \<noteq> f"
    using k p unfolding kinv_def iso_ok_def by blast
  have "translate (mm k) (4096 * (264 + p) + va mod 4096) = Some (4096 * f + va mod 4096)"
    by (rule translate_page [OF f(1)]) (use p owned_bounds [OF f(2)] in auto)
  then have t: "translate (mm k) va = Some (4096 * f + va mod 4096)" using p(3) by simp
  have "\<forall>b. user_store va b k = Some (k\<lparr>mm := (mm k)\<lparr>ram := (ram (mm k))(4096 * f + va mod 4096 := b)\<rparr>\<rparr>)"
    using va f(1) p(4) t by (simp add: user_store_def Let_def lift_mm_def vwrite_def)
  then show ?thesis using that t f(2,3) by blast
qed



text \<open>C17: a context switch gives the new process its own memory: whatever ran before, each byte of its data pages reads
  as the byte of its own frame, its kernel stack is the one of its task structure, and its quantum is full.\<close>

theorem task_switch_own_memory:
  assumes k: "kinv k" and t: "live k t" and p: "0 \<le> p" "p < 20" "0 \<le> x" "x < 4096"
  shows "\<exists>k'. task_switch t k = Some k' \<and> cur k' = t \<and> left4current k' = quantum (task k t) \<and>
    esp0 (tss (mm k')) = word_of_int (stack_addr (lay k) t KERNEL_STACK_SIZE) \<and> cr3 (mm k') = dir_pages_addr (lay k) \<and>
    vread (mm k') (PAGE_SIZE * (PAG_LOG_INIT_DATA_P0 + p) + x) = Some (ram (mm k) (PAGE_SIZE * ph_pages (task k t) p + x))"
proof -
  have "frames_ok k" using k by (simp add: kinv_def)
  from switched_memory [OF this t p] show ?thesis
    by (intro exI [of _ "switched t k"]) (simp add: task_switch_eq, simp add: switched_def)
qed

theorem task_switch_own_memory_witness:
  "\<exists>k'. task_switch 1 k_fork = Some k' \<and> cur k' = 1 \<and> vread (mm k') 1081344 = Some (ram (mm k_fork) (4096 * ph_pages (task k_fork 1) 0))"
proof -
  have "live k_fork 1" by (simp add: live_def k_fork_pid)
  from task_switch_own_memory [OF k_fork_inv this, of 0 0] show ?thesis by auto
qed

text \<open>C1: from a state of the invariant, any sequence of system calls, clock and keyboard interrupts, page faults and stores
  of user code keeps the invariant, unless it ends in an exit that leaves the dead process running.\<close>

theorem kernel_invariant_kept:
  assumes "kinv k" and "kstep\<^sup>*\<^sup>* k k'"
  shows "kinv k' \<or> \<not> live k' (cur k')"
  using ksteps_inv [OF assms(2,1)] .

theorem kernel_invariant_kept_witness:
  "\<exists>k'. kstep\<^sup>*\<^sup>* k_child k' \<and> ram (mm k') \<noteq> ram (mm k_child) \<and> (kinv k' \<or> \<not> live k' (cur k'))"
proof -
  obtain f where "\<forall>b. user_store 1081344 b k_child = Some (k_child\<lparr>mm := (mm k_child)\<lparr>ram := (ram (mm k_child))(4096 * f + 1081344 mod 4096 := b)\<rparr>\<rparr>)"
    by (rule user_store_eq [OF k_child_inv, of 1081344]) (simp, simp, rule that)
  then have f: "\<forall>b. user_store 1081344 b k_child = Some (k_child\<lparr>mm := (mm k_child)\<lparr>ram := (ram (mm k_child))(4096 * f := b)\<rparr>\<rparr>)" by simp
  let ?b = "ram (mm k_child) (4096 * f) + 1"
  let ?k = "k_child\<lparr>mm := (mm k_child)\<lparr>ram := (ram (mm k_child))(4096 * f := ?b)\<rparr>\<rparr>"
  have "kstep k_child ?k" using kstep.store [OF kinv_cur [OF k_child_inv] f [rule_format]] .
  moreover have "ram (mm ?k) \<noteq> ram (mm k_child)" by (simp add: fun_upd_idem_iff)
  ultimately show ?thesis using kernel_invariant_kept [OF k_child_inv] by blast
qed

section \<open>Interrupts\<close>

text \<open>The registers saved for a process that is not running.\<close>

definition context_of :: "kernel \<Rightarrow> int \<Rightarrow> regs" where
  "context_of k t = RESTORE_ALL 0 (k\<lparr>cur := t\<rparr>)"

lemma context_of_cur: "context_of k (cur k) = RESTORE_ALL 0 k"
  by (simp add: context_of_def RESTORE_ALL_def Let_def)

lemma context_saved: "stack (task k' (cur k)) = stack (task (SAVE_ALL 0 r k) (cur k)) \<Longrightarrow> context_of k' (cur k) = r"
  by (simp add: context_of_def RESTORE_ALL_def SAVE_ALL_def Let_def)

lemma context_cong: "stack (task k' t) = stack (task k t) \<Longrightarrow> context_of k' t = context_of k t"
  by (simp add: context_of_def RESTORE_ALL_def Let_def)

lemma schedule_returns:
  assumes k: "kinv k"
  obtains (Return) k' where "schedule 1 k = Some (Return (), k')" and "cur k' = cur k" and "eois k' = eois k" and "it_is_int k' = it_is_int k"
      and "\<forall>i. stack (task k' i) = stack (task k i)"
    | (Switched) k' where "schedule 1 k = Some (Switched, k')" and "eois k' = eois k + 1" and "it_is_int k' = 0"
      and "\<forall>i. stack (task k' i) = stack (task k i)"
proof (cases "left4current k \<le> 0")
  case True
  obtain Q rq where q: "queues k Q" "Q RunQ = Some (TaskL (cur k) # rq)" using k by (rule kinvE)
  show ?thesis
  proof (cases rq)
    case Nil
    then show ?thesis using Return [OF schedule_lone [OF q(1) True]] q(2) by simp
  next
    case (Cons a as)
    then obtain t where a: "a = TaskL t" using queues_entry [OF q, of a] by auto
    have rq: "Q RunQ = Some (TaskL (cur k) # TaskL t # as)" using q(2) Cons a by simp
    obtain h where "schedule 1 k = Some (Switched, switched t (k\<lparr>lists := h, it_is_int := 1\<rparr>))"
      by (rule schedule_rotate [OF q(1) True rq]) (rule that)
    then show ?thesis using Switched by simp
  qed
next
  case False
  then have "schedule 1 k = Some (Return (), k)" by (simp add: schedule_def)
  then show ?thesis using Return by simp
qed

lemma show_time_keeps: "cur (show_time k) = cur k" "eois (show_time k) = eois k" "it_is_int (show_time k) = it_is_int k" "task (show_time k) = task k"
  by (simp_all add: show_time_def Let_def)

text \<open>C28: a clock interrupt always returns to some process: the interrupt controller is acknowledged exactly once, whether or
  not the process is switched; the registers of the interrupted process are the saved ones, and the process that runs
  continues with the registers saved for it.\<close>

theorem clock_acknowledged:
  assumes k: "kinv k" and i: "it_is_int k = 0"
  shows "\<exists>r' k'. clock_handler r k = Some (Return r', k') \<and> kinv k' \<and> eois k' = eois k + 1 \<and> it_is_int k' = 0 \<and>
    context_of k' (cur k) = r \<and> (if cur k' = cur k then r' = r else r' = context_of k (cur k'))"
proof -
  define k0 where "k0 = SAVE_ALL 0 r k"
  let ?k = "upd_task (cur k0) (\<lambda>t. t\<lparr>cpu_tics := s32 (cpu_tics t + 1), remaining := s32 (remaining t - 1)\<rparr>)
    (k0\<lparr>tics := s32 (tics k0 + 1), left4current := s32 (left4current k0 - 1)\<rparr>)"
  have k1: "kinv k0" unfolding k0_def by (rule kinv_kstable [OF k kstable_SAVE_ALL])
  have st: "kstable k0 ?k" by (simp add: kstable_def kframe_def)
  have k2: "kinv ?k" by (rule kinv_kstable [OF k1 st])
  have f: "eois ?k = eois k" "it_is_int ?k = 0" "cur ?k = cur k" "stack (task ?k i) = stack (task k0 i)" for i
    using \<open>it_is_int k = 0\<close> by (simp_all add: k0_def SAVE_ALL_def)
  have other: "stack (task k0 t) = stack (task k t)" if "t \<noteq> cur k" for t using that by (simp add: k0_def SAVE_ALL_def)
  show ?thesis
  proof (rule schedule_returns [OF k2])
    fix k'
    assume s: "schedule 1 ?k = Some (Return (), k')" "cur k' = cur ?k" "eois k' = eois ?k" "it_is_int k' = it_is_int ?k"
      "\<forall>i. stack (task k' i) = stack (task ?k i)"
    let ?k' = "EOI (show_time k')"
    have c: "clock_handler r k = Some (Return (RESTORE_ALL 0 ?k'), ?k')"
      using s(1) by (simp add: clock_handler_def leave_def clock_routine_def Let_def flip: k0_def)
    have "kinv ?k'" using schedule_inv [OF k2 s(1)] kinv_kstable [OF _ show_time_stable] kinv_kstable [OF _ kstable_EOI] by blast
    moreover have "context_of ?k' (cur k) = r"
      by (rule context_saved) (use s(5) f(4) in \<open>simp add: EOI_def show_time_keeps flip: k0_def\<close>)
    moreover have "cur ?k' = cur k" "eois ?k' = eois k + 1" "it_is_int ?k' = 0" using s f by (simp_all add: EOI_def show_time_keeps)
    ultimately show ?thesis using c context_of_cur [of ?k'] by simp
  next
    fix k'
    assume s: "schedule 1 ?k = Some (Switched, k')" "eois k' = eois ?k + 1" "it_is_int k' = 0" "\<forall>i. stack (task k' i) = stack (task ?k i)"
    have c: "clock_handler r k = Some (Return (RESTORE_ALL 0 k'), k')"
      using s(1) by (simp add: clock_handler_def leave_def clock_routine_def Let_def flip: k0_def)
    have ctx: "context_of k' (cur k) = r"
      by (rule context_saved) (use s(4) f(4) in \<open>simp flip: k0_def\<close>)
    have "RESTORE_ALL 0 k' = context_of k (cur k')" if "cur k' \<noteq> cur k"
      using context_cong [of k' "cur k'" k] context_of_cur [of k'] s(4) f(4) other [OF that] by simp
    then show ?thesis using c ctx schedule_inv [OF k2 s(1)] s(2,3) f(1) context_of_cur [of k'] by auto
  qed
qed

theorem clock_acknowledged_witness:
  "\<exists>r' k'. clock_handler (cpu blank_machine) k_boot = Some (Return r', k') \<and> eois k' = eois k_boot + 1 \<and> it_is_int k' = 0"
  using clock_acknowledged [OF k_boot_inv, of "cpu blank_machine"] k_boot_kbd by auto

section \<open>System calls\<close>

definition implemented :: "int \<Rightarrow> bool" where
  "implemented n \<longleftrightarrow> n \<in> {1, 2, 3, 4, 5, 6, 10, 20, 21, 22, 23, 24, 34, 35, 41}"

text \<open>C29: a system call number outside the table, or one that is not implemented, gives -ENOSYS in \<open>%eax\<close>; every other
  register comes back as it was and nothing of the system changes but the saved context of the caller.\<close>

theorem unknown_system_call:
  assumes n: "\<not> implemented (sint (r_eax r))"
  shows "\<exists>k'. system_call_handler junk r k = Some (Return (r\<lparr>r_eax := word_of_int (- ENOSYS)\<rparr>), k') \<and>
    k' = k\<lparr>task := (task k)(cur k := (current k)\<lparr>stack := stack (current k')\<rparr>)\<rparr>"
proof -
  let ?k = "upd_task (cur k) (set_eax (- ENOSYS)) (SAVE_ALL 0 r k)"
  have h: "system_call_handler junk r k = Some (Return (RESTORE_ALL 0 ?k), ?k)"
    using n by (auto simp: system_call_handler_def sys_call_table_def sys_ni_syscall_def leave_def implemented_def Let_def SAVE_ALL_def)
  have e: "RESTORE_ALL 0 ?k = r\<lparr>r_eax := word_of_int (- ENOSYS)\<rparr>"
    by (simp add: RESTORE_ALL_def SAVE_ALL_def set_eax_def Let_def)
  have "?k = k\<lparr>task := (task k)(cur k := (current k)\<lparr>stack := stack (current ?k)\<rparr>)\<rparr>"
    by (simp add: SAVE_ALL_def set_eax_def upd_task_def)
  with h [unfolded e] show ?thesis by (intro exI conjI)
qed

theorem unknown_system_call_witness:
  "\<exists>k'. system_call_handler 0 ((cpu blank_machine)\<lparr>r_eax := 42, r_ebx := 5\<rparr>) k_boot =
     Some (Return ((cpu blank_machine)\<lparr>r_eax := word_of_int (- ENOSYS), r_ebx := 5\<rparr>), k')"
proof -
  have "\<not> implemented (sint (r_eax ((cpu blank_machine)\<lparr>r_eax := 42, r_ebx := 5\<rparr>)))" by (simp add: implemented_def)
  from unknown_system_call [OF this, of 0 k_boot] show ?thesis by (auto simp: blank_machine_def)
qed

section \<open>Exceptions\<close>

text \<open>C30: a page fault of a process other than process 0, while two others are ready, ends the process: the next ready
  process continues with its own saved registers, the invariant holds and the memory of the dead process is free.\<close>

theorem page_fault_kills:
  assumes k: "kinv k" and p: "pid (current k) \<noteq> 0" and q: "queues k Q" and rq: "Q RunQ = Some (TaskL (cur k) # TaskL t # TaskL u # rq)"
  shows "\<exists>r' k'. exception_handler 14 r k = Some (Return r', k') \<and> kinv k' \<and> cur k' = t \<and> \<not> live k' (cur k) \<and>
    r' = context_of k' t \<and> ph_pages (current k) ` {0..<20} \<subseteq> avail (mm k')"
proof -
  define k0 where "k0 = say (cstr ('' generated this exception and has been terminated'' @ [CHR 0x0A]))
    (let k = say (cstr (''PAGE FAULT:'' @ [CHR 0x0A] @ ''The process with PID='')) (SAVE_ALL 1 r k)
     in k\<lparr>scr := printc (word_of_int (48 + pid (current k))) (scr k)\<rparr>)"
  have f: "cur k0 = cur k" "pid (current k0) = pid (current k)" "ph_pages (current k0) = ph_pages (current k)" "live k0 = live k"
    by (simp_all add: k0_def say_def Let_def SAVE_ALL_def live_def fun_eq_iff)
  have "kstable (SAVE_ALL 1 r k) k0" by (simp add: k0_def say_def Let_def kstable_def kframe_def)
  then have st: "kstable k k0" by (rule kstable_trans [OF kstable_SAVE_ALL])
  have k1: "kinv k0" by (rule kinv_kstable [OF k st])
  have q0: "queues k0 Q" using kframe_queues [OF _ q] st by (simp add: kstable_def)
  have rq0: "Q RunQ = Some (TaskL (cur k0) # TaskL t # TaskL u # rq)" using rq f by simp
  obtain k' where k': "sys_exit k0 = Some (Switched, k')" "kinv k'" "cur k' = t" "\<forall>i. live k' i \<longleftrightarrow> live k0 i \<and> i \<noteq> cur k0"
    "avail (mm k') = avail (mm k0) \<union> ph_pages (current k0) ` {0..<20}"
    using sys_exit_next [OF k1 _ q0 rq0] p f by auto
  have "page_fault_routine (SAVE_ALL 1 r k) = sys_exit k0"
    using p by (simp add: page_fault_routine_def k0_def Let_def say_def SAVE_ALL_def)
  then have "exception_handler 14 r k = Some (Return (RESTORE_ALL 0 k'), k')"
    using k'(1) by (simp add: exception_handler_def exception_routine_def has_error_code_def leave_def)
  then show ?thesis using k' f context_of_cur [of k'] by auto
qed

theorem page_fault_kills_witness:
  "\<exists>r' k'. exception_handler 14 (cpu blank_machine) k_three = Some (Return r', k') \<and> kinv k' \<and> cur k' = 0 \<and> \<not> live k' 1"
proof -
  have "pid (current k_three) \<noteq> 0" by (simp add: k_three_facts)
  moreover have "[RunQ \<mapsto> [TaskL 1, TaskL 0, TaskL 2], KbdQ \<mapsto> []] RunQ = Some (TaskL (cur k_three) # TaskL 0 # TaskL 2 # [])"
    by (simp add: k_three_cur)
  ultimately show ?thesis
    using page_fault_kills [OF k_three_inv _ k_three_queues, of 0 2 "[]" "cpu blank_machine"] k_three_cur by metis
qed

end
