(* ===== verification/IoProps.thy ===== *)
theory IoProps
  imports HandlerProps
begin

text \<open>
  Input and output as a process sees it: the checks of \<open>sys_write\<close>, the console, the keyboard, and
  what the check of user addresses is worth.
\<close>

section \<open>Keyboard\<close>

text \<open>The child reads into the first of its data pages.\<close>

definition k_kbd :: kernel where
  "k_kbd = upd_task 1 (\<lambda>t. t\<lparr>t_buffer := 1081344\<rparr>) k_child"


section \<open>Writing\<close>

text \<open>The checks of \<open>sys_write\<close>, in the order the code makes them.\<close>

definition write_error :: "int \<Rightarrow> int \<Rightarrow> kernel \<Rightarrow> int option" where
  "write_error fd n k =
     (if fd < 0 \<or> fd \<ge> MAX_FDS then Some (- EBADF)
      else case file_descriptors (current k) fd of
        None \<Rightarrow> Some (- EBADF)
      | Some v \<Rightarrow> if n > 80896 then Some (- EFBIG) else if n < 0 then Some (- EINVAL)
          else if access_mode (fdt (fs k) v) = O_RDONLY then Some (- EBADF) else None)"

lemma sys_write_console_run:
  assumes a: "access_ok (mm k) (arg_loc (lay k) (cur k)) 1 buffer (int n) = Some 1"
    and dev: "\<forall>v. file_descriptors (current k) fd = Some v \<longrightarrow>
      (\<exists>d op. dev_of (fs k) v = Some (d, op) \<and> sys_write_dev op = Some F_sys_write_console)"
    and bs: "load_list uld (mm k) buffer n = Some bs" and ne: "write_error fd (int n) k = None"
  shows "sys_write fd buffer (int n) k = Some (int n, k\<lparr>scr := fold printc bs (scr k)\<rparr>)"
proof -
  obtain v where v: "file_descriptors (current k) fd = Some v" "0 \<le> fd" "fd < 10" "int n \<le> 80896" "access_mode (fdt (fs k) v) \<noteq> O_RDONLY"
    using ne by (auto simp: write_error_def split: if_splits option.splits)
  obtain d op where "dev_of (fs k) v = Some (d, op)" "sys_write_dev op = Some F_sys_write_console" using dev v(1) by blast
  then show ?thesis using v a sys_write_console_ok [OF bs] by (simp add: sys_write_def call_write_def)
qed


text \<open>A process whose descriptor 1 is the console writes two bytes of its first data page.\<close>

definition k_con :: kernel where
  "k_con = blank_kernel\<lparr>
     fs := blank_fs\<lparr>fdt := (\<lambda>_. \<lparr>access_mode = O_WRONLY, refs = 1, voffset = 0, logic_dev = Some 1\<rparr>),
       dir := (dir blank_fs)(1 := (dir blank_fs 1)\<lparr>operations := Some 1\<rparr>),
       ops := (\<lambda>_. no_ops\<lparr>sys_write_dev := Some F_sys_write_console\<rparr>)\<rparr>,
     mm := blank_mm\<lparr>pagusr_table := (\<lambda>p. if p = 0 then kernel_pte 0 else if p = 264 then user_pte 264 else 0),
       ram := (\<lambda>_. 0)(1081344 := 0x4F, 1081345 := 0x4B)\<rparr>,
     task := (\<lambda>_. blank_task\<lparr>file_descriptors := [1 \<mapsto> 1]\<rparr>)\<rparr>"


section \<open>The check of user addresses\<close>



end
