(* ===== verification/Stdio.thy ===== *)
theory Stdio
  imports Utils
begin

text \<open>
  \<open>zeos/stdio.c\<close>: the string functions that are linked into user programs. They work on the memory of the program, so each of
  them loads and stores bytes at addresses, where the copies of \<open>utils.c\<close> inside the kernel are given a buffer. A loop over a
  string returns once it meets the NUL; \<open>None\<close> is an access that faults, or a string without end.

  The lemmas show that the functions return on every string that has an end, and that they compute what the kernel's copies
  compute: \<open>perror\<close> measures its text with the same \<open>strlen\<close> that \<open>sys_open\<close> applies to a path, and the number \<open>itoa\<close> writes for a
  user program is the one the kernel shows.
\<close>

section \<open>The functions\<close>

partial_function (option) stdio_strlen_from :: "(int \<Rightarrow> 8 word option) \<Rightarrow> int \<Rightarrow> int \<Rightarrow> int option" where
  "stdio_strlen_from ld buffer i = Option.bind (ld (buffer + i))
     (\<lambda>c. if c \<noteq> 0 then stdio_strlen_from ld buffer (i + 1) else Some i)"

definition stdio_strlen :: "(int \<Rightarrow> 8 word option) \<Rightarrow> int \<Rightarrow> int option" where
  "stdio_strlen ld buffer = stdio_strlen_from ld buffer 0"

text \<open>The first loop of \<open>itoa\<close> counts the digits, the second writes them from the last to the first.\<close>

function stdio_itoa_count :: "int \<Rightarrow> int \<Rightarrow> int" where
  "stdio_itoa_count digits i = (if digits > 0 then stdio_itoa_count (cdiv digits 10) (i + 1) else i)"
  by pat_completeness auto
termination
  by (relation "measure (\<lambda>(digits, i). nat digits)") (auto simp: cdiv_def)

function stdio_itoa_put :: "'s store \<Rightarrow> int \<Rightarrow> int \<Rightarrow> int \<Rightarrow> 's \<Rightarrow> 's option" where
  "stdio_itoa_put st buffer num i s =
     (if i > 0
      then Option.bind (st s (buffer + (i - 1)) (word_of_int (cmod num 10 + 48)))
        (stdio_itoa_put st buffer (cdiv num 10) (i - 1))
      else Some s)"
  by pat_completeness auto
termination
  by (relation "measure (\<lambda>(st, buffer, num, i, s). nat i)") auto

declare stdio_itoa_count.simps [simp del] stdio_itoa_put.simps [simp del]

definition stdio_itoa :: "'s store \<Rightarrow> int \<Rightarrow> int \<Rightarrow> 's \<Rightarrow> 's option" where
  "stdio_itoa st num buffer s = stdio_itoa_put st buffer num (stdio_itoa_count num 0) s"

partial_function (option) stdio_strcmp :: "(int \<Rightarrow> 8 word option) \<Rightarrow> int \<Rightarrow> int \<Rightarrow> int option" where
  "stdio_strcmp ld s1 s2 = Option.bind (ld s1) (\<lambda>a. Option.bind (ld s2) (\<lambda>b.
     if a = b then if a = 0 then Some 0 else stdio_strcmp ld (s1 + 1) (s2 + 1)
     else Some (if a < b then -1 else 1)))"

section \<open>Against the copies inside the kernel\<close>

text \<open>The two texts of \<open>strlen\<close> and \<open>strcmp\<close> are compared where they return: on strings that have an end.\<close>

lemma stdio_strlen_from_cstr: "cstr_at ld (a + i) xs \<Longrightarrow> stdio_strlen_from ld a i = Some (i + int (length xs))"
proof (induction xs arbitrary: i)
  case Nil
  then show ?case by (subst stdio_strlen_from.simps) simp
next
  case (Cons x xs)
  then have "stdio_strlen_from ld a (i + 1) = Some (i + 1 + int (length xs))" by (simp add: add.assoc)
  with Cons.prems show ?case by (subst stdio_strlen_from.simps) simp
qed

lemma stdio_strlen_cstr: "cstr_at ld a xs \<Longrightarrow> stdio_strlen ld a = Some (int (length xs))"
  using stdio_strlen_from_cstr [of ld a 0 xs] by (simp add: stdio_strlen_def)

lemma stdio_strcmp_lexcmp:
  "cstr_at ld a xs \<Longrightarrow> cstr_at ld b ys \<Longrightarrow> stdio_strcmp ld a b = Some (lexcmp xs ys)"
proof (induction xs ys arbitrary: a b rule: lexcmp.induct)
  case (4 x xs y ys)
  then have "x = y \<Longrightarrow> stdio_strcmp ld (a + 1) (b + 1) = Some (lexcmp xs ys)" by simp
  with 4 show ?case by (subst stdio_strcmp.simps) auto
qed (subst stdio_strcmp.simps, auto simp: word_neq_0_conv)+

lemma stdio_itoa_count_digits: "stdio_itoa_count n i = i + itoa_digits n"
  by (induction n i rule: stdio_itoa_count.induct)
    (subst stdio_itoa_count.simps, subst itoa_digits.simps, simp add: cdiv_nonneg)

lemma stdio_itoa_put_flat:
  "0 \<le> num \<Longrightarrow> stdio_itoa_put flat_st p num i m = Some (\<lambda>x. itoa_write i num (\<lambda>k. m (p + k)) (x - p))"
proof (induction "nat i" arbitrary: num i m)
  case 0
  then show ?case by (subst stdio_itoa_put.simps, subst itoa_write.simps) simp
next
  case (Suc j)
  let ?d = "word_of_int (num mod 10 + 48) :: 8 word"
  have "(\<lambda>k. (m(p + (i - 1) := ?d)) (p + k)) = (\<lambda>k. m (p + k))(i - 1 := ?d)" by auto
  moreover have "stdio_itoa_put flat_st p (num div 10) (i - 1) (m(p + (i - 1) := ?d)) =
      Some (\<lambda>x. itoa_write (i - 1) (num div 10) (\<lambda>k. (m(p + (i - 1) := ?d)) (p + k)) (x - p))"
    using Suc by (intro Suc.hyps(1)) auto
  ultimately show ?case
    using Suc by (subst stdio_itoa_put.simps, subst itoa_write.simps) (simp add: flat_st_def)
qed

lemma stdio_itoa_flat: "stdio_itoa flat_st num p m = Some (\<lambda>x. itoa num (\<lambda>k. m (p + k)) (x - p))"
proof (cases "0 \<le> num")
  case True
  then show ?thesis by (simp add: stdio_itoa_def itoa_def stdio_itoa_count_digits stdio_itoa_put_flat)
next
  case False
  then have "itoa_digits num = 0" by (simp add: itoa_digits.simps)
  then show ?thesis
    by (simp add: stdio_itoa_def itoa_def stdio_itoa_count_digits stdio_itoa_put.simps itoa_write.simps)
qed

text \<open>The digits are characters other than NUL, so a zero after the last of them ends the string.\<close>

lemma itoa_write_nonzero: "0 \<le> k \<Longrightarrow> k < i \<Longrightarrow> itoa_write i num buf k \<noteq> 0"
proof (induction i num buf rule: itoa_write.induct)
  case (1 i num buf)
  let ?d = "word_of_int (num mod 10 + 48) :: 8 word"
  have w: "itoa_write i num buf = itoa_write (i - 1) (num div 10) (buf(i - 1 := ?d))"
    using "1.prems" by (subst itoa_write.simps) simp
  show ?case
  proof (cases "k = i - 1")
    case True
    have "uint ?d \<noteq> 0" using uint_digit [of num] pos_mod_sign [of 10 num] by linarith
    then have "?d \<noteq> 0" by auto
    with True show ?thesis by (simp add: w itoa_write_frame)
  next
    case False
    with 1 show ?thesis by (simp only: w) simp
  qed
qed

lemma cstr_at_nth:
  "(\<And>i. i < length xs \<Longrightarrow> ld (a + int i) = Some (xs ! i)) \<Longrightarrow> ld (a + int (length xs)) = Some 0 \<Longrightarrow> 0 \<notin> set xs \<Longrightarrow> cstr_at ld a xs"
proof (induction xs arbitrary: a)
  case (Cons x xs)
  have "cstr_at ld (a + 1) xs"
  proof (rule Cons.IH)
    show "ld (a + 1 + int i) = Some (xs ! i)" if "i < length xs" for i using Cons.prems(1) [of "Suc i"] that by (simp add: add.assoc)
  qed (use Cons.prems in \<open>simp_all add: add.assoc\<close>)
  then show ?case using Cons.prems(1) [of 0] Cons.prems(3) by auto
qed simp

lemma itoa_string:
  assumes num: "0 < num" and z: "m (p + itoa_digits num) = 0"
  obtains m' ds where "stdio_itoa flat_st num p m = Some m'" and "cstr_at (flat_ld m') p ds" and "decimal ds 0 = num"
    and "\<And>k. m' (p + k) = itoa num (\<lambda>k. m (p + k)) k"
proof -
  let ?n = "itoa_digits num" and ?b = "\<lambda>k. m (p + k)"
  let ?m = "\<lambda>x. itoa num ?b (x - p)" and ?ds = "map (\<lambda>k. itoa num ?b (int k)) [0..<nat ?n]"
  have n: "int (length ?ds) = ?n" using itoa_digits_nonneg by simp
  have "cstr_at (flat_ld ?m) p ?ds"
  proof (rule cstr_at_nth)
    show "flat_ld ?m (p + int i) = Some (?ds ! i)" if "i < length ?ds" for i using that by (simp add: flat_ld_def)
    show "flat_ld ?m (p + int (length ?ds)) = Some 0" unfolding n using z by (simp add: flat_ld_def itoa_def itoa_write_frame)
    show "0 \<notin> set ?ds" using itoa_write_nonzero [of _ ?n num ?b] by (fastforce simp: itoa_def)
  qed
  moreover have "decimal ?ds 0 = num" using itoa_write_decimal [of num ?n ?b] num by (simp add: itoa_def)
  ultimately show ?thesis using that [OF stdio_itoa_flat] by simp
qed

text \<open>C37: the string functions of user programs and those of the kernel agree. On strings that end, \<open>strcmp\<close> returns the
  lexicographic comparison of the unsigned bytes, which is 0 exactly on equal strings, and \<open>strlen\<close> the length; the characters
  that \<open>itoa\<close> stores for a positive number are the ones the kernel's \<open>itoa\<close> computes, and before a zero byte they are a string
  of decimal digits that stands for the number.\<close>

theorem stdio_matches_kernel:
  assumes s: "cstr_at ld a xs" "cstr_at ld b ys" and i: "0 < num" "m (p + itoa_digits num) = 0"
  shows "stdio_strcmp ld a b = Some (lexcmp xs ys) \<and> strcmp ld ld a b = Some (lexcmp xs ys) \<and> (lexcmp xs ys = 0 \<longleftrightarrow> xs = ys) \<and>
    stdio_strlen ld a = Some (int (length xs)) \<and> strlen ld a = Some (int (length xs)) \<and>
    (\<exists>m' ds. stdio_itoa flat_st num p m = Some m' \<and> (\<forall>k. m' (p + k) = itoa num (\<lambda>k. m (p + k)) k) \<and>
      cstr_at (flat_ld m') p ds \<and> decimal ds 0 = num)"
proof -
  have "\<exists>m' ds. stdio_itoa flat_st num p m = Some m' \<and> (\<forall>k. m' (p + k) = itoa num (\<lambda>k. m (p + k)) k) \<and>
      cstr_at (flat_ld m') p ds \<and> decimal ds 0 = num"
    using i by (rule itoa_string) blast
  then show ?thesis
    using stdio_strcmp_lexcmp [OF s] strcmp_lexcmp [OF s] lexcmp_zero_iff stdio_strlen_cstr [OF s(1)] strlen_cstr [OF s(1)] by simp
qed

theorem stdio_matches_kernel_witness:
  "stdio_strcmp (\<lambda>a. Some (if a \<in> {3, 9} then 0 else 65)) 0 4 = Some (-1) \<and>
   (\<exists>m' ds. stdio_itoa flat_st 4096 100 (\<lambda>_. 0) = Some m' \<and> cstr_at (flat_ld m') 100 ds \<and> decimal ds 0 = 4096)"
proof -
  have s: "cstr_at (\<lambda>a. Some (if a \<in> {3, 9} then 0 else 65)) 0 [65, 65, 65]"
    "cstr_at (\<lambda>a. Some (if a \<in> {3, 9} then 0 else 65)) 4 [65, 65, 65, 65, 65]"
    by simp_all
  show ?thesis using stdio_matches_kernel [OF s, of 4096 "\<lambda>_. 0" 100] by auto
qed

end
