(* ===== verification/Libc.thy ===== *)
theory Libc
  imports IoProps Stdio
begin

text \<open>
  \<open>zeos/libc.c\<close>: the wrappers of the system calls in user mode. A wrapper loads its arguments and the number of the call
  into registers, traps into the kernel, and turns the result into the convention of C: a negative result becomes -1
  with the error in \<open>errno\<close>. The trap may switch to another process; the wrapper then continues when its process
  gets the processor back.
\<close>

section \<open>Traps from user mode\<close>

text \<open>The result is \<open>None\<close> in the first component when another process runs afterwards, and otherwise the registers the
  process continues with.\<close>

definition int80 :: "int \<Rightarrow> regs \<Rightarrow> kernel \<Rightarrow> (regs option \<times> kernel) option" where
  "int80 junk r k = do {
     (out, k') \<leftarrow> system_call_handler junk r k;
     case out of
       Return r' \<Rightarrow> Some (if cur k' = cur k then Some r' else None, k')
     | _ \<Rightarrow> None
   }"

text \<open>\<open>errno\<close> is the second argument, its new value the second result.\<close>

definition check_errcode :: "int \<Rightarrow> int \<Rightarrow> int \<times> int" where
  "check_errcode code err = (if code < 0 then (-1, s32 (- code)) else (code, err))"

type_synonym libc_result = "((int \<times> int) option \<times> kernel) option"

text \<open>The end of a wrapper, from the instruction after the trap: \<open>%eax\<close> is the result.\<close>

definition finish :: "int \<Rightarrow> regs \<Rightarrow> int \<times> int" where
  "finish err r = check_errcode (sint (r_eax r)) err"

definition checked :: "int \<Rightarrow> regs \<Rightarrow> int \<Rightarrow> kernel \<Rightarrow> libc_result" where
  "checked junk r err k = do {
     (cont, k) \<leftarrow> int80 junk r k;
     Some (map_option (finish err) cont, k)
   }"

section \<open>Wrappers\<close>

definition libc_write :: "int \<Rightarrow> 32 word \<Rightarrow> 32 word \<Rightarrow> 32 word \<Rightarrow> regs \<Rightarrow> int \<Rightarrow> kernel \<Rightarrow> libc_result" where
  "libc_write junk fd buffer sz r = checked junk (r\<lparr>r_ebx := fd, r_ecx := buffer, r_edx := sz, r_eax := 4\<rparr>)"

definition libc_getpid :: "int \<Rightarrow> regs \<Rightarrow> int \<Rightarrow> kernel \<Rightarrow> libc_result" where
  "libc_getpid junk r err k = do {
     (cont, k) \<leftarrow> int80 junk (r\<lparr>r_eax := 20\<rparr>) k;
     Some (map_option (\<lambda>r. (sint (r_eax r), err)) cont, k)
   }"

definition libc_fork :: "int \<Rightarrow> regs \<Rightarrow> int \<Rightarrow> kernel \<Rightarrow> libc_result" where
  "libc_fork junk r = checked junk (r\<lparr>r_eax := 2\<rparr>)"

definition libc_sem_init :: "int \<Rightarrow> 32 word \<Rightarrow> 32 word \<Rightarrow> regs \<Rightarrow> int \<Rightarrow> kernel \<Rightarrow> libc_result" where
  "libc_sem_init junk n_sem v r = checked junk (r\<lparr>r_ebx := n_sem, r_ecx := v, r_eax := 21\<rparr>)"

definition libc_sem_wait :: "int \<Rightarrow> 32 word \<Rightarrow> regs \<Rightarrow> int \<Rightarrow> kernel \<Rightarrow> libc_result" where
  "libc_sem_wait junk n_sem r = checked junk (r\<lparr>r_ebx := n_sem, r_eax := 22\<rparr>)"

definition libc_sem_signal :: "int \<Rightarrow> 32 word \<Rightarrow> regs \<Rightarrow> int \<Rightarrow> kernel \<Rightarrow> libc_result" where
  "libc_sem_signal junk n_sem r = checked junk (r\<lparr>r_ebx := n_sem, r_eax := 23\<rparr>)"

definition libc_sem_destroy :: "int \<Rightarrow> 32 word \<Rightarrow> regs \<Rightarrow> int \<Rightarrow> kernel \<Rightarrow> libc_result" where
  "libc_sem_destroy junk n_sem r = checked junk (r\<lparr>r_ebx := n_sem, r_eax := 24\<rparr>)"

text \<open>\<open>exit\<close> ignores what comes back.\<close>

definition libc_exit :: "int \<Rightarrow> regs \<Rightarrow> kernel \<Rightarrow> (regs option \<times> kernel) option" where
  "libc_exit junk r = int80 junk (r\<lparr>r_eax := 1\<rparr>)"

definition libc_nice :: "int \<Rightarrow> 32 word \<Rightarrow> regs \<Rightarrow> int \<Rightarrow> kernel \<Rightarrow> libc_result" where
  "libc_nice junk q r = checked junk (r\<lparr>r_ebx := q, r_eax := 34\<rparr>)"

definition libc_get_stats :: "int \<Rightarrow> 32 word \<Rightarrow> 32 word \<Rightarrow> regs \<Rightarrow> int \<Rightarrow> kernel \<Rightarrow> libc_result" where
  "libc_get_stats junk p st r = checked junk (r\<lparr>r_ebx := p, r_ecx := st, r_eax := 35\<rparr>)"

definition libc_open :: "int \<Rightarrow> 32 word \<Rightarrow> 32 word \<Rightarrow> regs \<Rightarrow> int \<Rightarrow> kernel \<Rightarrow> libc_result" where
  "libc_open junk path flags r = checked junk (r\<lparr>r_ebx := path, r_ecx := flags, r_eax := 5\<rparr>)"

definition libc_read :: "int \<Rightarrow> 32 word \<Rightarrow> 32 word \<Rightarrow> 32 word \<Rightarrow> regs \<Rightarrow> int \<Rightarrow> kernel \<Rightarrow> libc_result" where
  "libc_read junk fd buffer sz r = checked junk (r\<lparr>r_ebx := fd, r_ecx := buffer, r_edx := sz, r_eax := 3\<rparr>)"

definition libc_close :: "int \<Rightarrow> 32 word \<Rightarrow> regs \<Rightarrow> int \<Rightarrow> kernel \<Rightarrow> libc_result" where
  "libc_close junk fd r = checked junk (r\<lparr>r_ebx := fd, r_eax := 6\<rparr>)"

definition libc_dup :: "int \<Rightarrow> 32 word \<Rightarrow> regs \<Rightarrow> int \<Rightarrow> kernel \<Rightarrow> libc_result" where
  "libc_dup junk fd r = checked junk (r\<lparr>r_ebx := fd, r_eax := 41\<rparr>)"

definition libc_unlink :: "int \<Rightarrow> 32 word \<Rightarrow> regs \<Rightarrow> int \<Rightarrow> kernel \<Rightarrow> libc_result" where
  "libc_unlink junk path r = checked junk (r\<lparr>r_ebx := path, r_eax := 10\<rparr>)"

section \<open>Error messages\<close>

definition perror_text :: "int \<Rightarrow> string" where
  "perror_text err =
     (if err = 1 then ''EPERM: Operation not permitted''
      else if err = 3 then ''ESRCH: No such process''
      else if err = 4 then ''EINTR: Interrupted function call''
      else if err = 9 then ''EBADF: Bad file descriptor''
      else if err = 11 then ''EAGAIN: Resource busy, try again''
      else if err = 13 then ''EACCES: Permission denied''
      else if err = 14 then ''EFAULT: Bad address''
      else if err = 16 then ''EBUSY: Device or resource busy''
      else if err = 22 then ''EINVAL: Invalid argument''
      else if err = 23 then ''ENFILE: Too many open files in system''
      else if err = 24 then ''EMFILE: Too many open files by the process''
      else if err = 27 then ''EFBIG: File too large''
      else if err = 28 then ''ENOSPC: No space left on device''
      else if err = 36 then ''ENAMETOOLONG: File name too long''
      else if err = 38 then ''ENOSYS: Function not implemented''
      else if err = 44 then ''ECHRNG: Channel number out of range''
      else ''Unknown error or no error'') @ [CHR 0x0A]"

text \<open>\<open>place\<close> gives the address of each text in the data of the program; \<open>strlen\<close> reads it from there.\<close>

definition perror :: "int \<Rightarrow> (string \<Rightarrow> 32 word) \<Rightarrow> regs \<Rightarrow> int \<Rightarrow> kernel \<Rightarrow> libc_result" where
  "perror junk place r err k = do {
     let buffer = place (perror_text err);
     n \<leftarrow> stdio_strlen (uld (mm k)) (uint buffer);
     libc_write junk 1 buffer (word_of_int n) r err k
   }"

section \<open>What a wrapper returns\<close>

text \<open>The saved context at the top of the kernel stack is all that the entry into the kernel changes.\<close>

definition entered :: "regs \<Rightarrow> kernel \<Rightarrow> kernel" where
  "entered r k = SAVE_ALL 0 r k"

text \<open>The result of a kernel routine as the user program sees it: a routine that returns \<open>v\<close> to the same process.\<close>

definition reported :: "int \<Rightarrow> kernel \<Rightarrow> int routine_result \<Rightarrow> libc_result" where
  "reported err k res = do {
     (out, k1) \<leftarrow> res;
     case out of
       Return v \<Rightarrow> Some (if cur k1 = cur k then Some (if s32 v < 0 then (-1, s32 (- s32 v)) else (s32 v, err)) else None,
                        upd_task (cur k1) (set_eax v) k1)
     | Switched \<Rightarrow> Some (if cur k1 = cur k then Some (finish err (RESTORE_ALL 0 k1)) else None, k1)
     | Halted \<Rightarrow> None
   }"

definition trap_regs :: "32 word \<Rightarrow> 32 word \<Rightarrow> 32 word \<Rightarrow> 32 word \<Rightarrow> regs \<Rightarrow> regs" where
  "trap_regs b c d n r = r\<lparr>r_ebx := b, r_ecx := c, r_edx := d, r_eax := n\<rparr>"

lemma eax_restored: "cur k = i \<Longrightarrow> r_eax (RESTORE_ALL 0 (upd_task i (set_eax v) k)) = word_of_int v"
  by (simp add: RESTORE_ALL_def set_eax_def Let_def)

lemma args_entered: "arg 0 (entered r k) = r_ebx r" "arg 1 (entered r k) = r_ecx r" "arg 2 (entered r k) = r_edx r"
  by (simp_all add: arg_def entered_def SAVE_ALL_def)

lemma checked_reported:
  assumes "0 \<le> sint (r_eax r)" "sint (r_eax r) \<le> 41"
  shows "checked junk r err k = reported err k (sys_call_table (sint (r_eax r)) junk (entered r k))"
proof -
  have "system_call_handler junk r k = leave 0 (\<lambda>v k. upd_task (cur k) (set_eax v) k) (sys_call_table (sint (r_eax r)) junk (entered r k))"
    using assms by (simp add: system_call_handler_def entered_def Let_def)
  then show ?thesis
    by (cases "sys_call_table (sint (r_eax r)) junk (entered r k)")
      (auto simp: checked_def int80_def reported_def leave_def finish_def check_errcode_def eax_restored s32_word Let_def split: outcome.splits)
qed

lemma entered_simps [simp]:
  "mm (entered r k) = mm k" "fs (entered r k) = fs k" "lay (entered r k) = lay k" "cur (entered r k) = cur k" "scr (entered r k) = scr k"
  "file_descriptors (task (entered r k) i) = file_descriptors (task k i)"
  by (simp_all add: entered_def SAVE_ALL_def)

lemma libc_getpid_reported:
  "libc_getpid junk r e k = Some (Some (s32 (sys_getpid k), e), upd_task (cur k) (set_eax (sys_getpid k)) (entered (r\<lparr>r_eax := 20\<rparr>) k))"
proof -
  have "sys_getpid (entered (r\<lparr>r_eax := 20\<rparr>) k) = sys_getpid k" by (simp add: sys_getpid_def entered_def SAVE_ALL_def)
  then show ?thesis
    by (simp add: libc_getpid_def int80_def system_call_handler_def sys_call_table_def leave_def eax_restored s32_word Let_def entered_def [symmetric])
qed

text \<open>C23: every wrapper of the C library is its kernel routine, called with the arguments of the wrapper: the value the
  routine returns to the process is the value of the wrapper, and a negative value -e becomes -1 with \<open>errno\<close> set to e;
  otherwise \<open>errno\<close> stays; \<open>getpid\<close> cannot fail. When the routine switches to another process the wrapper is suspended.\<close>

theorem libc_wrappers:
  "libc_write junk a b c r e k = reported e k (ret (sys_write (sint a) (uint b) (sint c) (entered (trap_regs a b c 4 r) k))) \<and>
    libc_read junk a b c r e k = reported e k (sys_read (sint a) (uint b) (sint c) (entered (trap_regs a b c 3 r) k)) \<and>
    libc_open junk a b r e k = reported e k (ret (sys_open (uint a) (sint b) (entered (trap_regs a b (r_edx r) 5 r) k))) \<and>
    libc_close junk a r e k = reported e k (ret (sys_close (sint a) (entered (trap_regs a (r_ecx r) (r_edx r) 6 r) k))) \<and>
    libc_unlink junk a r e k = reported e k (ret (sys_unlink (uint a) (entered (trap_regs a (r_ecx r) (r_edx r) 10 r) k))) \<and>
    libc_dup junk a r e k = reported e k (ret (sys_dup (sint a) (entered (trap_regs a (r_ecx r) (r_edx r) 41 r) k))) \<and>
    libc_getpid junk r e k = (let v = sys_getpid k in Some (Some (s32 v, e), upd_task (cur k) (set_eax v) (entered (trap_regs (r_ebx r) (r_ecx r) (r_edx r) 20 r) k))) \<and>
    libc_fork junk r e k = reported e k (ret (sys_fork (entered (trap_regs (r_ebx r) (r_ecx r) (r_edx r) 2 r) k))) \<and>
    libc_sem_init junk a b r e k = reported e k (ret (Some (sys_sem_init (sint a) (uint b) (entered (trap_regs a b (r_edx r) 21 r) k)))) \<and>
    libc_sem_wait junk a r e k = reported e k (sys_sem_wait (sint a) (entered (trap_regs a (r_ecx r) (r_edx r) 22 r) k)) \<and>
    libc_sem_signal junk a r e k = reported e k (ret (sys_sem_signal (sint a) (entered (trap_regs a (r_ecx r) (r_edx r) 23 r) k))) \<and>
    libc_sem_destroy junk a r e k = reported e k (ret (sys_sem_destroy (sint a) (entered (trap_regs a (r_ecx r) (r_edx r) 24 r) k))) \<and>
    libc_nice junk a r e k = reported e k (ret (Some (sys_nice (sint a) (entered (trap_regs a (r_ecx r) (r_edx r) 34 r) k)))) \<and>
    libc_get_stats junk a b r e k = reported e k (ret (sys_get_stats (sint a) (uint b) (entered (trap_regs a b (r_edx r) 35 r) k)))"
  unfolding libc_write_def libc_read_def libc_open_def libc_close_def libc_unlink_def libc_dup_def libc_fork_def
    libc_sem_init_def libc_sem_wait_def libc_sem_signal_def libc_sem_destroy_def libc_nice_def libc_get_stats_def trap_regs_def
  by (simp add: checked_reported sys_call_table_def args_entered libc_getpid_reported Let_def)

section \<open>Showing an error\<close>

lemma cstr_at_load: "cstr_at (ld s) a xs \<Longrightarrow> load_list ld s a (length xs) = Some xs"
  by (induction xs arbitrary: a) auto

lemma perror_text_length: "length (perror_text err) \<le> 80"
  by (simp add: perror_text_def)

text \<open>\<open>perror\<close> shows the text for the value of \<open>errno\<close> on the console, whole and without its NUL, and leaves \<open>errno\<close>
  as it is; the codes of ENOENT and EEXIST, which the kernel returns, have no text of their own.\<close>

theorem perror_shows:
  assumes tx: "cstr_at (uld (mm k)) (uint (place (perror_text err))) (cstr (perror_text err))"
    and a: "access_ok (mm k) (arg_loc (lay k) (cur k)) 1 (uint (place (perror_text err))) (int (length (perror_text err))) = Some 1"
    and v: "file_descriptors (current k) 1 = Some v" "access_mode (fdt (fs k) v) \<noteq> O_RDONLY"
    and dev: "dev_of (fs k) v = Some (d, op)" "sys_write_dev op = Some F_sys_write_console"
  shows "(\<exists>k'. perror junk place r err k = Some (Some (int (length (perror_text err)), err), k') \<and>
      scr k' = fold printc (cstr (perror_text err)) (scr k) \<and> mm k' = mm k \<and> fs k' = fs k) \<and>
    perror_text ENOENT = perror_text 0 \<and> perror_text EEXIST = perror_text 0"
proof -
  let ?t = "perror_text err" and ?b = "place (perror_text err)"
  let ?n = "length ?t"
  have n: "?n \<le> 80" by (rule perror_text_length)
  have len: "length (cstr ?t) = ?n" by (simp add: cstr_def)
  have w: "sint (word_of_int (int ?n) :: 32 word) = int ?n" using s32_word [of "int ?n"] s32_id [of "int ?n"] n by (simp add: in_int_def)
  define k0 where "k0 = entered (trap_regs 1 ?b (word_of_int (int ?n)) 4 r) k"
  have load: "load_list uld (mm k0) (uint ?b) ?n = Some (cstr ?t)" using cstr_at_load [of uld "mm k", OF tx] len by (simp add: k0_def)
  have "write_error 1 (int ?n) k0 = None" using v n by (simp add: write_error_def k0_def)
  then have wr: "sys_write 1 (uint ?b) (int ?n) k0 = Some (int ?n, k0\<lparr>scr := fold printc (cstr ?t) (scr k0)\<rparr>)"
    using a v(1) dev by (intro sys_write_console_run [OF _ _ load]) (simp_all add: k0_def)
  have "perror junk place r err k = libc_write junk 1 ?b (word_of_int (int ?n)) r err k"
    using stdio_strlen_cstr [OF tx] len by (simp add: perror_def Let_def)
  also have "\<dots> = reported err k (ret (sys_write 1 (uint ?b) (int ?n) k0))"
    unfolding libc_write_def k0_def trap_regs_def by (simp add: checked_reported sys_call_table_def args_entered Let_def w [simplified])
  also have "\<dots> = Some (Some (int ?n, err), upd_task (cur k) (set_eax (int ?n)) (k0\<lparr>scr := fold printc (cstr ?t) (scr k0)\<rparr>))"
    unfolding wr using n by (simp add: reported_def ret_def k0_def in_int_def)
  finally show ?thesis by (simp add: k0_def perror_text_def)
qed

text \<open>The error EPERM on the console of \<open>k_con\<close>, with the text at the start of the data.\<close>

definition k_err :: kernel where
  "k_err = k_con\<lparr>mm := (mm k_con)\<lparr>ram := (\<lambda>a. if 1081344 \<le> a \<and> a < 1081344 + int (length (cstr (perror_text 1)))
     then cstr (perror_text 1) ! nat (a - 1081344) else 0)\<rparr>\<rparr>"

theorem perror_shows_witness:
  "\<exists>k'. perror 0 (\<lambda>_. 1081344) (cpu blank_machine) 1 k_err = Some (Some (31, 1), k') \<and>
     scr k' = fold printc (cstr (''EPERM: Operation not permitted'' @ [CHR 0x0A])) (scr k_err)"
proof -
  let ?t = "perror_text 1"
  have e: "?t = ''EPERM: Operation not permitted'' @ [CHR 0x0A]" "length ?t = 31" by (simp_all add: perror_text_def)
  have l: "length (cstr ?t) = 31" by (simp add: cstr_def e)
  have pg: "(1081344 + int i) div 4096 = 264" "(1081344 + int i) mod 4096 = int i" if "i \<le> 31" for i
    using div_mult_self4 [of 4096 264 "int i"] mod_mult_self4 [of 4096 264 "int i"] that by (simp_all add: add.commute)
  have ld: "uld (mm k_err) (1081344 + int i) = Some (if i < 31 then cstr ?t ! i else 0)" if "i \<le> 31" for i
    using that l pg [OF that] by (simp add: uld_def vread_def k_err_def k_con_def translate_def pte_base_user_pte)
  have "0 \<notin> set (cstr ?t)" unfolding e(1) by (simp add: cstr_def)
  then have tx: "cstr_at (uld (mm k_err)) (uint (1081344 :: 32 word)) (cstr ?t)"
    using ld ld [of 31] l by (intro cstr_at_nth) simp_all
  have a: "access_ok (mm k_err) (arg_loc (lay k_err) (cur k_err)) 1 (uint (1081344 :: 32 word)) (int (length ?t)) = Some 1"
    unfolding e(2) by (simp add: access_ok_def k_err_def k_con_def blank_kernel_def check_address_def rd_def kernel_pte_def s32_def u32_def)
  have v: "file_descriptors (current k_err) 1 = Some 1" "access_mode (fdt (fs k_err) 1) \<noteq> O_RDONLY"
    "dev_of (fs k_err) 1 = Some (1, ops (fs k_err) 1)" "sys_write_dev (ops (fs k_err) 1) = Some F_sys_write_console"
    by (simp_all add: k_err_def k_con_def dev_of_def rd_def)
  show ?thesis using perror_shows [of k_err "\<lambda>_. 1081344" 1, OF tx a v] unfolding e by auto
qed

end
