(* ===== verification/Progress.thy ===== *)
theory Progress
  imports HandlerProps
begin

text \<open>
  That the kernel comes back from what it is asked to do. \<open>kernel_invariant_kept\<close> speaks of the steps that happen; here the steps
  are shown to happen: from a state of the invariant every handler returns a context, so no loop over a queue, a frame table or a
  descriptor table runs away and no pointer it follows is wild. The events are the clock, page faults and the system calls that
  take their arguments in registers; a call that is given a pointer to user memory may fault on it and is left to the properties
  of the call.

  A run stops early for two reasons only: an exit that leaves the dead process running, and a page fault of process 0, where the
  kernel stops by design.
\<close>

section \<open>Events\<close>

text \<open>The calls that are given the address of a buffer, a path or a structure.\<close>

definition takes_pointer :: "int \<Rightarrow> bool" where
  "takes_pointer n \<longleftrightarrow> n \<in> {3, 4, 5, 10, 35}"

datatype event = Trap int regs | Tick regs | Fault regs

fun serve :: "event \<Rightarrow> kernel \<Rightarrow> regs routine_result" where
  "serve (Trap junk r) k = system_call_handler junk r k"
| "serve (Tick r) k = clock_handler r k"
| "serve (Fault r) k = exception_handler 14 r k"

fun serve_all :: "event list \<Rightarrow> kernel \<Rightarrow> kernel option" where
  "serve_all [] k = Some k"
| "serve_all (e # es) k = Option.bind (serve e k) (\<lambda>(out, k). case out of Return _ \<Rightarrow> serve_all es k | _ \<Rightarrow> None)"

fun in_registers :: "event \<Rightarrow> bool" where
  "in_registers (Trap junk r) \<longleftrightarrow> \<not> takes_pointer (sint (r_eax r))"
| "in_registers _ \<longleftrightarrow> True"

text \<open>A page fault of process 0 stops the machine.\<close>

fun stops :: "event \<Rightarrow> kernel \<Rightarrow> bool" where
  "stops (Fault r) k \<longleftrightarrow> pid (current k) = 0"
| "stops _ k \<longleftrightarrow> False"

section \<open>The devices behind open files\<close>

definition devs_ok :: "fs_state \<Rightarrow> bool" where
  "devs_ok s \<longleftrightarrow> (\<forall>v d. 0 \<le> v \<and> v < MAX_OPEN_FILES \<and> logic_dev (fdt s v) = Some d \<longrightarrow>
     (\<exists>op. operations (dir s d) = Some op \<and> sys_close_dev (ops s op) = None))"

definition same_devs :: "fs_state \<Rightarrow> fs_state \<Rightarrow> bool" where
  "same_devs s s' \<longleftrightarrow> ops s' = ops s \<and> (\<forall>v. logic_dev (fdt s' v) = logic_dev (fdt s v)) \<and>
     (\<forall>d. operations (dir s' d) = operations (dir s d))"

lemma same_devs_refl [simp]: "same_devs s s" by (simp add: same_devs_def)

lemma same_devs_trans: "same_devs s t \<Longrightarrow> same_devs t u \<Longrightarrow> same_devs s u" by (simp add: same_devs_def)

lemma devs_ok_same: "same_devs s s' \<Longrightarrow> devs_ok s \<Longrightarrow> devs_ok s'" by (simp add: same_devs_def devs_ok_def)

lemma share_fd_same: "share_fd fd s = Some s' \<Longrightarrow> same_devs s s'"
  by (auto simp: share_fd_def same_devs_def rd_def dest!: bind_SomeD split: option.splits if_splits)

text \<open>What a call may do to the devices and to the counter of process identifiers.\<close>

definition mild :: "kernel \<Rightarrow> kernel \<Rightarrow> bool" where
  "mild k k' \<longleftrightarrow> same_devs (fs k) (fs k') \<and> next_pid k' \<le> next_pid k + 1"

lemma mild_eq: "fs k' = fs k \<Longrightarrow> next_pid k' = next_pid k \<Longrightarrow> mild k k'" by (simp add: mild_def)

lemma mild_xframe: "xframe k k' \<Longrightarrow> mild k k'" by (simp add: xframe_def mild_eq)

lemma mild_pframe: "pframe k k' \<Longrightarrow> mild k k'" by (simp add: pframe_def mild_eq)

text \<open>A routine that comes back, to the same process or to another one.\<close>

definition comes_back :: "kernel \<Rightarrow> 'a routine_result \<Rightarrow> bool" where
  "comes_back k res \<longleftrightarrow> (\<exists>out k'. res = Some (out, k') \<and> out \<noteq> Halted \<and> mild k k')"

lemma comes_back_ret: "m = Some (v, k') \<Longrightarrow> mild k k' \<Longrightarrow> comes_back k (ret m)"
  by (simp add: comes_back_def ret_def)

lemma comes_back_value: "mild k k' \<Longrightarrow> comes_back k (Some (Return v, k'))"
  by (simp add: comes_back_def)

section \<open>Every call returns\<close>

lemma sys_sem_wait_returns:
  assumes k: "kinv k"
  shows "comes_back k (sys_sem_wait n k)"
proof (cases "pid (current k) \<noteq> 0 \<and> 0 \<le> n \<and> n < 26 \<and> init (sem k n) = 1 \<and> count (sem k n) = 0")
  case True
  obtain Q where q: "queues k Q" using k by (rule kinvE)
  obtain ws where w: "Q (SemQ n) = Some ws" using queues_sem [OF q] True by blast
  obtain h t where "sys_sem_wait n k = Some (Switched, switched t (k\<lparr>lists := h, it_is_int := 0\<rparr>))"
    using sys_sem_wait_block [OF q _ _ _ _ _ w] True by metis
  then show ?thesis by (simp add: comes_back_def mild_eq)
next
  case False
  moreover have "0 \<le> count (sem k n)" using k by (simp add: kinv_def sems_ok_def)
  ultimately show ?thesis by (auto simp: sys_sem_wait_def intro!: comes_back_value mild_eq)
qed

lemma sys_sem_signal_returns:
  assumes k: "kinv k"
  shows "comes_back k (ret (sys_sem_signal n k))"
proof (cases "0 \<le> n \<and> n < 26 \<and> init (sem k n) = 1")
  case True
  obtain Q rq where q: "queues k Q" "Q RunQ = Some (TaskL (cur k) # rq)" using k by (rule kinvE)
  obtain ws where w: "Q (SemQ n) = Some ws" using queues_sem [OF q(1)] True by blast
  show ?thesis
  proof (cases ws)
    case Nil
    have "sys_sem_signal n k = Some (0, upd_sem n (\<lambda>s. s\<lparr>count := u32 (count s + 1)\<rparr>) k)"
      using sys_sem_signal_empty(1) [OF q(1)] True w Nil by simp
    then show ?thesis by (rule comes_back_ret) (simp add: mild_eq)
  next
    case (Cons a as)
    then obtain i where a: "a = TaskL i" using queues_entry [OF q(1) w, of a] by auto
    obtain h where "sys_sem_signal n k = Some (0, (upd_task i (set_eax 0) k)\<lparr>lists := h\<rparr>)"
      using sys_sem_signal_wake [OF q(1) _ _ _ _ q(2)] True w Cons a by metis
    then show ?thesis by (rule comes_back_ret) (simp add: mild_eq)
  qed
next
  case False
  then show ?thesis by (intro comes_back_ret [of _ "- EINVAL" k]) (auto simp: sys_sem_signal_def mild_eq)
qed

lemma sys_sem_destroy_returns:
  assumes k: "kinv k"
  shows "comes_back k (ret (sys_sem_destroy n k))"
proof -
  obtain Q rq where q: "queues k Q" "Q RunQ = Some (TaskL (cur k) # rq)" using k by (rule kinvE)
  have "\<exists>v k'. sys_sem_destroy n k = Some (v, k')"
  proof (cases "0 \<le> n \<and> n < 26 \<and> owned_sems (current k) n = 1")
    case True
    then show ?thesis using sem_destroy_any [OF q(1) _ _ _ q(2), of n] by metis
  qed (auto simp: sys_sem_destroy_def)
  then show ?thesis using sys_sem_destroy_pframe comes_back_ret mild_pframe by metis
qed

lemma kinv_fd:
  assumes k: "kinv k" and fd: "0 \<le> fd" "fd < 10" "file_descriptors (current k) fd = Some w"
  obtains d where "0 \<le> w" and "w < 15" and "logic_dev (fdt (fs k) w) = Some d"
proof -
  have "fds_ok (fs k) (file_descriptors (current k))" using k kinv_cur [OF k] by (simp add: kinv_def fds_all_def)
  then have "0 \<le> w \<and> w < 15 \<and> logic_dev (fdt (fs k) w) \<noteq> None" unfolding fds_ok_def using fd by blast
  then show ?thesis using that by blast
qed

lemma sys_dup_returns:
  assumes k: "kinv k"
  shows "comes_back k (ret (sys_dup fd k))"
proof (cases "fd < 0 \<or> fd \<ge> 10 \<or> file_descriptors (current k) fd = None \<or> fd_slot k = 10")
  case True
  then have "\<exists>v. sys_dup fd k = Some (v, k)" by (auto simp: sys_dup_def fd_slot_def Let_def)
  then show ?thesis using comes_back_ret mild_eq by metis
next
  case False
  then obtain w where w: "file_descriptors (current k) fd = Some w" by auto
  obtain d where "0 \<le> w" "w < 15" "logic_dev (fdt (fs k) w) = Some d" by (rule kinv_fd [OF k _ _ w]) (use False in auto)
  then obtain s where s: "share_fd (Some w) (fs k) = Some s" by (auto simp: share_fd_def rd_def)
  let ?k = "upd_task (cur k) (\<lambda>t. t\<lparr>file_descriptors := (file_descriptors t)(fd_slot k := file_descriptors t fd)\<rparr>) k"
  have "sys_dup fd k = Some (fd_slot k, ?k\<lparr>fs := s\<rparr>)"
    unfolding sys_dup_def fd_slot_def [symmetric] using False w s by (simp add: Let_def)
  then show ?thesis using share_fd_same [OF s] by (intro comes_back_ret) (auto simp: mild_def)
qed

lemma sys_close_returns:
  assumes k: "kinv k" and d: "devs_ok (fs k)"
  shows "comes_back k (ret (sys_close fd k))"
proof (cases "fd < 0 \<or> fd \<ge> 10 \<or> file_descriptors (current k) fd = None")
  case True
  then have "sys_close fd k = Some (- EBADF, k)" by (auto simp: sys_close_def)
  then show ?thesis by (rule comes_back_ret) (simp add: mild_eq)
next
  case False
  then obtain w where w: "file_descriptors (current k) fd = Some w" by auto
  obtain di where di: "0 \<le> w" "w < 15" "logic_dev (fdt (fs k) w) = Some di" by (rule kinv_fd [OF k _ _ w]) (use False in auto)
  then obtain op where "operations (dir (fs k) di) = Some op" "sys_close_dev (ops (fs k) op) = None" using d by (auto simp: devs_ok_def)
  then have "\<exists>k'. sys_close fd k = Some (0, k') \<and> mild k k'"
    using False w di by (auto simp: sys_close_def dev_of_def Let_def mild_def same_devs_def)
  then show ?thesis using comes_back_ret by metis
qed

lemma sys_fork_same:
  assumes f: "sys_fork k = Some (r, k')"
  shows "same_devs (fs k) (fs k')"
proof -
  have pages: "fs t = fs u" if "for_opt 0 n (fork_page c frames) u = Some t" for n c frames t u
    by (rule for_opt_keeps [OF that]) (auto simp: fork_page_def lift_mm_def Let_def dest!: bind_SomeD)
  have share: "same_devs s t" if "for_opt 0 10 (\<lambda>i. share_fd (fds i)) s = Some t" for fds s t
    by (rule for_opt_keeps [OF that]) (auto dest: share_fd_same same_devs_trans)
  show ?thesis
    using f by (auto simp: sys_fork_def Let_def lift_lists_def copy_task_def init_child_def dest!: bind_SomeD pages share
      split: if_splits option.splits prod.splits)
qed

lemma sys_fork_returns:
  assumes k: "kinv k" and np: "next_pid k < 2 ^ 31 - 1"
  shows "comes_back k (ret (sys_fork k))"
proof -
  obtain Q rq where q: "queues k Q" "Q RunQ = Some (TaskL (cur k) # rq)" "frames_ok k" using k by (rule kinvE)
  define c where "c = srch_free_task k"
  consider (none) "c = -1" | (few) "c \<noteq> -1" "card (avail (mm k)) < 20" | (ok) "c \<noteq> -1" "20 \<le> card (avail (mm k))" by linarith
  then have "\<exists>v k'. sys_fork k = Some (v, k') \<and> next_pid k' \<le> next_pid k + 1"
  proof cases
    case none
    then show ?thesis by (simp add: sys_fork_def c_def)
  next
    case few
    then show ?thesis using sys_fork_no_memory [OF q(1,3) c_def [symmetric]] by (metis add_increasing2 order_refl zero_le_one)
  next
    case ok
    have iso: "iso_ok k" and np0: "0 \<le> next_pid k" using k by (simp_all add: kinv_def pids_ok_def)
    have fd: "fds_ok (fs k) (file_descriptors (current k))" using k kinv_cur [OF k] by (simp add: kinv_def fds_all_def)
    obtain pf where pf: "\<forall>p. 0 \<le> p \<and> p < 20 \<longrightarrow> pagusr_table (mm k) (264 + p) = user_pte (pf p) \<and> owned (mm k) (pf p)"
      using iso_mapped [OF iso] by (rule mapped_okE)
    show ?thesis
      by (rule sys_fork_state [OF q(1,3) iso_mapped [OF iso] q(2) c_def [symmetric] ok fd np0 np pf]) simp
  qed
  then show ?thesis using sys_fork_same comes_back_ret unfolding mild_def by metis
qed

lemma sys_exit_returns:
  assumes k: "kinv k"
  shows "comes_back k (sys_exit k)"
proof (cases "pid (current k) = 0")
  case True
  then show ?thesis by (simp add: sys_exit_def comes_back_value mild_eq)
next
  case p: False
  obtain Q t rq where q: "queues k Q" "frames_ok k" "Q RunQ = Some (TaskL (cur k) # TaskL t # rq)"
    using k p by (rule kinv_second)
  have "\<exists>out k'. sys_exit k = Some (out, k') \<and> out \<noteq> Halted"
    by (rule sys_exit_cases [OF q(1,2) p q(3)]) auto
  then show ?thesis using sys_exit_xframe [OF _ p] mild_xframe unfolding comes_back_def by metis
qed

lemma comes_back_void:
  assumes "comes_back k res"
  shows "comes_back k (void junk res)"
proof -
  obtain out k' where "res = Some (out, k')" "out \<noteq> Halted" "mild k k'" using assms by (auto simp: comes_back_def)
  then show ?thesis by (cases out) (simp_all add: comes_back_def void_def)
qed

lemma sys_sem_init_mild: "mild k (snd (sys_sem_init n v k))"
  by (simp add: sys_sem_init_def Let_def mild_eq)

lemma sys_nice_mild: "mild k (snd (sys_nice q k))"
  by (simp add: sys_nice_def mild_eq)

lemma sys_call_table_returns:
  assumes k: "kinv k" and d: "devs_ok (fs k)" and np: "next_pid k < 2 ^ 31 - 1" and n: "\<not> takes_pointer n"
  shows "comes_back k (sys_call_table n junk k)"
proof -
  have i: "comes_back k (ret (Some (sys_sem_init a v k)))" "comes_back k (ret (Some (sys_nice a k)))" for a v
    using comes_back_ret [OF _ sys_sem_init_mild] comes_back_ret [OF _ sys_nice_mild] by (metis surjective_pairing)+
  show ?thesis
    using n i sys_fork_returns [OF k np] sys_close_returns [OF k d] sys_dup_returns [OF k] sys_sem_wait_returns [OF k]
      sys_sem_signal_returns [OF k] sys_sem_destroy_returns [OF k] comes_back_void [OF sys_exit_returns [OF k]]
    by (simp add: sys_call_table_def takes_pointer_def Let_def comes_back_value mild_eq)
qed

section \<open>Every handler returns a context\<close>

lemma leave_returns:
  assumes "comes_back k res" and "\<And>v k1. fs (fin v k1) = fs k1 \<and> next_pid (fin v k1) = next_pid k1"
  shows "\<exists>r k'. leave d fin res = Some (Return r, k') \<and> mild k k'"
  using assms by (auto simp: comes_back_def leave_def mild_def Let_def split: outcome.splits)

lemma mild_entry: "mild (SAVE_ALL d r k) k' \<longleftrightarrow> mild k k'"
  by (simp add: mild_def SAVE_ALL_def)

lemma system_call_returns:
  assumes k: "kinv k" and d: "devs_ok (fs k)" and np: "next_pid k < 2 ^ 31 - 1" and n: "\<not> takes_pointer (sint (r_eax r))"
  shows "\<exists>r' k'. system_call_handler junk r k = Some (Return r', k') \<and> mild k k'"
proof (cases "sint (r_eax r) < 0 \<or> sint (r_eax r) > 41")
  case True
  then show ?thesis by (auto simp: system_call_handler_def Let_def mild_def SAVE_ALL_def)
next
  case False
  let ?k = "SAVE_ALL 0 r k"
  have "comes_back ?k (sys_call_table (sint (r_eax r)) junk ?k)"
    by (rule sys_call_table_returns [OF kinv_kstable [OF k kstable_SAVE_ALL] _ _ n]) (use d np in \<open>simp_all add: SAVE_ALL_def\<close>)
  then have "\<exists>r' k'. leave 0 (\<lambda>v k. upd_task (cur k) (set_eax v) k) (sys_call_table (sint (r_eax r)) junk ?k) = Some (Return r', k') \<and> mild ?k k'"
    by (rule leave_returns) simp
  then show ?thesis using False by (simp add: system_call_handler_def Let_def mild_entry)
qed

lemma schedule_comes_back:
  assumes k: "kinv k"
  shows "comes_back k (schedule 1 k)"
proof -
  have "\<exists>out k'. schedule 1 k = Some (out, k') \<and> out \<noteq> Halted" by (rule schedule_returns [OF k]) auto
  then show ?thesis using mild_xframe [OF schedule_xframe] unfolding comes_back_def by metis
qed

lemma clock_returns:
  assumes k: "kinv k"
  shows "\<exists>r' k'. clock_handler r k = Some (Return r', k') \<and> mild k k'"
proof -
  let ?k = "SAVE_ALL 0 r k"
  let ?k1 = "upd_task (cur ?k) (\<lambda>t. t\<lparr>cpu_tics := s32 (cpu_tics t + 1), remaining := s32 (remaining t - 1)\<rparr>)
    (?k\<lparr>tics := s32 (tics ?k + 1), left4current := s32 (left4current ?k - 1)\<rparr>)"
  have "kstable ?k ?k1" by (simp add: kstable_def kframe_def)
  then have "kinv ?k1" using kinv_kstable [OF kinv_kstable [OF k kstable_SAVE_ALL]] by blast
  then obtain out k2 where s: "schedule 1 ?k1 = Some (out, k2)" "out \<noteq> Halted" "mild ?k1 k2"
    using schedule_comes_back unfolding comes_back_def by blast
  have "mild ?k (show_time k2)" "mild ?k k2" using s(3) by (simp_all add: mild_def show_time_def Let_def)
  then have "comes_back ?k (clock_routine ?k)"
    using s by (auto simp: clock_routine_def Let_def comes_back_def split: outcome.splits)
  then have "\<exists>r' k'. leave 0 (\<lambda>_. EOI) (clock_routine ?k) = Some (Return r', k') \<and> mild ?k k'"
    by (rule leave_returns) (simp add: EOI_def)
  then show ?thesis by (simp add: clock_handler_def mild_entry)
qed

lemma page_fault_returns:
  assumes k: "kinv k" and p: "pid (current k) \<noteq> 0"
  shows "\<exists>r' k'. exception_handler 14 r k = Some (Return r', k') \<and> mild k k'"
proof -
  let ?k = "SAVE_ALL 1 r k"
  define k0 where "k0 = say (cstr ('' generated this exception and has been terminated'' @ [CHR 0x0A]))
    (let k = say (cstr (''PAGE FAULT:'' @ [CHR 0x0A] @ ''The process with PID='')) ?k
     in k\<lparr>scr := printc (word_of_int (48 + pid (current k))) (scr k)\<rparr>)"
  have st: "kstable ?k k0" and m: "mild k0 k' \<longleftrightarrow> mild ?k k'" for k'
    by (simp_all add: k0_def say_def Let_def kstable_def kframe_def mild_def)
  have "kinv k0" by (rule kinv_kstable [OF kinv_kstable [OF k kstable_SAVE_ALL] st])
  moreover have "page_fault_routine ?k = sys_exit k0"
    using p by (simp add: page_fault_routine_def k0_def Let_def say_def SAVE_ALL_def)
  ultimately have "comes_back ?k (page_fault_routine ?k)" using sys_exit_returns [of k0] m by (simp add: comes_back_def)
  then have "\<exists>r' k'. leave 1 (\<lambda>_ k. k) (page_fault_routine ?k) = Some (Return r', k') \<and> mild ?k k'"
    by (rule leave_returns) simp
  then show ?thesis by (simp add: exception_handler_def exception_routine_def has_error_code_def mild_entry)
qed

section \<open>Runs\<close>

lemma serve_step:
  assumes k: "kinv k" and d: "devs_ok (fs k)" and np: "next_pid k < 2 ^ 31 - 1" and e: "in_registers e" "\<not> stops e k"
  obtains r k' where "serve e k = Some (Return r, k')" and "mild k k'" and "kinv k' \<or> \<not> live k' (cur k')"
proof -
  have "\<exists>r k'. serve e k = Some (Return r, k') \<and> mild k k'"
    using e system_call_returns [OF k d np] clock_returns [OF k] page_fault_returns [OF k] by (cases e) auto
  then obtain r k' where s: "serve e k = Some (Return r, k')" "mild k k'" by blast
  have "kstep k k'"
    using s(1) kinv_cur [OF k] np by (cases e) (auto intro: kstep.intros)
  then show ?thesis using that [OF s] kstep_inv k by blast
qed

lemma serve_run:
  "kinv k \<Longrightarrow> devs_ok (fs k) \<Longrightarrow> next_pid k + int (length es) < 2 ^ 31 \<Longrightarrow> (\<forall>e\<in>set es. in_registers e) \<Longrightarrow>
   \<exists>n k'. n \<le> length es \<and> serve_all (take n es) k = Some k' \<and>
     (kinv k' \<and> (n = length es \<or> stops (es ! n) k') \<or> \<not> live k' (cur k'))"
proof (induction es arbitrary: k)
  case Nil
  then show ?case by simp
next
  case (Cons e es)
  show ?case
  proof (cases "stops e k")
    case True
    then show ?thesis using Cons.prems(1) by (intro exI [of _ 0] exI [of _ k]) simp
  next
    case False
    obtain r k1 where s: "serve e k = Some (Return r, k1)" "mild k k1" "kinv k1 \<or> \<not> live k1 (cur k1)"
      by (rule serve_step [OF Cons.prems(1,2) _ _ False]) (use Cons.prems in auto)
    have r: "serve_all (take (Suc n) (e # es)) k = serve_all (take n es) k1" for n using s(1) by simp
    show ?thesis
    proof (cases "kinv k1")
      case True
      have "devs_ok (fs k1)" "next_pid k1 + int (length es) < 2 ^ 31"
        using s(2) Cons.prems(2,3) devs_ok_same by (auto simp: mild_def)
      then obtain n k' where n: "n \<le> length es" "serve_all (take n es) k1 = Some k'"
        "kinv k' \<and> (n = length es \<or> stops (es ! n) k') \<or> \<not> live k' (cur k')"
        using Cons.IH [OF True] Cons.prems(4) by auto
      then show ?thesis using r [of n] by (intro exI [of _ "Suc n"] exI [of _ k']) simp
    next
      case dead: False
      then show ?thesis using r [of 0] s(3) by (intro exI [of _ "Suc 0"] exI [of _ k1]) simp
    qed
  qed
qed

text \<open>The boot opens the keyboard and the display, whose entries have no close operation.\<close>

lemma boot_devs_ok: "devs_ok (boot_fs (the (init_filesystem s)))"
proof -
  obtain t where "init_filesystem s = Some t" "operations (dir t 0) = Some 0" "operations (dir t 1) = Some 1"
    "ops t 0 = no_ops\<lparr>sys_read_dev := Some F_sys_read_keyboard\<rparr>" "ops t 1 = no_ops\<lparr>sys_write_dev := Some F_sys_write_console\<rparr>"
    "\<forall>v. 0 \<le> v \<and> v < 15 \<longrightarrow> fdt t v = \<lparr>access_mode = 0, refs = 0, voffset = 0, logic_dev = None\<rparr>"
    by (rule init_filesystem_ok [of s]) (rule that, assumption+)
  then show ?thesis by (auto simp: devs_ok_def boot_fs_def no_ops_def)
qed



end
