(* ===== verification/Stacks.thy ===== *)
theory Stacks
  imports HandlerProps
begin

unbundle bit_operations_syntax

text \<open>
  The addresses behind the indices of the model: \<open>current()\<close> of \<open>zeos/sched.c\<close>, which finds the running process from the stack
  pointer, and \<open>list_entry\<close> of \<open>zeos/include/list.h\<close>, which goes from a list node to the structure around it. Elsewhere the running
  process is the index \<open>cur\<close> and a list node the value \<open>TaskL i\<close>; the lemmas show that the code, which only has addresses, comes
  to the same process.

  The linker places the array \<open>task\<close> at a multiple of the page size (\<open>zeos/system.lds\<close>) and a \<open>protected_task_struct\<close> takes two
  pages, so the union with the \<open>task_struct\<close> and the kernel stack is a page.
\<close>

section \<open>The layout of a task structure\<close>

text \<open>The fields of \<open>struct task_struct\<close> with their sizes; none of them needs padding.\<close>

definition task_struct_fields :: "(string \<times> int) list" where
  "task_struct_fields = [(''pid'', 4), (''quantum'', 4), (''cpu_tics'', 4), (''remaining'', 4), (''transitions'', 4),
     (''ph_pages'', 4 * NUM_PAG_DATA), (''owned_sems'', 4 * SEM_MAX_VALUE), (''run_list'', 8),
     (''pending_chars'', 4), (''size'', 4), (''buffer'', 4), (''file_descriptors'', 4 * MAX_FDS)]"

fun offset_of :: "string \<Rightarrow> (string \<times> int) list \<Rightarrow> int" where
  "offset_of f [] = 0"
| "offset_of f ((g, n) # gs) = (if f = g then 0 else n + offset_of f gs)"

definition size_of :: "(string \<times> int) list \<Rightarrow> int" where
  "size_of gs = sum_list (map snd gs)"

section \<open>From addresses to processes\<close>

definition current_of :: "32 word \<Rightarrow> 32 word" where
  "current_of esp = 0xFFFFF000 AND esp"

definition list_entry :: "32 word \<Rightarrow> string \<Rightarrow> 32 word" where
  "list_entry ptr member = ptr - word_of_int (offset_of member task_struct_fields)"

text \<open>\<open>&task[i].t\<close> and \<open>&task[i].t.task.run_list\<close>.\<close>

definition task_ptr :: "layout \<Rightarrow> int \<Rightarrow> 32 word" where
  "task_ptr l i = word_of_int (stack_addr l i 0)"

definition run_list_ptr :: "layout \<Rightarrow> int \<Rightarrow> 32 word" where
  "run_list_ptr l i = word_of_int (stack_addr l i 0 + offset_of ''run_list'' task_struct_fields)"

section \<open>Pages\<close>

lemma page_mask: "(0xFFFFF000 :: 32 word) = NOT (mask 12)"
  by (simp add: mask_eq_exp_minus_1)

lemma bit_page:
  assumes "0 \<le> x" "x < 4096" "12 \<le> n"
  shows "bit (4096 * q + x :: int) n \<longleftrightarrow> bit q (n - 12)"
proof -
  have "drop_bit 12 (4096 * q + x) = q" using assms by (simp add: drop_bit_eq_div)
  then show ?thesis using assms(3) bit_drop_bit_eq [of 12 "4096 * q + x"] by (metis comp_apply le_add_diff_inverse)
qed

lemma page_start:
  assumes x: "0 \<le> x" "x < 4096"
  shows "0xFFFFF000 AND word_of_int (4096 * q + x) = (word_of_int (4096 * q) :: 32 word)"
proof (rule bit_word_eqI)
  fix n
  assume n: "n < LENGTH(32)"
  have "bit (4096 * q) n \<longleftrightarrow> 12 \<le> n \<and> bit q (n - 12)"
    using bit_push_bit_iff_int [of 12 q n] by (simp add: push_bit_eq_mult mult.commute)
  moreover have "bit (word_of_int y :: 32 word) n \<longleftrightarrow> bit y n" for y using n by (simp add: bit_word_of_int_iff)
  moreover have "bit (0xFFFFF000 AND w :: 32 word) n \<longleftrightarrow> 12 \<le> n \<and> bit w n" for w
    using n unfolding page_mask by (auto simp: bit_simps)
  ultimately show "bit (0xFFFFF000 AND word_of_int (4096 * q + x) :: 32 word) n \<longleftrightarrow> bit (word_of_int (4096 * q) :: 32 word) n"
    using bit_page [OF x, of n q] by blast
qed

lemma stack_addr_page: "4096 dvd task_addr l \<Longrightarrow> \<exists>q. \<forall>i n. stack_addr l i n = 4096 * (q + 2 * i + 1) + 4 * n"
  by (auto simp: stack_addr_def elim!: dvdE)

text \<open>Every stack pointer into the union of process \<open>i\<close> leads to it, down to the last word.\<close>

lemma current_of_stack:
  assumes l: "4096 dvd task_addr l" and b: "0 < b" "b \<le> 4096"
  shows "current_of (word_of_int (stack_addr l i KERNEL_STACK_SIZE) - word_of_int b) = task_ptr l i"
proof -
  obtain q where q: "\<forall>i n. stack_addr l i n = 4096 * (q + 2 * i + 1) + 4 * n" using stack_addr_page [OF l] by blast
  let ?p = "q + 2 * i + 1"
  have "word_of_int (stack_addr l i 1024) - word_of_int b = (word_of_int (stack_addr l i 1024 - b) :: 32 word)" by simp
  also have "stack_addr l i 1024 - b = 4096 * ?p + (4096 - b)" using q by simp
  finally have e: "word_of_int (stack_addr l i 1024) - word_of_int b = (word_of_int (4096 * ?p + (4096 - b)) :: 32 word)" .
  have "current_of (word_of_int (stack_addr l i 1024) - word_of_int b) = word_of_int (4096 * ?p)"
    unfolding current_of_def e by (rule page_start) (use b in simp_all)
  moreover have "stack_addr l i 0 = 4096 * ?p" using q by simp
  ultimately show ?thesis unfolding task_ptr_def by (rule trans [OF _ arg_cong [OF sym]])
qed

lemma uint_in_range: "0 \<le> x \<Longrightarrow> x < 2 ^ 32 \<Longrightarrow> uint (word_of_int x :: 32 word) = x"
  using u32_word [of x] u32_id [of x] by simp

lemma task_ptr_inj:
  assumes l: "0 \<le> task_addr l" "task_addr l + 81920 \<le> 2 ^ 32" and i: "0 \<le> i" "i < 10" "0 \<le> j" "j < 10"
    and e: "task_ptr l i = task_ptr l j"
  shows "i = j"
proof -
  have u: "uint (task_ptr l i) = stack_addr l i 0" if "0 \<le> i" "i < 10" for i
    unfolding task_ptr_def using that l by (intro uint_in_range) (auto simp: stack_addr_def)
  have "stack_addr l i 0 = stack_addr l j 0" using u [OF i(1,2)] u [OF i(3,4)] unfolding e by (rule trans [OF sym])
  then show ?thesis by (simp add: stack_addr_def)
qed

lemma list_entry_run_list: "list_entry (run_list_ptr l i) ''run_list'' = task_ptr l i"
  by (simp add: list_entry_def run_list_ptr_def task_ptr_def)

section \<open>The running process\<close>

text \<open>The words of the kernel stack that lie over the fields of the structure.\<close>

lemma task_struct_size: "size_of task_struct_fields = 264"
  by (simp add: size_of_def task_struct_fields_def)

lemma SAVE_ALL_above: "d \<in> {0, 1} \<Longrightarrow> n < 1007 \<Longrightarrow> stack (task (SAVE_ALL d r k) i) n = stack (task k i) n"
  by (auto simp: SAVE_ALL_def)

text \<open>C18: \<open>current()\<close> always returns a pointer to the structure of the running process. An interrupt or a system call enters the
  kernel on the stack that the TSS names; in every state of the invariant, and however much of that page is in use, masking the
  stack pointer gives the address of the running process's \<open>task_struct\<close> and of no other; \<open>list_entry\<close> goes from its list node
  to the same address; and the context that the entry saves lies above the fields of the structure.\<close>

theorem current_is_running:
  assumes k: "kinv k" and l: "4096 dvd task_addr (lay k)" "0 \<le> task_addr (lay k)" "task_addr (lay k) + 81920 \<le> 2 ^ 32"
    and b: "0 < b" "b \<le> PAGE_SIZE"
  shows "current_of (esp0 (tss (mm k)) - word_of_int b) = task_ptr (lay k) (cur k) \<and>
    (\<forall>i. 0 \<le> i \<and> i < NR_TASKS \<and> task_ptr (lay k) i = current_of (esp0 (tss (mm k)) - word_of_int b) \<longrightarrow> i = cur k) \<and>
    list_entry (run_list_ptr (lay k) (cur k)) ''run_list'' = current_of (esp0 (tss (mm k)) - word_of_int b) \<and>
    (\<forall>d n. d \<in> {0, 1} \<and> 4 * n < size_of task_struct_fields \<longrightarrow> stack (current (SAVE_ALL d r k)) n = stack (current k) n)"
proof -
  have e: "esp0 (tss (mm k)) = word_of_int (stack_addr (lay k) (cur k) 1024)" using k by (simp add: kinv_def esp_ok_def)
  have c: "current_of (esp0 (tss (mm k)) - word_of_int b) = task_ptr (lay k) (cur k)"
    unfolding e using current_of_stack [OF l(1) b] .
  have "0 \<le> cur k" "cur k < 10" using kinv_cur [OF k] by (simp_all add: live_def)
  then have "i = cur k" if "0 \<le> i" "i < 10" "task_ptr (lay k) i = task_ptr (lay k) (cur k)" for i
    using task_ptr_inj [OF l(2,3)] that by blast
  moreover have "cur (SAVE_ALL d r k) = cur k" for d by (simp add: SAVE_ALL_def)
  ultimately show ?thesis unfolding c using list_entry_run_list SAVE_ALL_above [of _ _ r k "cur k"] by (simp add: task_struct_size)
qed

text \<open>After the first fork and a switch to the child, with the context of a system call on its stack.\<close>

theorem current_is_running_witness:
  "cur k_child = 1 \<and> current_of (esp0 (tss (mm k_child)) - 64) = task_ptr (lay k_child) 1"
proof -
  have l: "4096 dvd task_addr (lay k_child)" "0 \<le> task_addr (lay k_child)" "task_addr (lay k_child) + 81920 \<le> 2 ^ 32"
    by (simp_all add: k_child_lay k_boot_lay blank_machine_def blank_kernel_def)
  show ?thesis using current_is_running [OF k_child_inv l, of 64] k_child_cur by simp
qed

end
