(* ===== verification/Monitor.thy ===== *)
theory Monitor
  imports ZPrelude
begin

text \<open>
  The system call monitor (\<open>kernel-module/syscalls_mon.c\<close>): a Linux module that puts traps of its own into the
  system call table and counts, for every thread and for the whole system, the calls, their results and their time.

  The rest of the kernel is not part of the sources and appears as parameters: \<open>find_task\<close> is \<open>find_task_by_pid\<close>, from
  a process identifier to the address of the \<open>thread_info\<close> of its task or NULL (\<open>None\<close>), and \<open>syscall\<close> runs the
  original system call behind a table entry. A system call may block, so anything may happen to the state before it
  returns; the step relation of this theory interleaves the calls of all threads.

  The processor is an i386: \<open>int\<close> and \<open>long\<close> have 32 bits, the counters wrap. A NULL pointer that is dereferenced
  is the result \<open>None\<close>.
\<close>

section \<open>Data\<close>

abbreviation (input) N_CALLS :: int where "N_CALLS \<equiv> 5"
abbreviation (input) OPEN :: int where "OPEN \<equiv> 0"
abbreviation (input) CLOSE :: int where "CLOSE \<equiv> 1"
abbreviation (input) MYWRITE :: int where "MYWRITE \<equiv> 2"
abbreviation (input) CLONE :: int where "CLONE \<equiv> 3"
abbreviation (input) LSEEK :: int where "LSEEK \<equiv> 4"

text \<open>The numbers of the calls in Linux for i386.\<close>

abbreviation (input) NR_open :: int where "NR_open \<equiv> 5"
abbreviation (input) NR_close :: int where "NR_close \<equiv> 6"
abbreviation (input) NR_write :: int where "NR_write \<equiv> 4"
abbreviation (input) NR_clone :: int where "NR_clone \<equiv> 120"
abbreviation (input) NR_lseek :: int where "NR_lseek \<equiv> 19"

record t_info =
  n_calls :: "32 word"
  n_calls_ok :: "32 word"
  n_calls_err :: "32 word"
  total :: "64 word"

text \<open>
  \<open>struct my_thread\<close> lies over the \<open>thread_info\<close> of a thread, at the bottom of its kernel stack; of the
  \<open>thread_info\<close> the module uses the process identifier of its task. The field \<open>pid\<close> is \<open>my_pid\<close>.
\<close>

record my_thread =
  info_th :: int
  stats :: "t_info arr"
  my_pid :: int

text \<open>Entries of the system call table: a routine of the kernel at an address, or one of the traps.\<close>

datatype fptr = Native int | Sys_open_local | Sys_close_local | Sys_write_local | Sys_clone_local | Sys_lseek_local

text \<open>An argument of \<open>printk\<close>, for the conversions \<open>%i\<close> and \<open>%lld\<close>.\<close>

datatype printk_arg = I "32 word" | LLD "64 word"

record monitor =
  sys_call_table :: "fptr arr"
  sys_call_table_original :: "fptr arr"
  sys_call_table_local :: "fptr arr"
  syscall_info_table :: "t_info arr"
  thread :: "int \<Rightarrow> my_thread"
  pid_init :: int
  module_refs :: int
  tsc :: "64 word"
  klog :: "(string \<times> printk_arg list) list"

definition local_to_sys_index :: "int arr" where
  "local_to_sys_index i =
     (if i = 0 then NR_open else if i = 1 then NR_close else if i = 2 then NR_write else if i = 3 then NR_clone else NR_lseek)"

section \<open>Time stamps\<close>

text \<open>\<open>rdtsc\<close> gives the low and the high half of the counter of the processor.\<close>

definition rdtsc :: "monitor \<Rightarrow> 32 word \<times> 32 word" where
  "rdtsc s = (ucast (tsc s), ucast (drop_bit 32 (tsc s)))"

definition proso_get_cycles :: "monitor \<Rightarrow> 64 word" where
  "proso_get_cycles s = (let (eax, edx) = rdtsc s in push_bit 32 (ucast edx) + ucast eax)"

section \<open>Statistics of a thread\<close>

definition zero_info :: t_info where
  "zero_info = \<lparr>n_calls = 0, n_calls_ok = 0, n_calls_err = 0, total = 0\<rparr>"

definition reset_stats :: "int \<Rightarrow> int \<Rightarrow> monitor \<Rightarrow> monitor" where
  "reset_stats p th s =
     (let t = (thread s th)\<lparr>my_pid := p\<rparr>;
          t = for_to 0 (N_CALLS + 1) (\<lambda>i t. t\<lparr>stats := (stats t)(i := zero_info)\<rparr>) t
      in s\<lparr>thread := (thread s)(th := t)\<rparr>)"

text \<open>The same change in the three entries that a call counts in: the thread's for the call, the global one for the
  call, and the thread's for all calls.\<close>

definition upd_stat :: "int \<Rightarrow> int \<Rightarrow> (t_info \<Rightarrow> t_info) \<Rightarrow> monitor \<Rightarrow> monitor" where
  "upd_stat th i f s =
     s\<lparr>thread := (thread s)(th := (thread s th)\<lparr>stats := (stats (thread s th))(i := f (stats (thread s th) i))\<rparr>)\<rparr>"

definition upd_global :: "int \<Rightarrow> (t_info \<Rightarrow> t_info) \<Rightarrow> monitor \<Rightarrow> monitor" where
  "upd_global i f s = s\<lparr>syscall_info_table := (syscall_info_table s)(i := f (syscall_info_table s i))\<rparr>"

definition upd_three :: "int \<Rightarrow> int \<Rightarrow> (t_info \<Rightarrow> t_info) \<Rightarrow> monitor \<Rightarrow> monitor" where
  "upd_three th call f s = upd_stat th N_CALLS f (upd_global call f (upd_stat th call f s))"

section \<open>The traps\<close>

text \<open>A trap up to the original call: the module is referenced, statistics of another process are reset, the call is
  counted, and the time is taken.\<close>

definition trap_enter :: "int \<Rightarrow> int \<Rightarrow> monitor \<Rightarrow> 64 word \<times> monitor" where
  "trap_enter call th s =
     (let s = s\<lparr>module_refs := module_refs s + 1\<rparr>;
          p = info_th (thread s th);
          s = (if p \<noteq> my_pid (thread s th) then reset_stats p th s else s);
          s = upd_three th call (\<lambda>t. t\<lparr>n_calls := n_calls t + 1\<rparr>) s
      in (proso_get_cycles s, s))"

text \<open>The rest of a trap, from the return of the original call.\<close>

definition trap_leave :: "int \<Rightarrow> int \<Rightarrow> 64 word \<Rightarrow> 32 word \<Rightarrow> monitor \<Rightarrow> monitor" where
  "trap_leave call th start result s =
     (let stop = proso_get_cycles s;
          s = (if 0 \<le> sint result then upd_three th call (\<lambda>t. t\<lparr>n_calls_ok := n_calls_ok t + 1\<rparr>) s
               else upd_three th call (\<lambda>t. t\<lparr>n_calls_err := n_calls_err t + 1\<rparr>) s);
          s = upd_three th call (\<lambda>t. t\<lparr>total := total t + (stop - start)\<rparr>) s
      in s\<lparr>module_refs := module_refs s - 1\<rparr>)"

type_synonym linux_call = "fptr \<Rightarrow> 32 word list \<Rightarrow> monitor \<Rightarrow> 32 word \<times> monitor"

definition trap :: "int \<Rightarrow> linux_call \<Rightarrow> 32 word list \<Rightarrow> int \<Rightarrow> monitor \<Rightarrow> 32 word \<times> monitor" where
  "trap call syscall args th s =
     (let f = sys_call_table_original s call;
          (start, s) = trap_enter call th s;
          (result, s) = syscall f args s
      in (result, trap_leave call th start result s))"

definition sys_open_local :: "linux_call \<Rightarrow> 32 word \<Rightarrow> 32 word \<Rightarrow> 32 word \<Rightarrow> int \<Rightarrow> monitor \<Rightarrow> 32 word \<times> monitor" where
  "sys_open_local syscall filename flags mode = trap OPEN syscall [filename, flags, mode]"

definition sys_close_local :: "linux_call \<Rightarrow> 32 word \<Rightarrow> int \<Rightarrow> monitor \<Rightarrow> 32 word \<times> monitor" where
  "sys_close_local syscall fd = trap CLOSE syscall [fd]"

definition sys_write_local :: "linux_call \<Rightarrow> 32 word \<Rightarrow> 32 word \<Rightarrow> 32 word \<Rightarrow> int \<Rightarrow> monitor \<Rightarrow> 32 word \<times> monitor" where
  "sys_write_local syscall fd buf cnt = trap MYWRITE syscall [fd, buf, cnt]"

text \<open>\<open>struct pt_regs\<close> is passed by value, as the words of the saved registers.\<close>

definition sys_clone_local :: "linux_call \<Rightarrow> 32 word list \<Rightarrow> int \<Rightarrow> monitor \<Rightarrow> 32 word \<times> monitor" where
  "sys_clone_local syscall pt_regs = trap CLONE syscall pt_regs"

definition sys_lseek_local :: "linux_call \<Rightarrow> 32 word \<Rightarrow> 32 word \<Rightarrow> 32 word \<Rightarrow> int \<Rightarrow> monitor \<Rightarrow> 32 word \<times> monitor" where
  "sys_lseek_local syscall fd offset origin = trap LSEEK syscall [fd, offset, origin]"

text \<open>
  The entry code of Linux calls the routine in the system call table with the registers as its arguments; the traps
  take as many of them as they have parameters.
\<close>

definition call_entry :: "fptr \<Rightarrow> linux_call \<Rightarrow> 32 word list \<Rightarrow> int \<Rightarrow> monitor \<Rightarrow> 32 word \<times> monitor" where
  "call_entry f syscall args th s =
     (case f of
        Native a \<Rightarrow> syscall f args s
      | Sys_open_local \<Rightarrow> sys_open_local syscall (args ! 0) (args ! 1) (args ! 2) th s
      | Sys_close_local \<Rightarrow> sys_close_local syscall (args ! 0) th s
      | Sys_write_local \<Rightarrow> sys_write_local syscall (args ! 0) (args ! 1) (args ! 2) th s
      | Sys_clone_local \<Rightarrow> sys_clone_local syscall args th s
      | Sys_lseek_local \<Rightarrow> sys_lseek_local syscall (args ! 0) (args ! 1) (args ! 2) th s)"

section \<open>The system call table\<close>

definition set_mon_on_syscall :: "int \<Rightarrow> monitor \<Rightarrow> monitor option" where
  "set_mon_on_syscall call_index s = do {
     i \<leftarrow> rd N_CALLS local_to_sys_index call_index;
     f \<leftarrow> rd N_CALLS (sys_call_table_local s) call_index;
     Some (s\<lparr>sys_call_table := (sys_call_table s)(i := f)\<rparr>)
   }"

definition unset_mon_on_syscall :: "int \<Rightarrow> monitor \<Rightarrow> monitor option" where
  "unset_mon_on_syscall call_index s = do {
     i \<leftarrow> rd N_CALLS local_to_sys_index call_index;
     f \<leftarrow> rd N_CALLS (sys_call_table_original s) call_index;
     Some (s\<lparr>sys_call_table := (sys_call_table s)(i := f)\<rparr>)
   }"

section \<open>Reports\<close>

abbreviation nl :: string where "nl \<equiv> [CHR 0x0A]"
abbreviation KERN_DEBUG :: string where "KERN_DEBUG \<equiv> ''<7>''"

definition printk_line :: "string \<Rightarrow> printk_arg list \<Rightarrow> monitor \<Rightarrow> monitor" where
  "printk_line fmt args s = s\<lparr>klog := klog s @ [(fmt, args)]\<rparr>"

text \<open>The four lines on one entry; the first one names the call.\<close>

definition print_info :: "string \<Rightarrow> t_info \<Rightarrow> monitor \<Rightarrow> monitor" where
  "print_info first t s =
     (let s = printk_line (first @ nl) [I (n_calls t)] s;
          s = printk_line (''# OK returned     : %i'' @ nl) [I (n_calls_ok t)] s;
          s = printk_line (''# ERR returned    : %i'' @ nl) [I (n_calls_err t)] s
      in printk_line (''Total exec. time  : %lld'' @ nl @ nl) [LLD (total t)] s)"

definition print_total_sys_stats :: "monitor \<Rightarrow> monitor" where
  "print_total_sys_stats s =
     (let s = printk_line (''    -- SysCalls Dumb Monitor --'' @ nl) [] s;
          s = printk_line ('' Global statistics for System Calls'' @ nl) [] s;
          s = printk_line (''    -------------'' @ nl @ nl) [] s;
          s = print_info ''# OPEN Calls      : %i'' (syscall_info_table s OPEN) s;
          s = print_info ''# CLOSE Calls     : %i'' (syscall_info_table s CLOSE) s;
          s = print_info ''# WRITE Calls     : %i'' (syscall_info_table s MYWRITE) s;
          s = print_info ''# CLONE Calls     : %i'' (syscall_info_table s CLONE) s;
          s = print_info ''# LSEEK Calls     : %i'' (syscall_info_table s LSEEK) s
      in printk_line (''    -------------'' @ nl) [] s)"

text \<open>The test \<open>task_pid >= 0\<close> compares a pointer and always holds: without the process, NULL is dereferenced.\<close>

definition print_stats :: "(int \<Rightarrow> int option) \<Rightarrow> int \<Rightarrow> monitor \<Rightarrow> monitor option" where
  "print_stats find_task p s = do {
     let s = printk_line (''    -- SysCalls Dumb Monitor --'' @ nl) [] s;
     let s = printk_line (''PID               : %i'' @ nl) [I (word_of_int p)] s;
     let s = printk_line (''    -------------'' @ nl) [] s;
     th \<leftarrow> find_task p;
     let t = stats (thread s th) N_CALLS;
     let s = printk_line (''# TOTAL Calls     : %i'' @ nl) [I (n_calls t)] s;
     let s = printk_line (''# OK  returned    : %i'' @ nl) [I (n_calls_ok t)] s;
     let s = printk_line (''# ERR returned    : %i'' @ nl) [I (n_calls_err t)] s;
     let s = printk_line (''Total exec. time  : %lld'' @ nl) [LLD (total t)] s;
     let s = printk_line (''    -------------'' @ nl @ nl) [] s;
     let s = print_info ''# OPEN Calls      : %i'' (stats (thread s th) OPEN) s;
     let s = print_info ''# CLOSE Calls     : %i'' (stats (thread s th) CLOSE) s;
     let s = print_info ''# WRITE Calls     : %i'' (stats (thread s th) MYWRITE) s;
     let s = print_info ''# CLONE Calls     : %i'' (stats (thread s th) CLONE) s;
     let s = print_info ''# LSEEK Calls     : %i'' (stats (thread s th) LSEEK) s;
     Some (printk_line (''    -------------'' @ nl) [] s)
   }"

section \<open>Reading the statistics\<close>

abbreviation (input) L_EINVAL :: int where "L_EINVAL \<equiv> 22"
abbreviation (input) L_ESRCH :: int where "L_ESRCH \<equiv> 3"

text \<open>The result and the contents of \<open>*stats\<close> afterwards.\<close>

definition get_stats :: "(int \<Rightarrow> int option) \<Rightarrow> int \<Rightarrow> int \<Rightarrow> t_info \<Rightarrow> monitor \<Rightarrow> int \<times> t_info" where
  "get_stats find_task p call out s =
     (if call < 0 \<or> call > N_CALLS then (- L_EINVAL, out)
      else if p < 0 then (- L_EINVAL, out)
      else case find_task p of
        None \<Rightarrow> (- L_ESRCH, out)
      | Some th \<Rightarrow>
          let task_stats = stats (thread s th) call
          in (0, out\<lparr>n_calls := n_calls task_stats, n_calls_ok := n_calls_ok task_stats,
                     n_calls_err := n_calls_err task_stats, total := total task_stats\<rparr>))"

section \<open>Loading and unloading\<close>

definition syscalls_mon_init :: "(int \<Rightarrow> int option) \<Rightarrow> monitor \<Rightarrow> (int \<times> monitor) option" where
  "syscalls_mon_init find_task s = do {
     let s = s\<lparr>sys_call_table_original := (sys_call_table_original s)
        (OPEN := sys_call_table s NR_open, CLOSE := sys_call_table s NR_close, MYWRITE := sys_call_table s NR_write,
         CLONE := sys_call_table s NR_clone, LSEEK := sys_call_table s NR_lseek)\<rparr>;
     let s = s\<lparr>sys_call_table_local := (sys_call_table_local s)
        (OPEN := Sys_open_local, CLOSE := Sys_close_local, MYWRITE := Sys_write_local,
         CLONE := Sys_clone_local, LSEEK := Sys_lseek_local)\<rparr>;
     let s = s\<lparr>sys_call_table := (sys_call_table s)
        (NR_open := sys_call_table_local s OPEN, NR_close := sys_call_table_local s CLOSE,
         NR_write := sys_call_table_local s MYWRITE, NR_clone := sys_call_table_local s CLONE,
         NR_lseek := sys_call_table_local s LSEEK)\<rparr>;
     let (t, s) = (case find_task (pid_init s) of
         Some th \<Rightarrow> (Some th, s)
       | None \<Rightarrow>
           let s = s\<lparr>pid_init := 1\<rparr>;
               t = find_task (pid_init s)
           in (t, printk_line (KERN_DEBUG @ ''No such process for the specified PID...I'' @ [CHR 0x27] @
                    ''ll use default value (1).'' @ nl) [] s));
     th \<leftarrow> t;
     let s = reset_stats (pid_init s) th s;
     Some (0, printk_line (KERN_DEBUG @ ''SysCalls Monitor successfully loaded on PID=%i'' @ nl) [I (word_of_int (pid_init s))] s)
   }"

definition syscalls_mon_exit :: "(int \<Rightarrow> int option) \<Rightarrow> monitor \<Rightarrow> monitor option" where
  "syscalls_mon_exit find_task s = do {
     let s = s\<lparr>sys_call_table := (sys_call_table s)
        (NR_open := sys_call_table_original s OPEN, NR_close := sys_call_table_original s CLOSE,
         NR_write := sys_call_table_original s MYWRITE, NR_clone := sys_call_table_original s CLONE,
         NR_lseek := sys_call_table_original s LSEEK)\<rparr>;
     s \<leftarrow> (case find_task (pid_init s) of
         None \<Rightarrow> Some (printk_line (KERN_DEBUG @ ''PID %i doesn'' @ [CHR 0x27] @
             ''t exist anymore. No statistics will be printed.'' @ nl) [I (word_of_int (pid_init s))] s)
       | Some t \<Rightarrow> do {
           let s = printk_line (KERN_DEBUG @ ''Statistics for specified process:'' @ nl) [] s;
           s \<leftarrow> print_stats find_task (pid_init s) s;
           let s = printk_line (KERN_DEBUG @ nl @ nl @ ''GLOBAL Statistics:'' @ nl) [] s;
           Some (print_total_sys_stats s)
         });
     Some (printk_line (KERN_DEBUG @ ''Syscalls Monitor unloaded.'' @ nl) [] s)
   }"

section \<open>Effect of the traps\<close>

lemma ucast_halves: "ucast (ucast (x :: 64 word) :: 32 word) = take_bit 32 x"
  "take_bit 32 (drop_bit 32 x) = drop_bit 32 (x :: 64 word)"
  by (rule bit_word_eqI; auto simp: bit_simps dest: bit_imp_le_length)+

lemma proso_get_cycles_tsc [simp]: "proso_get_cycles s = tsc s"
  by (simp add: proso_get_cycles_def rdtsc_def ucast_halves bits_ident)

text \<open>Entries are added field by field.\<close>

definition info_add :: "t_info \<Rightarrow> t_info \<Rightarrow> t_info" where
  "info_add a b = \<lparr>n_calls = n_calls a + n_calls b, n_calls_ok = n_calls_ok a + n_calls_ok b,
     n_calls_err = n_calls_err a + n_calls_err b, total = total a + total b\<rparr>"

lemma info_add_simps [simp]:
  "n_calls (info_add a b) = n_calls a + n_calls b" "n_calls_ok (info_add a b) = n_calls_ok a + n_calls_ok b"
  "n_calls_err (info_add a b) = n_calls_err a + n_calls_err b" "total (info_add a b) = total a + total b"
  "n_calls zero_info = 0" "n_calls_ok zero_info = 0" "n_calls_err zero_info = 0" "total zero_info = 0"
  by (simp_all add: info_add_def zero_info_def)

lemma info_eqI: "n_calls a = n_calls b \<Longrightarrow> n_calls_ok a = n_calls_ok b \<Longrightarrow> n_calls_err a = n_calls_err b \<Longrightarrow> total a = total b \<Longrightarrow> a = (b :: t_info)"
  by simp

lemma info_add_ac: "info_add (info_add a b) c = info_add a (info_add b c)" "info_add a b = info_add b a"
  "info_add b (info_add a c) = info_add a (info_add b c)"
  by (rule info_eqI; simp add: algebra_simps)+

text \<open>What a call adds when it starts and when it ends.\<close>

definition one_call :: t_info where
  "one_call = zero_info\<lparr>n_calls := 1\<rparr>"

definition one_result :: "32 word \<Rightarrow> 64 word \<Rightarrow> t_info" where
  "one_result r d = \<lparr>n_calls = 0, n_calls_ok = (if 0 \<le> sint r then 1 else 0), n_calls_err = (if 0 \<le> sint r then 0 else 1), total = d\<rparr>"

definition add_three :: "int \<Rightarrow> int \<Rightarrow> t_info \<Rightarrow> monitor \<Rightarrow> monitor" where
  "add_three th c d s = s\<lparr>syscall_info_table := (syscall_info_table s)(c := info_add (syscall_info_table s c) d),
     thread := (thread s)(th := (thread s th)\<lparr>stats := (stats (thread s th))
       (c := info_add (stats (thread s th) c) d, N_CALLS := info_add (stats (thread s th) N_CALLS) d)\<rparr>)\<rparr>"

lemma upd_three_add: "c \<noteq> N_CALLS \<Longrightarrow> (\<And>t. f t = info_add t d) \<Longrightarrow> upd_three th c f s = add_three th c d s"
  by (simp add: upd_three_def upd_stat_def upd_global_def add_three_def fun_upd_twist)

lemma add_three_twice: "c \<noteq> N_CALLS \<Longrightarrow> add_three th c d (add_three th c e s) = add_three th c (info_add e d) s"
  by (simp add: add_three_def info_add_ac(1) fun_upd_twist)

lemma reset_stats_eq:
  "reset_stats p th s = s\<lparr>thread := (thread s)(th :=
     (thread s th)\<lparr>my_pid := p, stats := (\<lambda>i. if 0 \<le> i \<and> i < 6 then zero_info else stats (thread s th) i)\<rparr>)\<rparr>"
proof -
  have "for_to i n (\<lambda>i t. t\<lparr>stats := (stats t)(i := zero_info)\<rparr>) t = t\<lparr>stats := for_to i n (\<lambda>k a. a(k := zero_info)) (stats t)\<rparr>"
    for i n and t :: my_thread
  proof (induction "nat (n - i)" arbitrary: i t)
    case (Suc m)
    then show ?case by (simp add: for_to_step)
  qed simp
  then show ?thesis by (simp add: reset_stats_def for_to_fill Let_def cong: if_cong)
qed

text \<open>A thread is valid when its statistics are those of its process; entering a trap makes it valid.\<close>

definition valid :: "my_thread \<Rightarrow> bool" where
  "valid t \<longleftrightarrow> my_pid t = info_th t"

definition validated :: "int \<Rightarrow> monitor \<Rightarrow> monitor" where
  "validated th s = (if valid (thread s th) then s else reset_stats (info_th (thread s th)) th s)"

lemma trap_enter_eq:
  assumes "c \<noteq> N_CALLS"
  shows "trap_enter c th s = (tsc s, add_three th c one_call (validated th (s\<lparr>module_refs := module_refs s + 1\<rparr>)))"
proof -
  have "upd_three th c (\<lambda>t. t\<lparr>n_calls := n_calls t + 1\<rparr>) s' = add_three th c one_call s'" for s'
    by (rule upd_three_add [OF assms]) (simp add: info_add_def one_call_def)
  moreover have "tsc (add_three th c one_call (validated th (s\<lparr>module_refs := x\<rparr>))) = tsc s" for x
    by (simp add: add_three_def validated_def reset_stats_eq)
  moreover have "(if info_th (thread s' th) \<noteq> my_pid (thread s' th) then reset_stats (info_th (thread s' th)) th s' else s') = validated th s'" for s'
    by (auto simp: validated_def valid_def)
  ultimately show ?thesis by (simp add: trap_enter_def Let_def)
qed

lemma trap_leave_eq:
  assumes "c \<noteq> N_CALLS"
  shows "trap_leave c th start r s =
    (add_three th c (one_result r (tsc s - start)) s)\<lparr>module_refs := module_refs s - 1\<rparr>"
proof -
  let ?ok = "zero_info\<lparr>n_calls_ok := 1\<rparr>" and ?err = "zero_info\<lparr>n_calls_err := 1\<rparr>" and ?t = "zero_info\<lparr>total := tsc s - start\<rparr>"
  have "upd_three th c (\<lambda>t. t\<lparr>n_calls_ok := n_calls_ok t + 1\<rparr>) s' = add_three th c ?ok s'"
    "upd_three th c (\<lambda>t. t\<lparr>n_calls_err := n_calls_err t + 1\<rparr>) s' = add_three th c ?err s'"
    "upd_three th c (\<lambda>t. t\<lparr>total := total t + (tsc s - start)\<rparr>) s' = add_three th c ?t s'" for s'
    by (rule upd_three_add [OF assms]; simp add: info_add_def)+
  moreover have "info_add ?ok ?t = one_result r (tsc s - start)" if "0 \<le> sint r"
    using that by (simp add: info_add_def one_result_def)
  moreover have "info_add ?err ?t = one_result r (tsc s - start)" if "\<not> 0 \<le> sint r"
    using that by (simp add: info_add_def one_result_def)
  moreover have "module_refs (add_three th c d s) = module_refs s" for d by (simp add: add_three_def)
  ultimately show ?thesis by (simp add: trap_leave_def Let_def add_three_twice [OF assms])
qed

section \<open>Runs\<close>

text \<open>
  A run of the loaded monitor: \<open>act\<close> holds, for every thread inside a trap, the local variables of the trap (its
  call and its start time). \<open>lost\<close> only serves the statements: the call of the thread that was running when its
  statistics were last reset. A new thread comes with whatever its stack held, which is not a valid
  record of the new process.
\<close>

record mon_run =
  mon :: monitor
  act :: "int \<Rightarrow> (int \<times> 64 word) option"
  lost :: "int \<Rightarrow> int option"

definition trap_of :: "int \<Rightarrow> fptr" where
  "trap_of c = (if c = 0 then Sys_open_local else if c = 1 then Sys_close_local else if c = 2 then Sys_write_local
     else if c = 3 then Sys_clone_local else Sys_lseek_local)"

abbreviation call_ok :: "int \<Rightarrow> bool" where "call_ok c \<equiv> 0 \<le> c \<and> c < 5"

inductive mon_step :: "mon_run \<Rightarrow> mon_run \<Rightarrow> bool" where
  enter: "act r th = None \<Longrightarrow> call_ok c \<Longrightarrow> sys_call_table (mon r) (local_to_sys_index c) = trap_of c \<Longrightarrow>
    trap_enter c th (mon r) = (start, s) \<Longrightarrow>
    mon_step r (r\<lparr>mon := s, act := (act r)(th \<mapsto> (c, start)),
      lost := (if valid (thread (mon r) th) then lost r else (lost r)(th := None))\<rparr>)"
| leave: "act r th = Some (c, start) \<Longrightarrow>
    mon_step r (r\<lparr>mon := trap_leave c th start result (mon r), act := (act r)(th := None)\<rparr>)"
| tick: "mon_step r (r\<lparr>mon := (mon r)\<lparr>tsc := t\<rparr>\<rparr>)"
| set_mon: "set_mon_on_syscall c (mon r) = Some s \<Longrightarrow> mon_step r (r\<lparr>mon := s\<rparr>)"
| unset_mon: "unset_mon_on_syscall c (mon r) = Some s \<Longrightarrow> mon_step r (r\<lparr>mon := s\<rparr>)"
| reset: "mon_step r (r\<lparr>mon := reset_stats (info_th (thread (mon r) th)) th (mon r),
      lost := (lost r)(th := map_option fst (act r th))\<rparr>)"
| new_thread: "act r th = None \<Longrightarrow> \<not> valid t \<Longrightarrow>
    mon_step r (r\<lparr>mon := (mon r)\<lparr>thread := (thread (mon r))(th := t)\<rparr>\<rparr>)"

text \<open>The invariant. In an entry, the calls are the results plus the calls still running; in the entry of a thread that
  was reset while a call was running, one less. The entry for all calls of a thread is the sum of the others.\<close>

definition running :: "mon_run \<Rightarrow> int \<Rightarrow> int set" where
  "running r c = {th. \<exists>st. act r th = Some (c, st)}"

definition entry_ok :: "t_info \<Rightarrow> 32 word \<Rightarrow> bool" where
  "entry_ok t d \<longleftrightarrow> n_calls t = n_calls_ok t + n_calls_err t + d"

definition sum_ok :: "my_thread \<Rightarrow> bool" where
  "sum_ok t \<longleftrightarrow> stats t 5 = info_add (stats t 0) (info_add (stats t 1) (info_add (stats t 2) (info_add (stats t 3) (stats t 4))))"

definition pending :: "mon_run \<Rightarrow> int \<Rightarrow> int \<Rightarrow> 32 word" where
  "pending r th c = (if th \<in> running r c then 1 else 0) - (if lost r th = Some c then 1 else 0)"

definition books :: "my_thread \<Rightarrow> (int \<Rightarrow> 32 word) \<Rightarrow> bool" where
  "books t p \<longleftrightarrow> sum_ok t \<and> (\<forall>c. call_ok c \<longrightarrow> entry_ok (stats t c) (p c))"

definition counts_ok :: "mon_run \<Rightarrow> bool" where
  "counts_ok r \<longleftrightarrow> finite (dom (act r)) \<and> module_refs (mon r) = int (card (dom (act r))) \<and>
     (\<forall>c. call_ok c \<longrightarrow> entry_ok (syscall_info_table (mon r) c) (of_nat (card (running r c)))) \<and>
     (\<forall>th c st. act r th = Some (c, st) \<longrightarrow> call_ok c \<and> valid (thread (mon r) th)) \<and>
     (\<forall>th. valid (thread (mon r) th) \<longrightarrow> books (thread (mon r) th) (pending r th))"

definition table_ok :: "fptr arr \<Rightarrow> monitor \<Rightarrow> bool" where
  "table_ok orig s \<longleftrightarrow> (\<forall>c. call_ok c \<longrightarrow> sys_call_table_original s c = orig (local_to_sys_index c) \<and>
       sys_call_table_local s c = trap_of c \<and> sys_call_table s (local_to_sys_index c) \<in> {orig (local_to_sys_index c), trap_of c}) \<and>
     (\<forall>i. i \<notin> local_to_sys_index ` {0..<5} \<longrightarrow> sys_call_table s i = orig i)"

lemma calls_set: "{0..<5 :: int} = {0, 1, 2, 3, 4}" by auto

lemma call_cases: "call_ok c \<Longrightarrow> c \<in> {0, 1, 2, 3, 4}" by auto

lemma l2s_inj: "0 \<le> c \<Longrightarrow> c < 5 \<Longrightarrow> 0 \<le> d \<Longrightarrow> d < 5 \<Longrightarrow> local_to_sys_index c = local_to_sys_index d \<longleftrightarrow> c = d"
  using call_cases [of c] call_cases [of d] by (auto simp: local_to_sys_index_def)

lemma set_mon_eq: "set_mon_on_syscall c s = Some s' \<longleftrightarrow>
    call_ok c \<and> s' = s\<lparr>sys_call_table := (sys_call_table s)(local_to_sys_index c := sys_call_table_local s c)\<rparr>"
  "unset_mon_on_syscall c s = Some s' \<longleftrightarrow>
    call_ok c \<and> s' = s\<lparr>sys_call_table := (sys_call_table s)(local_to_sys_index c := sys_call_table_original s c)\<rparr>"
  by (auto simp: set_mon_on_syscall_def unset_mon_on_syscall_def bind_eq_Some_conv dest: rd_SomeD)

lemma table_ok_entry:
  assumes "table_ok orig s" "call_ok c" "f = trap_of c \<or> f = orig (local_to_sys_index c)"
  shows "table_ok orig (s\<lparr>sys_call_table := (sys_call_table s)(local_to_sys_index c := f)\<rparr>)"
  using assms unfolding table_ok_def by (auto simp: l2s_inj)

lemma table_ok_cong: "table_ok orig s \<Longrightarrow> sys_call_table s' = sys_call_table s \<Longrightarrow>
    sys_call_table_original s' = sys_call_table_original s \<Longrightarrow> sys_call_table_local s' = sys_call_table_local s \<Longrightarrow> table_ok orig s'"
  by (simp add: table_ok_def)

lemma tables_kept [simp]:
  "sys_call_table (add_three th c d s) = sys_call_table s" "sys_call_table_original (add_three th c d s) = sys_call_table_original s"
  "sys_call_table_local (add_three th c d s) = sys_call_table_local s"
  "sys_call_table (validated th s) = sys_call_table s" "sys_call_table_original (validated th s) = sys_call_table_original s"
  "sys_call_table_local (validated th s) = sys_call_table_local s"
  "sys_call_table (reset_stats p th s) = sys_call_table s" "sys_call_table_original (reset_stats p th s) = sys_call_table_original s"
  "sys_call_table_local (reset_stats p th s) = sys_call_table_local s"
  by (simp_all add: add_three_def validated_def reset_stats_eq)

lemma entry_ok_add:
  "entry_ok t q \<Longrightarrow> entry_ok (info_add t one_call) (q + 1)" "entry_ok t q \<Longrightarrow> entry_ok (info_add t (one_result r d)) (q - 1)"
  by (simp_all add: entry_ok_def one_call_def one_result_def)

lemma books_add:
  assumes b: "books t p" and c: "call_ok c" and d: "\<And>x q. entry_ok x q \<Longrightarrow> entry_ok (info_add x d) (q + e)"
  shows "books (t\<lparr>stats := (stats t)(c := info_add (stats t c) d, 5 := info_add (stats t 5) d)\<rparr>) (p(c := p c + e))"
proof -
  have "sum_ok (t\<lparr>stats := (stats t)(c := info_add (stats t c) d, 5 := info_add (stats t 5) d)\<rparr>)"
    using b call_cases [OF c] by (auto simp: books_def sum_ok_def info_add_ac)
  then show ?thesis using b c d by (auto simp: books_def)
qed

lemma books_zero: "(\<And>i. 0 \<le> i \<Longrightarrow> i < 6 \<Longrightarrow> stats t i = zero_info) \<Longrightarrow> books t (\<lambda>_. 0)"
  by (simp add: books_def sum_ok_def entry_ok_def info_eqI)

lemma books_cong: "books t p \<Longrightarrow> (\<And>c. call_ok c \<Longrightarrow> p c = q c) \<Longrightarrow> books t q"
  by (simp add: books_def)

lemma reset_stats_simps [simp]:
  "thread (reset_stats p th s) x = (if x = th then (thread s th)\<lparr>my_pid := p,
     stats := (\<lambda>i. if 0 \<le> i \<and> i < 6 then zero_info else stats (thread s th) i)\<rparr> else thread s x)"
  "syscall_info_table (reset_stats p th s) = syscall_info_table s" "module_refs (reset_stats p th s) = module_refs s"
  by (simp_all add: reset_stats_eq)

lemma validated_simps [simp]:
  "valid (thread (validated th s) th)" "x \<noteq> th \<Longrightarrow> thread (validated th s) x = thread s x"
  "syscall_info_table (validated th s) = syscall_info_table s" "module_refs (validated th s) = module_refs s"
  by (simp_all add: validated_def valid_def)

lemma validated_books:
  "(valid (thread s th) \<Longrightarrow> books (thread s th) p) \<Longrightarrow> books (thread (validated th s) th) (if valid (thread s th) then p else (\<lambda>_. 0))"
  by (auto simp: validated_def intro: books_zero)

lemma add_three_simps [simp]:
  "thread (add_three th c d s) x = (if x = th then (thread s th)\<lparr>stats := (stats (thread s th))
     (c := info_add (stats (thread s th) c) d, N_CALLS := info_add (stats (thread s th) N_CALLS) d)\<rparr> else thread s x)"
  "syscall_info_table (add_three th c d s) = (syscall_info_table s)(c := info_add (syscall_info_table s c) d)"
  "module_refs (add_three th c d s) = module_refs s"
  by (simp_all add: add_three_def)

lemma valid_stats [simp]: "valid (t\<lparr>stats := f\<rparr>) = valid t" "valid (t\<lparr>my_pid := info_th t, stats := f\<rparr>)"
  by (simp_all add: valid_def)

lemma running_finite: "finite (dom (act r)) \<Longrightarrow> finite (running r c)"
  by (rule finite_subset [of _ "dom (act r)"]) (auto simp: running_def)

lemma running_enter:
  assumes "act r th = None" "act r' = (act r)(th \<mapsto> (c, st))"
  shows "running r' d = (if d = c then insert th (running r c) else running r d)" "th \<notin> running r d"
  using assms by (auto simp: running_def)

lemma running_leave:
  assumes "act r th = Some (c, st)" "act r' = (act r)(th := None)"
  shows "running r' d = running r d - {th}" "th \<in> running r d \<longleftrightarrow> d = c"
  using assms by (auto simp: running_def)

lemma counts_okD:
  assumes "counts_ok r"
  shows "finite (dom (act r))" "module_refs (mon r) = int (card (dom (act r)))"
    "call_ok c \<Longrightarrow> entry_ok (syscall_info_table (mon r) c) (of_nat (card (running r c)))"
    "act r th = Some (c, st) \<Longrightarrow> call_ok c \<and> valid (thread (mon r) th)"
    "valid (thread (mon r) th) \<Longrightarrow> books (thread (mon r) th) (pending r th)"
  using assms unfolding counts_ok_def by blast+

lemma counts_enter:
  assumes k: "counts_ok r" and a: "act r th = None" and c: "call_ok c" and e: "trap_enter c th (mon r) = (start, s)"
    and r': "mon r' = s" "act r' = (act r)(th \<mapsto> (c, start))"
      "lost r' = (if valid (thread (mon r) th) then lost r else (lost r)(th := None))"
  shows "counts_ok r'"
proof -
  define s0 where "s0 = validated th ((mon r)\<lparr>module_refs := module_refs (mon r) + 1\<rparr>)"
  have s: "s = add_three th c one_call s0" using e c by (simp add: trap_enter_eq s0_def)
  note D = counts_okD [OF k]
  have b0: "books (thread s0 th) (pending (r\<lparr>lost := lost r'\<rparr>) th)"
  proof -
    have "books (thread s0 th) (if valid (thread (mon r) th) then pending r th else (\<lambda>_. 0))"
      unfolding s0_def using validated_books [of "(mon r)\<lparr>module_refs := module_refs (mon r) + 1\<rparr>" th] D(5) by simp
    then show ?thesis by (rule books_cong) (simp add: pending_def running_def a r')
  qed
  have p: "pending r' th = (pending (r\<lparr>lost := lost r'\<rparr>) th)(c := pending (r\<lparr>lost := lost r'\<rparr>) th c + 1)"
    using running_enter [OF a r'(2)] a by (auto simp: pending_def fun_eq_iff running_def)
  have q: "pending r' x = pending r x" if "x \<noteq> th" for x
    using that running_enter [OF a r'(2)] by (auto simp: pending_def fun_eq_iff r'(3) running_def)
  have t: "thread s x = thread (mon r) x" if "x \<noteq> th" for x using that by (simp add: s s0_def)
  have bt: "books (thread s th) (pending r' th)" unfolding p s using books_add [OF b0 c, of one_call 1] entry_ok_add(1) by simp
  have vt: "valid (thread s th)" by (simp add: s s0_def)
  have g: "entry_ok (syscall_info_table s d) (of_nat (card (running r' d)))" if "call_ok d" for d
    using D(3) [OF that] entry_ok_add(1) [OF D(3) [OF c]] running_enter [OF a r'(2)] running_finite [OF D(1)]
    by (auto simp: s s0_def add.commute)
  have m: "module_refs s = int (card (dom (act r')))" using D(1,2) a by (simp add: s s0_def r'(2) card_insert_if domIff)
  show ?thesis unfolding counts_ok_def r'(1)
  proof (intro conjI allI impI)
    show "finite (dom (act r'))" using D(1) r'(2) by simp
    show "valid (thread s x)" "0 \<le> d" "d < 5" if "act r' x = Some (d, st)" for x d st
      using that D(4) [of x d st] vt t c by (auto simp: r'(2) split: if_splits)
    show "books (thread s x) (pending r' x)" if "valid (thread s x)" for x
      using that D(5) bt t q by (cases "x = th") simp_all
  qed (use m g in auto)
qed

lemma counts_leave:
  assumes k: "counts_ok r" and a: "act r th = Some (c, start)"
    and r': "mon r' = trap_leave c th start result (mon r)" "act r' = (act r)(th := None)" "lost r' = lost r"
  shows "counts_ok r'"
proof -
  note D = counts_okD [OF k]
  have c: "call_ok c" and v: "valid (thread (mon r) th)" using D(4) [OF a] by auto
  define d where "d = one_result result (tsc (mon r) - start)"
  have s: "mon r' = (add_three th c d (mon r))\<lparr>module_refs := module_refs (mon r) - 1\<rparr>"
    unfolding r'(1) d_def using c by (simp add: trap_leave_eq)
  have e: "entry_ok (info_add x d) (q + - 1)" if "entry_ok x q" for x q using entry_ok_add(2) [OF that] by (simp add: d_def)
  have p: "pending r' th = (pending r th)(c := pending r th c + - 1)"
    using running_leave [OF a r'(2)] by (auto simp: pending_def fun_eq_iff r'(3))
  have q: "pending r' x = pending r x" if "x \<noteq> th" for x
    using that running_leave [OF a r'(2)] by (auto simp: pending_def fun_eq_iff r'(3))
  have bt: "books (thread (mon r') th) (pending r' th)" unfolding p s using books_add [OF D(5) [OF v] c, of d "-1"] e by simp
  have cd: "of_nat (card (running r c - {th})) = (of_nat (card (running r c)) + - 1 :: 32 word)"
    using running_finite [OF D(1)] running_leave(2) [OF a r'(2), of c] by (metis add_uminus_conv_diff card_Diff_singleton card_gt_0_iff empty_iff of_nat_1 of_nat_diff Suc_leI One_nat_def)
  have g: "entry_ok (syscall_info_table (mon r') x) (of_nat (card (running r' x)))" if "call_ok x" for x
  proof (cases "x = c")
    case True
    then show ?thesis using e [OF D(3) [OF c]] cd running_leave(1) [OF a r'(2)] by (simp add: s)
  next
    case False
    then have "running r' x = running r x" using running_leave [OF a r'(2), of x] by auto
    then show ?thesis using False D(3) [OF that] by (simp add: s)
  qed
  have m: "module_refs (mon r') = int (card (dom (act r')))"
    using D(1,2) a by (simp add: s r'(2) card_Diff_singleton domI card_gt_0_iff of_nat_diff Suc_leI) (metis One_nat_def Suc_leI card_gt_0_iff domI empty_iff of_nat_1 of_nat_diff)
  show ?thesis unfolding counts_ok_def
  proof (intro conjI allI impI)
    show "finite (dom (act r'))" using D(1) r'(2) by simp
    show "valid (thread (mon r') x)" "0 \<le> b" "b < 5" if "act r' x = Some (b, st)" for x b st
      using that D(4) [of x b st] by (auto simp: r'(2) s split: if_splits)
    show "books (thread (mon r') x) (pending r' x)" if "valid (thread (mon r') x)" for x
      using that D(5) bt q by (cases "x = th") (simp_all add: s)
  qed (use m g in auto)
qed

lemma counts_reset:
  assumes k: "counts_ok r" and r': "mon r' = reset_stats (info_th (thread (mon r) th)) th (mon r)" "act r' = act r"
    "lost r' = (lost r)(th := map_option fst (act r th))"
  shows "counts_ok r'"
proof -
  note D = counts_okD [OF k]
  have run: "running r' = running r" by (simp add: running_def r'(2) fun_eq_iff)
  have z: "pending r' th c = 0" for c by (auto simp: pending_def run r'(3)) (auto simp: running_def)
  have q: "pending r' x = pending r x" if "x \<noteq> th" for x using that by (simp add: pending_def run r'(3) fun_eq_iff)
  show ?thesis unfolding counts_ok_def
  proof (intro conjI allI impI)
    show "valid (thread (mon r') x)" "0 \<le> b" "b < 5" if "act r' x = Some (b, st)" for x b st
      using that D(4) [of x b st] by (auto simp: r' valid_def)
    show "books (thread (mon r') x) (pending r' x)" if "valid (thread (mon r') x)" for x
    proof (cases "x = th")
      case True
      have "books (thread (mon r') th) (\<lambda>_. 0)" by (rule books_zero) (simp add: r'(1))
      then show ?thesis using z True by (auto elim: books_cong)
    qed (use that D(5) q in \<open>simp add: r'(1)\<close>)
  qed (use D in \<open>auto simp: r' run\<close>)
qed

lemma counts_thread:
  assumes k: "counts_ok r" and a: "act r th = None" and t: "\<not> valid t"
  shows "counts_ok (r\<lparr>mon := (mon r)\<lparr>thread := (thread (mon r))(th := t)\<rparr>\<rparr>)" (is "counts_ok ?r")
proof -
  have "pending ?r = pending r" "running ?r = running r" by (simp_all add: pending_def running_def fun_eq_iff)
  then show ?thesis using k a t by (auto simp: counts_ok_def)
qed

lemma counts_frame:
  assumes "counts_ok r" "thread s = thread (mon r)" "syscall_info_table s = syscall_info_table (mon r)" "module_refs s = module_refs (mon r)"
  shows "counts_ok (r\<lparr>mon := s\<rparr>)"
proof -
  have "pending (r\<lparr>mon := s\<rparr>) = pending r" "running (r\<lparr>mon := s\<rparr>) = running r" by (simp_all add: pending_def running_def fun_eq_iff)
  then show ?thesis using assms by (simp add: counts_ok_def)
qed

lemma mon_step_inv:
  assumes "mon_step r r'" "counts_ok r" "table_ok orig (mon r)"
  shows "counts_ok r' \<and> table_ok orig (mon r')"
  using assms
proof (induction rule: mon_step.induct)
  case (enter r th c start s)
  have "table_ok orig s"
    using enter.prems(2) enter.hyps(2,4) by (auto simp: trap_enter_eq intro: table_ok_cong)
  with counts_enter [OF enter.prems(1) enter.hyps(1,2,4)] show ?case by simp
next
  case (leave r th c start result)
  have "call_ok c" using counts_okD(4) [OF leave.prems(1) leave.hyps] by simp
  then have "table_ok orig (trap_leave c th start result (mon r))"
    using leave.prems(2) by (auto simp: trap_leave_eq intro: table_ok_cong)
  with counts_leave [OF leave.prems(1) leave.hyps] show ?case by simp
next
  case (tick r t)
  then show ?case by (auto intro: counts_frame table_ok_cong)
next
  case (set_mon c r s)
  then have "table_ok orig s" using table_ok_entry [OF set_mon.prems(2), of c] by (auto simp: set_mon_eq table_ok_def)
  with set_mon show ?case by (auto simp: set_mon_eq intro: counts_frame)
next
  case (unset_mon c r s)
  then have "table_ok orig s" using table_ok_entry [OF unset_mon.prems(2), of c] by (auto simp: set_mon_eq table_ok_def)
  with unset_mon show ?case by (auto simp: set_mon_eq intro: counts_frame)
next
  case (reset r th)
  show ?case using counts_reset [OF reset.prems(1)] table_ok_cong [OF reset.prems(2)] by simp
next
  case (new_thread r th t)
  show ?case using counts_thread [OF new_thread.prems(1) new_thread.hyps] table_ok_cong [OF new_thread.prems(2)] by simp
qed

lemma mon_steps_inv:
  "mon_step\<^sup>*\<^sup>* r r' \<Longrightarrow> counts_ok r \<and> table_ok orig (mon r) \<Longrightarrow> counts_ok r' \<and> table_ok orig (mon r')"
  by (induction rule: rtranclp_induct) (use mon_step_inv in blast)+

section \<open>Loading\<close>

text \<open>Before the module is loaded: its tables are zero, no thread has statistics, and a process is found at its own
  \<open>thread_info\<close>.\<close>

definition fresh :: "(int \<Rightarrow> int option) \<Rightarrow> monitor \<Rightarrow> bool" where
  "fresh find_task s \<longleftrightarrow> (\<forall>c. syscall_info_table s c = zero_info) \<and> module_refs s = 0 \<and> (\<forall>th. \<not> valid (thread s th)) \<and>
     (\<forall>p th. find_task p = Some th \<longrightarrow> info_th (thread s th) = p) \<and> find_task 1 \<noteq> None"

definition start_run :: "monitor \<Rightarrow> mon_run" where
  "start_run s = \<lparr>mon = s, act = (\<lambda>_. None), lost = (\<lambda>_. None)\<rparr>"

lemma start_run_counts:
  assumes "syscall_info_table s = (\<lambda>_. zero_info)" "module_refs s = 0" "\<And>th. valid (thread s th) \<Longrightarrow> books (thread s th) (\<lambda>_. 0)"
  shows "counts_ok (start_run s)"
proof -
  have "running (start_run s) = (\<lambda>_. {})" "pending (start_run s) = (\<lambda>_ _. 0)"
    by (simp_all add: start_run_def pending_def running_def fun_eq_iff)
  then show ?thesis using assms unfolding counts_ok_def by (auto simp: start_run_def entry_ok_def)
qed

lemma syscalls_mon_init_ok:
  assumes f: "fresh find_task s"
  obtains s0 where "syscalls_mon_init find_task s = Some (0, s0)" "counts_ok (start_run s0)" "table_ok (sys_call_table s) s0"
    "\<forall>c. call_ok c \<longrightarrow> sys_call_table s0 (local_to_sys_index c) = trap_of c"
proof -
  define p where "p = (if find_task (pid_init s) = None then 1 else pid_init s)"
  obtain th where th: "find_task p = Some th" using f by (cases "find_task (pid_init s)") (auto simp: p_def fresh_def)
  have i: "info_th (thread s th) = p" using f th by (simp add: fresh_def)
  define s0 where "s0 = snd (the (syscalls_mon_init find_task s))"
  note init = syscalls_mon_init_def printk_line_def Let_def
  have "syscalls_mon_init find_task s = Some (0, s0) \<and> thread s0 = thread (reset_stats p th s) \<and>
    syscall_info_table s0 = syscall_info_table s \<and> module_refs s0 = module_refs s"
    using th unfolding s0_def p_def by (cases "find_task (pid_init s)") (simp_all add: init reset_stats_eq cong: if_cong)
  moreover have "sys_call_table s0 = (sys_call_table s)(NR_open := Sys_open_local, NR_close := Sys_close_local,
      NR_write := Sys_write_local, NR_clone := Sys_clone_local, NR_lseek := Sys_lseek_local)"
    using th unfolding s0_def p_def by (cases "find_task (pid_init s)") (simp_all add: init reset_stats_eq)
  moreover have "sys_call_table_original s0 c = sys_call_table s (local_to_sys_index c) \<and> sys_call_table_local s0 c = trap_of c" if "call_ok c" for c
    using th call_cases [OF that] unfolding s0_def p_def
    by (cases "find_task (pid_init s)") (auto simp: init reset_stats_eq local_to_sys_index_def trap_of_def)
  ultimately have s0: "syscalls_mon_init find_task s = Some (0, s0)" "thread s0 = thread (reset_stats p th s)"
    "syscall_info_table s0 = syscall_info_table s" "module_refs s0 = module_refs s"
    "sys_call_table s0 = (sys_call_table s)(NR_open := Sys_open_local, NR_close := Sys_close_local,
      NR_write := Sys_write_local, NR_clone := Sys_clone_local, NR_lseek := Sys_lseek_local)"
    "\<And>c. call_ok c \<Longrightarrow> sys_call_table_original s0 c = sys_call_table s (local_to_sys_index c) \<and> sys_call_table_local s0 c = trap_of c"
    by blast+
  have e: "sys_call_table s0 (local_to_sys_index c) = trap_of c" if "call_ok c" for c
    using call_cases [OF that] by (auto simp: s0(5) local_to_sys_index_def trap_of_def)
  have "local_to_sys_index ` {0..<5} = {5, 6, 4, 120, 19}"
    by (auto simp: calls_set local_to_sys_index_def)
  then have "table_ok (sys_call_table s) s0" using s0(6) e by (auto simp: table_ok_def s0(5))
  moreover have "counts_ok (start_run s0)"
  proof (rule start_run_counts)
    show "books (thread s0 x) (\<lambda>_. 0)" if "valid (thread s0 x)" for x
      using that f by (cases "x = th") (auto simp: s0(2) fresh_def intro: books_zero)
  qed (use f s0(3,4) in \<open>auto simp: fresh_def\<close>)
  ultimately show ?thesis using that s0(1) e by blast
qed

lemma print_tables [simp]: "sys_call_table (print_info f t s) = sys_call_table s" "sys_call_table (printk_line f a s) = sys_call_table s"
  "sys_call_table (print_total_sys_stats s) = sys_call_table s" "pid_init (printk_line f a s) = pid_init s"
  by (simp_all add: print_info_def printk_line_def print_total_sys_stats_def Let_def)

lemma print_stats_found: "find_task p = Some th \<Longrightarrow> \<exists>s'. print_stats find_task p s = Some s' \<and> sys_call_table s' = sys_call_table s"
  by (simp add: print_stats_def Let_def)

lemma syscalls_mon_exit_restores:
  assumes t: "table_ok orig s"
  shows "\<exists>s'. syscalls_mon_exit find_task s = Some s' \<and> sys_call_table s' = orig"
proof -
  define tb where "tb = (sys_call_table s)(NR_open := sys_call_table_original s OPEN, NR_close := sys_call_table_original s CLOSE,
         NR_write := sys_call_table_original s MYWRITE, NR_clone := sys_call_table_original s CLONE,
         NR_lseek := sys_call_table_original s LSEEK)"
  have o: "sys_call_table_original s c = orig (local_to_sys_index c)" if "call_ok c" for c using t that by (simp add: table_ok_def)
  have "tb i = orig i" for i
  proof (cases "i \<in> local_to_sys_index ` {0..<5}")
    case False
    then have "sys_call_table s i = orig i" using t by (simp add: table_ok_def)
    then show ?thesis using o [of 0] o [of 1] o [of 2] o [of 3] o [of 4] by (simp add: tb_def local_to_sys_index_def)
  next
    case True
    then obtain c where "c \<in> {0, 1, 2, 3, 4}" "i = local_to_sys_index c" unfolding calls_set by blast
    then show ?thesis using o [of c] by (auto simp: tb_def local_to_sys_index_def)
  qed
  then have tb: "tb = orig" by (rule ext)
  show ?thesis
  proof (cases "find_task (pid_init s)")
    case None
    then show ?thesis using tb by (simp add: syscalls_mon_exit_def Let_def tb_def)
  next
    case (Some th)
    obtain s' where "print_stats find_task (pid_init s) (printk_line (KERN_DEBUG @ ''Statistics for specified process:'' @ nl) [] (s\<lparr>sys_call_table := tb\<rparr>)) = Some s'"
      "sys_call_table s' = tb" using print_stats_found [of find_task "pid_init s" th] Some by fastforce
    then show ?thesis using tb Some by (simp add: syscalls_mon_exit_def Let_def tb_def [symmetric])
  qed
qed

section \<open>Switching calls on and off\<close>

text \<open>
  What the reader module relies on when it enables and disables calls: a switch for each of \<open>n\<close> calls that always
  succeeds, changes nothing but its own call, and that can be used for all of them in a loop.
\<close>

locale call_switch =
  fixes turn :: "int \<Rightarrow> 's \<Rightarrow> 's option" and turned :: "int \<Rightarrow> 's \<Rightarrow> bool" and entry :: "int \<Rightarrow> 's \<Rightarrow> 'e" and rest :: "'s \<Rightarrow> 'r" and n :: int
  assumes turn_total: "0 \<le> c \<Longrightarrow> c < n \<Longrightarrow> \<exists>s'. turn c s = Some s'"
    and turn_own: "turn c s = Some s' \<Longrightarrow> turned c s' \<and> rest s' = rest s"
    and turn_other: "turn c s = Some s' \<Longrightarrow> d \<noteq> c \<Longrightarrow> 0 \<le> d \<Longrightarrow> d < n \<Longrightarrow> entry d s' = entry d s"
    and turned_entry: "entry c s' = entry c s \<Longrightarrow> rest s' = rest s \<Longrightarrow> turned c s' = turned c s"
begin

lemma turn_all:
  assumes "0 \<le> n"
  shows "\<exists>s'. for_opt 0 n turn s = Some s' \<and> (\<forall>c. 0 \<le> c \<and> c < n \<longrightarrow> turned c s') \<and> rest s' = rest s"
proof -
  let ?I = "\<lambda>k s'. (\<forall>c. 0 \<le> c \<and> c < k \<longrightarrow> turned c s') \<and> rest s' = rest s"
  have "\<exists>s'. for_opt 0 n turn s = Some s' \<and> ?I n s'"
  proof (rule for_opt_inv [where I = ?I])
    fix k t
    assume k: "0 \<le> k" "k < n" and I: "?I k t"
    obtain t' where t': "turn k t = Some t'" using turn_total [OF k] by blast
    have "turned c t'" if "0 \<le> c" "c < k + 1" for c
    proof (cases "c = k")
      case False
      then show ?thesis using turned_entry [of c t' t] turn_other [OF t', of c] turn_own [OF t'] I that k by simp
    qed (use turn_own [OF t'] in simp)
    then show "\<exists>t'. turn k t = Some t' \<and> ?I (k + 1) t'" using t' turn_own [OF t'] I by auto
  qed (use assms in auto)
  then show ?thesis by blast
qed

end

definition call_entry_of :: "int \<Rightarrow> monitor \<Rightarrow> fptr" where
  "call_entry_of c s = sys_call_table s (local_to_sys_index c)"

definition but_table :: "monitor \<Rightarrow> monitor" where
  "but_table s = s\<lparr>sys_call_table := (\<lambda>i. if i \<in> local_to_sys_index ` {0..<5} then Native 0 else sys_call_table s i)\<rparr>"

lemma but_table_upd: "call_ok c \<Longrightarrow> but_table (s\<lparr>sys_call_table := (sys_call_table s)(local_to_sys_index c := f)\<rparr>) = but_table s"
  by (auto simp: but_table_def fun_eq_iff)

lemma but_table_fields: "but_table s' = but_table s \<Longrightarrow> sys_call_table_local s' = sys_call_table_local s \<and>
    sys_call_table_original s' = sys_call_table_original s \<and> thread s' = thread s \<and> syscall_info_table s' = syscall_info_table s"
  by (cases s; cases s') (simp add: but_table_def)

interpretation on: call_switch set_mon_on_syscall "\<lambda>c s. call_entry_of c s = sys_call_table_local s c" call_entry_of but_table N_CALLS
  by unfold_locales (auto simp: set_mon_eq but_table_upd call_entry_of_def l2s_inj dest: but_table_fields)

interpretation off: call_switch unset_mon_on_syscall "\<lambda>c s. call_entry_of c s = sys_call_table_original s c" call_entry_of but_table N_CALLS
  by unfold_locales (auto simp: set_mon_eq but_table_upd call_entry_of_def l2s_inj dest: but_table_fields)

section \<open>Properties\<close>


text \<open>C14: while the monitor is loaded each of the five entries of the system call table is the original one or its own
  trap and every other entry is untouched; unloading always completes and leaves the table as it was before loading.\<close>

theorem monitor_unloads:
  assumes "fresh find_task s"
  shows "\<exists>s0. syscalls_mon_init find_task s = Some (0, s0) \<and> (\<forall>c. call_ok c \<longrightarrow> sys_call_table s0 (local_to_sys_index c) = trap_of c) \<and>
    (\<forall>r. mon_step\<^sup>*\<^sup>* (start_run s0) r \<longrightarrow>
      (\<forall>c. call_ok c \<longrightarrow> sys_call_table (mon r) (local_to_sys_index c) \<in> {sys_call_table s (local_to_sys_index c), trap_of c}) \<and>
      (\<forall>i. i \<notin> local_to_sys_index ` {0..<5} \<longrightarrow> sys_call_table (mon r) i = sys_call_table s i) \<and>
      (\<forall>find'. \<exists>s'. syscalls_mon_exit find' (mon r) = Some s' \<and> sys_call_table s' = sys_call_table s))"
proof -
  obtain s0 where s0: "syscalls_mon_init find_task s = Some (0, s0)" "counts_ok (start_run s0)" "table_ok (sys_call_table s) s0"
    "\<forall>c. call_ok c \<longrightarrow> sys_call_table s0 (local_to_sys_index c) = trap_of c"
    by (rule syscalls_mon_init_ok [OF assms])
  have t: "table_ok (sys_call_table s) (mon r)" if "mon_step\<^sup>*\<^sup>* (start_run s0) r" for r
    using mon_steps_inv [OF that] s0(2,3) by (auto simp: start_run_def)
  show ?thesis
  proof (rule exI [of _ s0], intro conjI allI impI, rule s0(1))
    show "\<exists>s'. syscalls_mon_exit find' (mon r) = Some s' \<and> sys_call_table s' = sys_call_table s"
      if "mon_step\<^sup>*\<^sup>* (start_run s0) r" for r find' using syscalls_mon_exit_restores [OF t [OF that]] .
  qed (use s0(4) t in \<open>auto simp: table_ok_def\<close>)
qed

text \<open>The number of arguments of a call; \<open>clone\<close> takes the whole frame.\<close>

definition arity :: "int \<Rightarrow> 32 word list \<Rightarrow> nat" where
  "arity c args = (if c = CLOSE then 1 else if c = CLONE then length args else 3)"

lemma list_of_arity: "length args = arity c args \<Longrightarrow> call_ok c \<Longrightarrow> call_entry (trap_of c) syscall args th s = trap c syscall args th s"
  using call_cases [of c]
  by (auto simp: arity_def call_entry_def trap_of_def sys_open_local_def sys_close_local_def sys_write_local_def
      sys_clone_local_def sys_lseek_local_def numeral_3_eq_3 length_Suc_conv)

text \<open>C15: a monitored system call is transparent: the caller gets the result of the original routine, called with its own
  arguments. If the routine leaves the entries alone, the thread's entry for the call, its entry for all calls and the
  global entry grow by one call, one success or failure according to the sign of the result, and the cycles from the
  start to the end; statistics left by another process are cleared first.\<close>

theorem trap_transparent:
  assumes t: "table_ok orig s" and c: "call_ok c" and args: "length args = arity c args"
    and trap: "sys_call_table s (local_to_sys_index c) = trap_of c"
    and call: "syscall (orig (local_to_sys_index c)) args (snd (trap_enter c th s)) = (res, s2)"
    and kept: "thread s2 th = thread (snd (trap_enter c th s)) th" "syscall_info_table s2 c = syscall_info_table (snd (trap_enter c th s)) c"
  shows "\<exists>s'. call_entry (sys_call_table s (local_to_sys_index c)) syscall args th s = (res, s') \<and>
    (let d = info_add one_call (one_result res (tsc s2 - tsc s));
         old = (\<lambda>i. if valid (thread s th) then stats (thread s th) i else zero_info) in
       stats (thread s' th) c = info_add (old c) d \<and> stats (thread s' th) N_CALLS = info_add (old N_CALLS) d \<and>
       syscall_info_table s' c = info_add (syscall_info_table s c) d \<and> valid (thread s' th)) \<and>
    (\<forall>x. x \<noteq> th \<longrightarrow> thread s' x = thread s2 x) \<and> sys_call_table s' = sys_call_table s2 \<and> module_refs s' = module_refs s2 - 1"
proof -
  have n: "c \<noteq> N_CALLS" using c by simp
  have o: "sys_call_table_original s c = orig (local_to_sys_index c)" using t c by (simp add: table_ok_def)
  have e: "call_entry (sys_call_table s (local_to_sys_index c)) syscall args th s = (res, trap_leave c th (tsc s) res s2)"
    unfolding trap list_of_arity [OF args c] using call o by (simp add: trap_def trap_enter_eq [OF n])
  have v: "stats (thread (validated th (s\<lparr>module_refs := x\<rparr>)) th) i = (if valid (thread s th) then stats (thread s th) i else zero_info)"
    if "0 \<le> i" "i < 6" for i x using that by (simp add: validated_def)
  show ?thesis unfolding e Let_def
    by (rule exI [of _ "trap_leave c th (tsc s) res s2"])
      (use c kept in \<open>simp add: trap_enter_eq [OF n] trap_leave_eq [OF n] v info_add_ac(1)\<close>)
qed

section \<open>A concrete system\<close>

text \<open>Two processes, 1 and 7; the table holds the routine at address 1000 + n for call n. Process 7 opens a file.\<close>

definition lx :: monitor where
  "lx = \<lparr>sys_call_table = (\<lambda>n. Native (1000 + n)), sys_call_table_original = (\<lambda>_. Native 0), sys_call_table_local = (\<lambda>_. Native 0),
     syscall_info_table = (\<lambda>_. zero_info), thread = (\<lambda>th. \<lparr>info_th = (if th = 40 then 1 else 7), stats = (\<lambda>_. zero_info), my_pid = 0\<rparr>),
     pid_init = 7, module_refs = 0, tsc = 100, klog = []\<rparr>"

definition lx_find :: "int \<Rightarrow> int option" where
  "lx_find = [1 \<mapsto> 40, 7 \<mapsto> 41]"

lemma lx_fresh: "fresh lx_find lx"
  by (simp add: fresh_def lx_def lx_find_def valid_def split: if_splits)


theorem monitor_unloads_witness:
  "\<exists>s0 s'. syscalls_mon_init lx_find lx = Some (0, s0) \<and> sys_call_table s0 NR_open = Sys_open_local \<and>
     syscalls_mon_exit lx_find s0 = Some s' \<and> sys_call_table s' = (\<lambda>n. Native (1000 + n))"
proof -
  obtain s0 where s0: "syscalls_mon_init lx_find lx = Some (0, s0)"
    "\<forall>c. call_ok c \<longrightarrow> sys_call_table s0 (local_to_sys_index c) = trap_of c"
    "\<forall>r. mon_step\<^sup>*\<^sup>* (start_run s0) r \<longrightarrow> (\<forall>find'. \<exists>s'. syscalls_mon_exit find' (mon r) = Some s' \<and> sys_call_table s' = sys_call_table lx)"
    using monitor_unloads [OF lx_fresh] by blast
  have "sys_call_table s0 NR_open = Sys_open_local" using s0(2) [rule_format, of 0] by (simp add: local_to_sys_index_def trap_of_def)
  moreover have "\<exists>s'. syscalls_mon_exit lx_find s0 = Some s' \<and> sys_call_table s' = sys_call_table lx"
    using s0(3) [rule_format, of "start_run s0" lx_find] by (simp add: start_run_def)
  ultimately show ?thesis using s0(1) by (auto simp: lx_def)
qed

text \<open>An open that fails with -2 after 50 cycles.\<close>

theorem trap_transparent_witness:
  "\<exists>s0 s'. syscalls_mon_init lx_find lx = Some (0, s0) \<and>
     call_entry (sys_call_table s0 NR_open) (\<lambda>f args s. (- 2, s\<lparr>tsc := tsc s + 50\<rparr>)) [9, 0, 0] 41 s0 = (- 2, s') \<and>
     stats (thread s' 41) OPEN = info_add (if valid (thread s0 41) then stats (thread s0 41) OPEN else zero_info)
       (info_add one_call \<lparr>n_calls = 0, n_calls_ok = 0, n_calls_err = 1, total = 50\<rparr>)"
proof -
  obtain s0 where s0: "syscalls_mon_init lx_find lx = Some (0, s0)" "table_ok (sys_call_table lx) s0"
    "\<forall>c. call_ok c \<longrightarrow> sys_call_table s0 (local_to_sys_index c) = trap_of c"
    by (rule syscalls_mon_init_ok [OF lx_fresh])
  define call where "call = (\<lambda>(f :: fptr) (args :: 32 word list) (s :: monitor). (- 2 :: 32 word, s\<lparr>tsc := tsc s + 50\<rparr>))"
  define s1 where "s1 = snd (trap_enter 0 41 s0)"
  have ts: "tsc s1 = tsc s0" by (simp add: s1_def trap_enter_eq add_three_def validated_def reset_stats_eq)
  have tr: "sys_call_table s0 5 = trap_of 0" using s0(3) [rule_format, of 0] by (simp add: local_to_sys_index_def)
  have "one_result (- 2) 50 = \<lparr>n_calls = 0, n_calls_ok = 0, n_calls_err = 1, total = 50\<rparr>" by (simp add: one_result_def)
  then show ?thesis
    using trap_transparent [OF s0(2), of 0 "[9, 0, 0]" call 41 "- 2" "s1\<lparr>tsc := tsc s1 + 50\<rparr>"] s0(1) ts
    by (auto simp: call_def s1_def tr arity_def local_to_sys_index_def Let_def)
qed

end
