(* ===== verification/Bytes.thy ===== *)
theory Bytes
  imports ZPrelude
begin

text \<open>
  Integers in memory: the little-endian bytes of a word and the word that bytes stand for, as the statistics reader
  copies structures to the user and the image builder writes lengths.
\<close>

definition le_bytes :: "nat \<Rightarrow> 'a :: len word \<Rightarrow> 8 word list" where
  "le_bytes n w = map (\<lambda>i. ucast (drop_bit (8 * i) w)) [0..<n]"

definition le_word :: "8 word list \<Rightarrow> 'a :: len word" where
  "le_word bs = word_of_int (horner_sum uint 256 bs)"

lemma length_le_bytes [simp]: "length (le_bytes n w) = n"
  by (simp add: le_bytes_def)

lemma horner_le_bytes: "horner_sum uint 256 (le_bytes n w) = uint w mod 256 ^ n"
proof (induction n)
  case (Suc n)
  have "uint (ucast (drop_bit (8 * n) w) :: 8 word) = uint w div 256 ^ n mod 256"
    unfolding unsigned_ucast_eq unsigned_drop_bit_eq by (simp add: take_bit_eq_mod drop_bit_eq_div power_mult)
  moreover have "uint w mod (256 ^ n * 256) = 256 ^ n * (uint w div 256 ^ n mod 256) + uint w mod 256 ^ n"
    by (rule zmod_zmult2_eq) simp
  ultimately show ?case using Suc by (simp add: le_bytes_def horner_sum_append mult.commute)
qed (simp add: le_bytes_def)

lemma le_word_bytes: "8 * n = LENGTH('a) \<Longrightarrow> le_word (le_bytes n (w :: 'a :: len word)) = w"
proof -
  assume n: "8 * n = LENGTH('a)"
  have "(256 :: int) ^ n = 2 ^ LENGTH('a)" unfolding n [symmetric] power_mult by simp
  moreover have "uint w mod 2 ^ LENGTH('a) = uint w" by (rule mod_pos_pos_trivial) simp_all
  ultimately show ?thesis by (simp add: le_word_def horner_le_bytes)
qed

end
