(* ===== verification/MonitorReader.thy ===== *)
theory MonitorReader
  imports Monitor Bytes
begin

text \<open>
  The statistics reader (\<open>kernel-module/syscalls_mon_reader.c\<close>): a character device, open to one process of the
  superuser at a time, whose \<open>read\<close> delivers the statistics of a process for a call and whose \<open>ioctl\<close> selects the
  process and the call, resets statistics and switches the monitoring of calls.

  Functions of Linux are parameters: \<open>find_task\<close> as in \<open>Monitor\<close>, \<open>procs\<close> the processes (identifier and address of the
  \<open>thread_info\<close>) in the order of \<open>for_each_process\<close>, \<open>copy_to_user\<close> with the number of bytes it could not copy as its
  result, and the results of the registration functions.
\<close>

section \<open>Data\<close>

abbreviation (input) DEV_MAJ :: int where "DEV_MAJ \<equiv> 253"
abbreviation (input) DEV_MIN :: int where "DEV_MIN \<equiv> 0"
abbreviation (input) L_EPERM :: int where "L_EPERM \<equiv> 1"
abbreviation (input) L_EACCES :: int where "L_EACCES \<equiv> 13"

text \<open>Calls of the driver to the device layer of Linux.\<close>

datatype dev_call = Register_chrdev_region int | Cdev_alloc | Cdev_add int | Unregister_chrdev_region int | Cdev_del

record reader =
  monitored :: monitor
  lock :: int
  open_pid :: int
  proc_monitored :: int
  sysc_monitored :: int
  dev_id :: int
  dev_calls :: "dev_call list"

section \<open>Loading and unloading\<close>

definition MKDEV :: "int \<Rightarrow> int \<Rightarrow> int" where
  "MKDEV ma mi = ma * 2 ^ 20 + mi"

definition dev_call :: "dev_call \<Rightarrow> reader \<Rightarrow> reader" where
  "dev_call c s = s\<lparr>dev_calls := dev_calls s @ [c]\<rparr>"

definition log_line :: "string \<Rightarrow> reader \<Rightarrow> reader" where
  "log_line l s = s\<lparr>monitored := printk_line l [] (monitored s)\<rparr>"

text \<open>\<open>reg\<close> and \<open>add\<close> are the results of the registration functions, \<open>dev\<close> tells whether \<open>cdev_alloc\<close> finds memory.\<close>

definition syscalls_mon_driver_init :: "int \<Rightarrow> bool \<Rightarrow> int \<Rightarrow> reader \<Rightarrow> int \<times> reader" where
  "syscalls_mon_driver_init reg dev add s =
     (let s = s\<lparr>proc_monitored := 0, sysc_monitored := 0, open_pid := 1, dev_id := MKDEV DEV_MAJ DEV_MIN\<rparr>;
          s = dev_call (Register_chrdev_region (dev_id s)) s
      in if reg < 0 then (reg, log_line ''ERROR: register_chrdev_region'' s)
         else let s = dev_call Cdev_alloc s
      in if \<not> dev then (-1, log_line ''ERROR: cdev_alloc'' s)
         else let s = dev_call (Cdev_add (dev_id s)) s
      in if add < 0 then (add, log_line ''ERROR: cdev_add'' s)
         else let s = s\<lparr>lock := 0\<rparr>
      in (0, log_line (KERN_DEBUG @ ''Syscalls Reader Driver successfully loaded.'' @ nl) s))"

definition syscalls_mon_driver_exit :: "reader \<Rightarrow> reader" where
  "syscalls_mon_driver_exit s =
     (let s = dev_call (Unregister_chrdev_region (dev_id s)) s;
          s = dev_call Cdev_del s
      in log_line (KERN_DEBUG @ ''Syscalls Reader Driver succesfully unloaded.'' @ nl) s)"

section \<open>Reading\<close>

text \<open>\<open>struct t_info\<close> in memory: little endian, 20 bytes (the ABI of i386 aligns \<open>long long\<close> to 4 bytes in a structure).\<close>

definition t_info_bytes :: "t_info \<Rightarrow> 8 word list" where
  "t_info_bytes t = le_bytes 4 (n_calls t) @ le_bytes 4 (n_calls_ok t) @ le_bytes 4 (n_calls_err t) @ le_bytes 8 (total t)"

definition sizeof_t_info :: nat where
  "sizeof_t_info = 20"

text \<open>\<open>s\<close> is unsigned, so \<open>s < 0\<close> never holds; \<open>junk\<close> is the uninitialised local structure.\<close>

definition readstats_read_dev ::
  "(int \<Rightarrow> 8 word list \<Rightarrow> 'u \<Rightarrow> nat \<times> 'u) \<Rightarrow> (int \<Rightarrow> int option) \<Rightarrow> t_info \<Rightarrow> int \<Rightarrow> nat \<Rightarrow> reader \<Rightarrow> 'u \<Rightarrow> int \<times> 'u" where
  "readstats_read_dev copy_to_user find_task junk buffer s st u =
     (let (result, info) = get_stats find_task (proc_monitored st) (sysc_monitored st) junk (monitored st)
      in if result < 0 then (result, u)
         else let sz = (if s < sizeof_t_info then s else sizeof_t_info);
                  (left, u) = copy_to_user buffer (take sz (t_info_bytes info)) u
              in (int left, u))"

section \<open>Resetting and switching\<close>

text \<open>The test \<open>t < 0\<close> compares a pointer and never holds: without the process, NULL is dereferenced.\<close>

definition reset_values :: "(int \<Rightarrow> int option) \<Rightarrow> int \<Rightarrow> reader \<Rightarrow> (int \<times> reader) option" where
  "reset_values find_task p st =
     (if p < 0 then Some (- L_EINVAL, st)
      else do {
        th \<leftarrow> find_task p;
        Some (0, st\<lparr>monitored := reset_stats p th (monitored st)\<rparr>)
      })"

definition complete_reset :: "(int \<times> int) list \<Rightarrow> reader \<Rightarrow> reader" where
  "complete_reset procs st = fold (\<lambda>(p, th) st. st\<lparr>monitored := reset_stats p th (monitored st)\<rparr>) procs st"

definition activate_syscall_mon :: "int \<Rightarrow> reader \<Rightarrow> (int \<times> reader) option" where
  "activate_syscall_mon call_index st =
     (if call_index \<ge> N_CALLS then Some (- L_EINVAL, st)
      else do {
        m \<leftarrow> (if call_index > -1 then set_mon_on_syscall call_index (monitored st)
             else for_opt 0 N_CALLS set_mon_on_syscall (monitored st));
        Some (0, st\<lparr>monitored := m\<rparr>)
      })"

definition deactivate_syscall_mon :: "int \<Rightarrow> reader \<Rightarrow> (int \<times> reader) option" where
  "deactivate_syscall_mon call_index st =
     (if call_index \<ge> N_CALLS then Some (- L_EINVAL, st)
      else do {
        m \<leftarrow> (if call_index > -1 then unset_mon_on_syscall call_index (monitored st)
             else for_opt 0 N_CALLS unset_mon_on_syscall (monitored st));
        Some (0, st\<lparr>monitored := m\<rparr>)
      })"

section \<open>ioctl\<close>

definition readstats_ioctl_dev :: "(int \<Rightarrow> int option) \<Rightarrow> (int \<times> int) list \<Rightarrow> 32 word \<Rightarrow> 32 word \<Rightarrow> reader \<Rightarrow> (int \<times> reader) option" where
  "readstats_ioctl_dev find_task procs arg1 arg2 st =
     (let argument2 = sint arg2 in
      if arg1 = 0 then
        if argument2 < 0 then Some (- L_EINVAL, st)
        else (case find_task argument2 of
            None \<Rightarrow> Some (- L_ESRCH, st\<lparr>proc_monitored := open_pid st\<rparr>)
          | Some th \<Rightarrow>
              let st = (if argument2 \<noteq> my_pid (thread (monitored st) th)
                        then st\<lparr>monitored := reset_stats argument2 th (monitored st)\<rparr> else st)
              in Some (0, st\<lparr>proc_monitored := argument2\<rparr>))
      else if arg1 = 1 then
        if argument2 < 0 \<or> argument2 \<ge> N_CALLS then Some (- L_EINVAL, st)
        else Some (0, st\<lparr>sysc_monitored := argument2\<rparr>)
      else if arg1 = 2 then do {
        (result, st) \<leftarrow> reset_values find_task (proc_monitored st) st;
        Some (0, st)
      }
      else if arg1 = 3 then Some (0, complete_reset procs st)
      else if arg1 = 4 then
        if argument2 \<ge> N_CALLS then Some (- L_EINVAL, st)
        else do {
          (result, st) \<leftarrow> activate_syscall_mon argument2 st;
          Some (0, st)
        }
      else if arg1 = 5 then
        if argument2 \<ge> N_CALLS then Some (- L_EINVAL, st)
        else do {
          (result, st) \<leftarrow> deactivate_syscall_mon argument2 st;
          Some (0, st)
        }
      else Some (- L_EINVAL, st))"

section \<open>Opening and closing\<close>

text \<open>\<open>lock\<close> is a \<open>short\<close>; \<open>uid\<close> and \<open>p\<close> are those of the calling process.\<close>

definition readstats_open_dev :: "int \<Rightarrow> int \<Rightarrow> reader \<Rightarrow> int \<times> reader" where
  "readstats_open_dev uid p st =
     (if lock st \<noteq> 0 then (- L_EPERM, st)
      else if uid \<noteq> 0 then (- L_EACCES, st)
      else let st = st\<lparr>lock := signed_take_bit 15 (lock st + 1), open_pid := p\<rparr>
           in (0, st\<lparr>proc_monitored := open_pid st\<rparr>))"

definition readstats_release_dev :: "reader \<Rightarrow> int \<times> reader" where
  "readstats_release_dev st =
     (if lock st = 0 then (- L_EPERM, st)
      else (0, st\<lparr>lock := signed_take_bit 15 (lock st - 1), open_pid := 0\<rparr>))"

section \<open>Bytes\<close>

definition info_of_bytes :: "8 word list \<Rightarrow> t_info" where
  "info_of_bytes bs = \<lparr>n_calls = le_word (take 4 bs), n_calls_ok = le_word (take 4 (drop 4 bs)),
     n_calls_err = le_word (take 4 (drop 8 bs)), total = le_word (take 8 (drop 12 bs))\<rparr>"

lemma t_info_bytes_roundtrip: "length (t_info_bytes t) = 20" "info_of_bytes (t_info_bytes t) = t"
  by (simp_all add: t_info_bytes_def info_of_bytes_def le_word_bytes)

section \<open>Switching calls\<close>

text \<open>Both directions follow from the contract of the switches.\<close>

lemma activate_spec:
  assumes i: "i < N_CALLS"
  obtains m' where "activate_syscall_mon i st = Some (0, st\<lparr>monitored := m'\<rparr>)" "but_table m' = but_table (monitored st)"
    "\<forall>c. call_ok c \<longrightarrow> call_entry_of c m' = (if i < 0 \<or> i = c then sys_call_table_local (monitored st) c else call_entry_of c (monitored st))"
proof (cases "i < 0")
  case True
  obtain m' where m': "for_opt 0 5 set_mon_on_syscall (monitored st) = Some m'" "but_table m' = but_table (monitored st)"
    "\<forall>c. call_ok c \<longrightarrow> call_entry_of c m' = sys_call_table_local m' c" using on.turn_all by auto
  show ?thesis by (rule that [of m']) (use True m' but_table_fields [OF m'(2)] in \<open>auto simp: activate_syscall_mon_def\<close>)
next
  case False
  with i obtain m' where m': "set_mon_on_syscall i (monitored st) = Some m'" using on.turn_total [of i] by auto
  have own: "call_entry_of i m' = sys_call_table_local m' i" "but_table m' = but_table (monitored st)" using on.turn_own [OF m'] by auto
  show ?thesis
    by (rule that [of m']) (use False m' i own but_table_fields [OF own(2)] on.turn_other [OF m'] in \<open>auto simp: activate_syscall_mon_def\<close>)
qed

lemma deactivate_spec:
  assumes i: "i < N_CALLS"
  obtains m' where "deactivate_syscall_mon i st = Some (0, st\<lparr>monitored := m'\<rparr>)" "but_table m' = but_table (monitored st)"
    "\<forall>c. call_ok c \<longrightarrow> call_entry_of c m' = (if i < 0 \<or> i = c then sys_call_table_original (monitored st) c else call_entry_of c (monitored st))"
proof (cases "i < 0")
  case True
  obtain m' where m': "for_opt 0 5 unset_mon_on_syscall (monitored st) = Some m'" "but_table m' = but_table (monitored st)"
    "\<forall>c. call_ok c \<longrightarrow> call_entry_of c m' = sys_call_table_original m' c" using off.turn_all by auto
  show ?thesis by (rule that [of m']) (use True m' but_table_fields [OF m'(2)] in \<open>auto simp: deactivate_syscall_mon_def\<close>)
next
  case False
  with i obtain m' where m': "unset_mon_on_syscall i (monitored st) = Some m'" using off.turn_total [of i] by auto
  have own: "call_entry_of i m' = sys_call_table_original m' i" "but_table m' = but_table (monitored st)" using off.turn_own [OF m'] by auto
  show ?thesis
    by (rule that [of m']) (use False m' i own but_table_fields [OF own(2)] off.turn_other [OF m'] in \<open>auto simp: deactivate_syscall_mon_def\<close>)
qed

lemma ioctl_switch:
  assumes "a1 \<in> {4, 5} \<and> sint a2 < N_CALLS"
  shows "\<exists>m'. readstats_ioctl_dev find_task procs a1 a2 st = Some (0, st\<lparr>monitored := m'\<rparr>) \<and> but_table m' = but_table (monitored st) \<and>
      (\<forall>c. call_ok c \<longrightarrow> call_entry_of c m' =
         (if sint a2 < 0 \<or> sint a2 = c then if a1 = 4 then sys_call_table_local (monitored st) c else sys_call_table_original (monitored st) c
          else call_entry_of c (monitored st)))"
proof -
  have i: "sint a2 < N_CALLS" using assms by simp
  obtain m1 where m1: "activate_syscall_mon (sint a2) st = Some (0, st\<lparr>monitored := m1\<rparr>)" "but_table m1 = but_table (monitored st)"
    "\<forall>c. call_ok c \<longrightarrow> call_entry_of c m1 = (if sint a2 < 0 \<or> sint a2 = c then sys_call_table_local (monitored st) c else call_entry_of c (monitored st))"
    by (rule activate_spec [OF i]) (rule that, assumption+)
  obtain m2 where m2: "deactivate_syscall_mon (sint a2) st = Some (0, st\<lparr>monitored := m2\<rparr>)" "but_table m2 = but_table (monitored st)"
    "\<forall>c. call_ok c \<longrightarrow> call_entry_of c m2 = (if sint a2 < 0 \<or> sint a2 = c then sys_call_table_original (monitored st) c else call_entry_of c (monitored st))"
    by (rule deactivate_spec [OF i]) (rule that, assumption+)
  show ?thesis
  proof (cases "a1 = 4")
    case True
    then show ?thesis using m1 assms by (intro exI [of _ m1]) (simp add: readstats_ioctl_dev_def)
  next
    case False
    then have "a1 = 5" using assms by simp
    then show ?thesis using m2 assms by (intro exI [of _ m2]) (simp add: readstats_ioctl_dev_def)
  qed
qed

section \<open>Properties\<close>

text \<open>C26: a read of the device returns the error of \<open>get_stats\<close> with no byte delivered when the process is gone. Otherwise it
  copies the first \<open>n\<close> bytes, at most 20, of the entry of the selected process and call to the user; a full read decodes to
  exactly that entry. The result of a successful read is 0 and not the number of bytes.\<close>

theorem readstats_read_delivers:
  assumes copy: "\<And>bs. copy_to_user buffer bs u = (0, put bs)" and p: "0 \<le> proc_monitored st" and c: "0 \<le> sysc_monitored st" "sysc_monitored st \<le> N_CALLS"
  shows "case find_task (proc_monitored st) of
      None \<Rightarrow> readstats_read_dev copy_to_user find_task junk buffer n st u = (- L_ESRCH, u)
    | Some th \<Rightarrow> (let t = stats (thread (monitored st) th) (sysc_monitored st); bs = take n (t_info_bytes t) in
        readstats_read_dev copy_to_user find_task junk buffer n st u = (0, put bs) \<and>
        length bs = min n 20 \<and> (20 \<le> n \<longrightarrow> info_of_bytes bs = t))"
proof (cases "find_task (proc_monitored st)")
  case (Some th)
  have "get_stats find_task (proc_monitored st) (sysc_monitored st) junk (monitored st) = (0, stats (thread (monitored st) th) (sysc_monitored st))"
    using p c Some by (simp add: get_stats_def Let_def)
  then show ?thesis using copy by (simp add: Some readstats_read_dev_def sizeof_t_info_def Let_def t_info_bytes_roundtrip min_def)
qed (use p c in \<open>simp add: readstats_read_dev_def get_stats_def\<close>)


section \<open>Exclusive access\<close>

text \<open>
  The life of the device: processes open it, with success or not, the process that has it open uses it and closes it.
  The second component is the process that holds the device. Linux calls \<open>release\<close> only for a file that was opened.
\<close>

inductive dev_step :: "reader \<times> int option \<Rightarrow> reader \<times> int option \<Rightarrow> bool" where
  opened: "readstats_open_dev uid p st = (0, st') \<Longrightarrow> dev_step (st, h) (st', Some p)"
| refused: "readstats_open_dev uid p st = (e, st') \<Longrightarrow> e \<noteq> 0 \<Longrightarrow> dev_step (st, h) (st', h)"
| request: "readstats_ioctl_dev find_task procs a1 a2 st = Some (e, st') \<Longrightarrow> dev_step (st, Some p) (st', Some p)"
| released: "readstats_release_dev st = (e, st') \<Longrightarrow> dev_step (st, Some p) (st', None)"

definition dev_ok :: "reader \<times> int option \<Rightarrow> bool" where
  "dev_ok = (\<lambda>(st, h). (case h of None \<Rightarrow> lock st = 0 | Some p \<Rightarrow> lock st = 1 \<and> open_pid st = p))"

lemma short_one [simp]: "signed_take_bit 15 (1 :: int) = 1" by (simp add: signed_take_bit_eq_if_positive)

lemma complete_reset_dev: "lock (complete_reset procs st) = lock st \<and> open_pid (complete_reset procs st) = open_pid st"
  unfolding complete_reset_def by (induction procs arbitrary: st) auto

lemma ioctl_dev:
  assumes "readstats_ioctl_dev find_task procs a1 a2 st = Some (e, st')"
  shows "lock st' = lock st \<and> open_pid st' = open_pid st"
  using assms complete_reset_dev [of procs st]
  by (auto simp: readstats_ioctl_dev_def reset_values_def activate_syscall_mon_def deactivate_syscall_mon_def Let_def bind_eq_Some_conv
      split: option.splits if_splits)

lemma dev_step_ok: "dev_step x y \<Longrightarrow> dev_ok x \<Longrightarrow> dev_ok y"
proof (induction rule: dev_step.induct)
  case (request find_task procs a1 a2 st e st' p)
  then show ?case using ioctl_dev by (auto simp: dev_ok_def)
qed (auto simp: dev_ok_def readstats_open_dev_def readstats_release_dev_def Let_def split: if_splits option.splits)

lemma dev_steps_ok: "dev_step\<^sup>*\<^sup>* x y \<Longrightarrow> dev_ok x \<Longrightarrow> dev_ok y"
  by (induction rule: rtranclp_induct) (use dev_step_ok in blast)+

text \<open>C24: the device is a lock. From the load of the driver on, after any sequence of opens, requests and closes: while a
  process holds the device every other open fails with -EPERM and changes nothing, and its close succeeds and frees the
  device; a free device is opened by the superuser, who is recorded and becomes the process to read, and by nobody else.\<close>

theorem device_exclusive:
  assumes "syscalls_mon_driver_init reg dev add s = (0, s0)" and "dev_step\<^sup>*\<^sup>* (s0, None) (st, h)"
  shows "(case h of
      Some p \<Rightarrow> readstats_open_dev uid q st = (- L_EPERM, st) \<and> open_pid st = p \<and>
        (\<exists>st'. readstats_release_dev st = (0, st') \<and> lock st' = 0)
    | None \<Rightarrow> readstats_release_dev st = (- L_EPERM, st) \<and>
        (if uid = 0 then \<exists>st'. readstats_open_dev uid q st = (0, st') \<and> lock st' = 1 \<and> open_pid st' = q \<and> proc_monitored st' = q
         else readstats_open_dev uid q st = (- L_EACCES, st)))"
proof -
  have "lock s0 = 0" using assms(1)
    by (auto simp: syscalls_mon_driver_init_def dev_call_def log_line_def Let_def split: if_splits)
  then have "dev_ok (s0, None)" by (simp add: dev_ok_def)
  from dev_steps_ok [OF assms(2) this] show ?thesis
    by (auto simp: dev_ok_def readstats_open_dev_def readstats_release_dev_def Let_def split: option.splits)
qed

text \<open>A driver whose device cannot be allocated fails to load, with the region still registered.\<close>

lemma driver_init_leaks:
  assumes "0 \<le> reg"
  shows "fst (syscalls_mon_driver_init reg False add s) = -1 \<and>
    dev_calls (snd (syscalls_mon_driver_init reg False add s)) = dev_calls s @ [Register_chrdev_region (MKDEV 253 0), Cdev_alloc]"
  using assms by (simp add: syscalls_mon_driver_init_def dev_call_def log_line_def Let_def)

section \<open>The concrete system\<close>

definition lx_reader :: reader where
  "lx_reader = \<lparr>monitored = lx, lock = 0, open_pid = 7, proc_monitored = 7, sysc_monitored = 2, dev_id = 0, dev_calls = []\<rparr>"

text \<open>User memory is the list of bytes at the address of the buffer.\<close>

theorem readstats_read_delivers_witness:
  "readstats_read_dev (\<lambda>_ bs _. (0, bs)) lx_find zero_info 4096 64 lx_reader [] = (0, t_info_bytes zero_info) \<and>
    info_of_bytes (t_info_bytes zero_info) = zero_info"
proof -
  have e: "stats (thread lx 41) 2 = zero_info" "lx_find 7 = Some 41" by (simp_all add: lx_def lx_find_def)
  show ?thesis
    using readstats_read_delivers [of "\<lambda>_ bs _. (0, bs)" 4096 "[]" "\<lambda>bs. bs" lx_reader lx_find zero_info 64]
    by (simp add: lx_reader_def e Let_def t_info_bytes_roundtrip)
qed


theorem device_exclusive_witness:
  "\<exists>s0 st. syscalls_mon_driver_init 0 True 0 lx_reader = (0, s0) \<and> readstats_open_dev 0 12 s0 = (0, st) \<and>
    readstats_open_dev 0 13 st = (- L_EPERM, st)"
proof -
  obtain s0 where s0: "syscalls_mon_driver_init 0 True 0 lx_reader = (0, s0)" by (simp add: syscalls_mon_driver_init_def Let_def)
  then have "lock s0 = 0" by (auto simp: syscalls_mon_driver_init_def dev_call_def log_line_def Let_def)
  then obtain st where st: "readstats_open_dev 0 12 s0 = (0, st)" by (simp add: readstats_open_dev_def Let_def)
  have "dev_step\<^sup>*\<^sup>* (s0, None) (st, Some 12)" using dev_step.opened [OF st] by blast
  from device_exclusive [OF s0 this, of 0 13] show ?thesis using s0 st by auto
qed

end
