(* ===== verification/TestReader.thy ===== *)
theory TestReader
  imports MonitorReader
begin

text \<open>
  \<open>kernel-module/test_reader.c\<close>: the program that exercises the statistics reader through the device file. It opens the device,
  checks that a second open is refused, reads statistics, lets a child select itself, goes back to the father, changes the call,
  resets, disables and enables the monitoring, reads after each request and closes the device; a request that fails takes it to
  \<open>msg_error\<close>.

  What is not code of the repository is in the record \<open>env\<close>: the processes of the system, the caller, the result of \<open>fork\<close>, what
  \<open>printf\<close> does to the kernel (its writes are counted by the monitor), \<open>copy_to_user\<close> and the results of the registration
  functions. The child runs while the father waits for it, on its own copy of the variables.
\<close>

section \<open>The program and its surroundings\<close>

record env =
  caller_uid :: int
  caller_pid :: int
  child_pid :: "int option"
  tasks :: "int \<Rightarrow> int option"
  task_list :: "(int \<times> int) list"
  printf_effect :: "string \<Rightarrow> int list \<Rightarrow> reader \<Rightarrow> reader"
  copy_out :: "int \<Rightarrow> 8 word list \<Rightarrow> 8 word list \<Rightarrow> nat \<times> 8 word list"
  stats_addr :: int
  kernel_junk :: t_info
  stack_junk :: "8 word list"
  err_text :: string
  reg_result :: int
  alloc_result :: bool
  add_result :: int

text \<open>The variables of the program with the state of the device and the calls of \<open>printf\<close>: a format and its numbers.\<close>

record tester =
  device :: reader
  stats_var :: "8 word list"
  monitored_pid :: int
  monitored_sysc :: int
  printed :: "(string \<times> int list) list"

definition printf :: "env \<Rightarrow> string \<Rightarrow> int list \<Rightarrow> tester \<Rightarrow> tester" where
  "printf E f xs t = t\<lparr>device := printf_effect E f xs (device t), printed := printed t @ [(f, xs)]\<rparr>"

definition call_name :: "int \<Rightarrow> string" where
  "call_name i = (if i = 0 then ''OPEN'' else if i = 1 then ''CLOSE'' else if i = 2 then ''WRITE'' else if i = 3 then ''CLONE''
     else if i = 4 then ''LSEEK'' else [])"

definition test_print_stats :: "env \<Rightarrow> int \<Rightarrow> tester \<Rightarrow> tester" where
  "test_print_stats E call_index t =
     (let th_stats = info_of_bytes (stats_var t);
          t = printf E (''Statistics for the '' @ call_name call_index @ '' system call:'' @ nl) [] t;
          t = printf E (''------------------------------------'' @ nl) [] t;
          t = printf E (''PID          : %i'' @ nl) [monitored_pid t] t;
          t = printf E (''# Calls      : %i'' @ nl) [sint (n_calls th_stats)] t;
          t = printf E (''# OKs        : %i'' @ nl) [sint (n_calls_ok th_stats)] t;
          t = printf E (''# ERRs       : %i'' @ nl) [sint (n_calls_err th_stats)] t
      in printf E (''Total time   : %lld'' @ nl) [sint (total th_stats)] t)"

section \<open>System calls on the device\<close>

definition open_file :: "env \<Rightarrow> tester \<Rightarrow> int \<times> tester" where
  "open_file E t = (let (r, d) = readstats_open_dev (caller_uid E) (caller_pid E) (device t) in (r, t\<lparr>device := d\<rparr>))"

definition read_file :: "env \<Rightarrow> tester \<Rightarrow> int \<times> tester" where
  "read_file E t = (let (r, u) = readstats_read_dev (copy_out E) (tasks E) (kernel_junk E) (stats_addr E) sizeof_t_info (device t) (stats_var t)
     in (r, t\<lparr>stats_var := u\<rparr>))"

definition ioctl :: "env \<Rightarrow> 32 word \<Rightarrow> int \<Rightarrow> tester \<Rightarrow> (int \<times> tester) option" where
  "ioctl E request a t = map_option (\<lambda>(r, d). (r, t\<lparr>device := d\<rparr>))
     (readstats_ioctl_dev (tasks E) (task_list E) request (word_of_int a) (device t))"

definition close_file :: "tester \<Rightarrow> int \<times> tester" where
  "close_file t = (let (r, d) = readstats_release_dev (device t) in (r, t\<lparr>device := d\<rparr>))"

text \<open>The result of a part of \<open>main\<close>: \<open>True\<close> when it comes to its end, \<open>False\<close> when it goes to \<open>msg_error\<close>; \<open>None\<close> when the kernel
  dereferences NULL.\<close>

type_synonym part = "(bool \<times> tester) option"

definition checked_ioctl :: "env \<Rightarrow> 32 word \<Rightarrow> int \<Rightarrow> tester \<Rightarrow> (tester \<Rightarrow> part) \<Rightarrow> part" where
  "checked_ioctl E request a t f = Option.bind (ioctl E request a t) (\<lambda>(result, t). if result < 0 then Some (False, t) else f t)"

text \<open>\<open>read\<close>, the test of its result, and the program's \<open>print_stats\<close>, here \<open>test_print_stats\<close>.\<close>

definition read_and_print :: "env \<Rightarrow> tester \<Rightarrow> (tester \<Rightarrow> part) \<Rightarrow> part" where
  "read_and_print E t f = (let (result, t) = read_file E t in if result < 0 then Some (False, t) else f (test_print_stats E (monitored_sysc t) t))"

text \<open>What \<open>perror\<close> writes to the error output counts as part of the effect of the line that follows it.\<close>

definition msg_error :: "env \<Rightarrow> tester \<Rightarrow> tester" where
  "msg_error E t = printf E (nl @ ''ERROR: '' @ err_text E @ nl @ ''Caution: The modules could still be loaded!!'' @ nl @
     ''Terminating execution...'' @ nl) [] t"

definition child_part :: "env \<Rightarrow> int \<Rightarrow> tester \<Rightarrow> part" where
  "child_part E c t =
     (let t = t\<lparr>monitored_pid := c\<rparr>;
          t = printf E (''Done'' @ nl @ ''[IOCTL] Changing PID to %d: '') [monitored_pid t] t
      in checked_ioctl E 0 (monitored_pid t) t (\<lambda>t.
           let t = printf E (''Done'' @ nl @ ''[READ] Reading data for this process:'' @ nl) [] t
           in read_and_print E t (\<lambda>t. Some (True, t))))"

text \<open>The child ends by \<open>exit\<close> in both cases; the variables of the father stay as they are.\<close>

definition run_child :: "env \<Rightarrow> tester \<Rightarrow> tester option" where
  "run_child E t = (case child_pid E of None \<Rightarrow> Some t
     | Some c \<Rightarrow> map_option (\<lambda>(ok, tc). let tc = (if ok then tc else msg_error E tc) in t\<lparr>device := device tc, printed := printed tc\<rparr>)
         (child_part E c t))"

section \<open>The test\<close>

definition after_deactivation :: "env \<Rightarrow> tester \<Rightarrow> part" where
  "after_deactivation E t =
     (let t = printf E (''This is not going to be counted. Next statistics should indicate 9 WRITE calls, and they are from the previous print_stats().'' @ nl) [] t;
          t = printf E (''[READ] Reprint statistics after a dumb write to check if statistics changed:'' @ nl) [] t
      in read_and_print E t (\<lambda>t.
           let t = printf E (''Done'' @ nl @ ''[IOCTL] Activating all the system calls: '') [] t
           in checked_ioctl E 4 (-1) t (\<lambda>t.
           let t = printf E (''Done'' @ nl @ ''[READ] Reading statistics:'' @ nl) [] t
           in read_and_print E t (\<lambda>t.
           let t = printf E (''Done'' @ nl @ ''[RELEASE] Closing the device: '') [] t;
               (result, t) = close_file t
           in if result < 0 then Some (False, t)
              else Some (True, printf E (''Done'' @ nl @ nl @ ''TEST COMPLETED SUCCESFULLY!'' @ nl) [] t)))))"

definition father_part :: "env \<Rightarrow> tester \<Rightarrow> part" where
  "father_part E t =
     (let t = t\<lparr>monitored_pid := caller_pid E\<rparr>;
          t = printf E (''Done'' @ nl @ ''[IOCTL] Going back to PID %d (father): '') [monitored_pid t] t
      in checked_ioctl E 0 (monitored_pid t) t (\<lambda>t.
           let t = printf E (''Done'' @ nl @ ''[IOCTL] Changing system call to WRITE: '') [] t
           in checked_ioctl E 1 2 t (\<lambda>t.
           let t = t\<lparr>monitored_sysc := 2\<rparr>;
               t = printf E (''Done'' @ nl @ ''[READ] Reading data from PID %i:'' @ nl) [monitored_pid t] t
           in read_and_print E t (\<lambda>t.
           let t = printf E (''Done'' @ nl @ ''[IOCTL] Reseting statistics for PID %i: '') [monitored_pid t] t
           in checked_ioctl E 2 (monitored_pid t) t (\<lambda>t.
           let t = printf E (''Done'' @ nl @ ''[READ] Reading reset statistics:'' @ nl) [] t
           in read_and_print E t (\<lambda>t.
           let t = printf E (''Done'' @ nl @ ''[IOCTL] Reseting the statistics of every process: '') [] t
           in checked_ioctl E 3 0 t (\<lambda>t.
           let t = printf E (''Done'' @ nl @ ''[READ] Reading reset statistics:'' @ nl) [] t
           in read_and_print E t (\<lambda>t.
           let t = printf E (''Done'' @ nl @ ''[IOCTL] Disable all the system calls: '') [] t
           in checked_ioctl E 5 (-1) t (after_deactivation E)))))))))"

definition first_part :: "env \<Rightarrow> tester \<Rightarrow> part" where
  "first_part E t =
     (let t = printf E (nl @ ''[OPEN] Opening the device: '') [] t;
          (fd, t) = open_file E t
      in if fd < 0 then Some (False, t)
         else let t = printf E (''Done'' @ nl @ ''[OPEN] Trying to open the device again: '') [] t;
                  (fd2, t) = open_file E t
      in if fd2 \<ge> 0 then Some (False, t)
         else let t = printf E (''Done'' @ nl @ ''[READ] Reading data for this process:'' @ nl) [] t
      in read_and_print E t (\<lambda>t. Option.bind (run_child E t) (father_part E)))"

text \<open>\<open>modprobe\<close> loads and unloads the driver; \<open>mknod\<close> makes the name through which \<open>open\<close> reaches it.\<close>

definition test_reader_main :: "env \<Rightarrow> reader \<Rightarrow> part" where
  "test_reader_main E s =
     (let (r, d) = syscalls_mon_driver_init (reg_result E) (alloc_result E) (add_result E) s;
          t = \<lparr>device = d, stats_var = stack_junk E, monitored_pid = caller_pid E, monitored_sysc = 0, printed = []\<rparr>
      in map_option (\<lambda>(ok, t). (ok, if ok then t\<lparr>device := syscalls_mon_driver_exit (device t)\<rparr> else msg_error E t)) (first_part E t))"

section \<open>The device during the test\<close>

text \<open>The caller holds the device, which shows call \<open>c\<close> of process \<open>p\<close>.\<close>

definition shows_call :: "env \<Rightarrow> int \<Rightarrow> int \<Rightarrow> reader \<Rightarrow> bool" where
  "shows_call E p c d \<longleftrightarrow> lock d = 1 \<and> open_pid d = caller_pid E \<and> proc_monitored d = p \<and> sysc_monitored d = c"

text \<open>
  The surroundings in which the test can pass: the superuser runs it, the process and its child exist, \<open>copy_to_user\<close> copies
  everything, the driver loads, and what \<open>printf\<close> makes the monitor count leaves the selection of the reader alone.
\<close>

definition env_ok :: "env \<Rightarrow> bool" where
  "env_ok E \<longleftrightarrow> caller_uid E = 0 \<and> (\<forall>p. p = caller_pid E \<or> child_pid E = Some p \<longrightarrow> in_int p \<and> 0 \<le> p \<and> tasks E p \<noteq> None) \<and>
     (\<forall>f xs d. lock (printf_effect E f xs d) = lock d \<and> open_pid (printf_effect E f xs d) = open_pid d \<and>
        proc_monitored (printf_effect E f xs d) = proc_monitored d \<and> sysc_monitored (printf_effect E f xs d) = sysc_monitored d) \<and>
     (\<forall>a bs u. copy_out E a bs u = (0, bs)) \<and> 0 \<le> reg_result E \<and> alloc_result E \<and> 0 \<le> add_result E"

definition reaches :: "(tester \<Rightarrow> bool) \<Rightarrow> part \<Rightarrow> bool" where
  "reaches Q x \<longleftrightarrow> (\<exists>t. x = Some (True, t) \<and> Q t)"

lemma reaches_Some [simp]: "reaches Q (Some (True, t)) \<longleftrightarrow> Q t"
  by (simp add: reaches_def)

lemma printf_simps [simp]:
  "stats_var (printf E f xs t) = stats_var t" "monitored_pid (printf E f xs t) = monitored_pid t"
  "monitored_sysc (printf E f xs t) = monitored_sysc t" "printed (printf E f xs t) = printed t @ [(f, xs)]"
  by (simp_all add: printf_def)

lemma printf_shows [simp]: "env_ok E \<Longrightarrow> shows_call E p c (device (printf E f xs t)) \<longleftrightarrow> shows_call E p c (device t)"
  by (simp add: printf_def shows_call_def env_ok_def)

lemma printf_lock [simp]: "env_ok E \<Longrightarrow> lock (device (printf E f xs t)) = lock (device t)"
  by (simp add: printf_def env_ok_def)

lemma test_print_stats_shows [simp]: "env_ok E \<Longrightarrow> shows_call E p c (device (test_print_stats E i t)) \<longleftrightarrow> shows_call E p c (device t)"
  by (simp add: test_print_stats_def Let_def)

lemma test_print_stats_simps [simp]: "monitored_pid (test_print_stats E i t) = monitored_pid t" "monitored_sysc (test_print_stats E i t) = monitored_sysc t"
  by (simp_all add: test_print_stats_def Let_def)

lemma read_reaches:
  assumes E: "env_ok E" and d: "shows_call E p c (device t)" and p: "0 \<le> p" "tasks E p \<noteq> None" "0 \<le> c" "c \<le> 5"
    and f: "\<And>t'. shows_call E p c (device t') \<Longrightarrow> monitored_pid t' = monitored_pid t \<Longrightarrow> monitored_sysc t' = monitored_sysc t \<Longrightarrow> reaches Q (f t')"
  shows "reaches Q (read_and_print E t f)"
proof -
  obtain th where th: "tasks E p = Some th" using p(2) by blast
  let ?t = "test_print_stats E (monitored_sysc t) (t\<lparr>stats_var := take 20 (t_info_bytes ((kernel_junk E)\<lparr>n_calls := n_calls (stats (thread (monitored (device t)) th) c),
    n_calls_ok := n_calls_ok (stats (thread (monitored (device t)) th) c), n_calls_err := n_calls_err (stats (thread (monitored (device t)) th) c),
    total := total (stats (thread (monitored (device t)) th) c)\<rparr>))\<rparr>)"
  have "read_and_print E t f = f ?t"
    using E d p th by (simp add: read_and_print_def read_file_def readstats_read_dev_def get_stats_def shows_call_def env_ok_def sizeof_t_info_def Let_def)
  moreover have "shows_call E p c (device ?t)" using E d by simp
  ultimately show ?thesis using f by simp
qed

lemma ioctl_reaches:
  assumes r: "readstats_ioctl_dev (tasks E) (task_list E) r (word_of_int a) (device t) = Some (0, d)" and f: "reaches Q (f (t\<lparr>device := d\<rparr>))"
  shows "reaches Q (checked_ioctl E r a t f)"
  using assms by (simp add: checked_ioctl_def ioctl_def)

lemma select_pid_reaches:
  assumes E: "env_ok E" and d: "shows_call E q c (device t)" and p: "p = caller_pid E \<or> child_pid E = Some p"
    and f: "\<And>d. shows_call E p c d \<Longrightarrow> reaches Q (f (t\<lparr>device := d\<rparr>))"
  shows "reaches Q (checked_ioctl E 0 p t f)"
proof -
  have "in_int p" "0 \<le> p" and "tasks E p \<noteq> None" using E p by (auto simp: env_ok_def)
  then obtain th where th: "tasks E p = Some th" and s: "sint (word_of_int p :: 32 word) = p" "0 \<le> p" using s32_word [of p] by auto
  then show ?thesis
    using d by (intro ioctl_reaches [where f = f, OF _ f]) (auto simp: readstats_ioctl_dev_def Let_def shows_call_def)
qed

lemma select_call_reaches:
  assumes "shows_call E p q (device t)" and "\<And>d. shows_call E p 2 d \<Longrightarrow> reaches Q (f (t\<lparr>device := d\<rparr>))"
  shows "reaches Q (checked_ioctl E 1 2 t f)"
  using assms(1) by (intro ioctl_reaches [where f = f, OF _ assms(2)]) (auto simp: readstats_ioctl_dev_def shows_call_def)

lemma monitored_shows [simp]: "shows_call E p c (d\<lparr>monitored := m\<rparr>) \<longleftrightarrow> shows_call E p c d"
  by (simp add: shows_call_def)

lemma complete_reset_shows: "shows_call E p c (complete_reset procs d) \<longleftrightarrow> shows_call E p c d"
  unfolding complete_reset_def by (induction procs arbitrary: d) (simp_all add: split_beta)

text \<open>The other requests leave the selection alone: resets, and switching all calls.\<close>

lemma request_reaches:
  assumes d: "shows_call E p c (device t)" and p: "tasks E p \<noteq> None" "0 \<le> p" and r: "r \<in> {2, 3} \<or> r \<in> {4, 5} \<and> a = -1"
    and f: "\<And>d. shows_call E p c d \<Longrightarrow> reaches Q (f (t\<lparr>device := d\<rparr>))"
  shows "reaches Q (checked_ioctl E r a t f)"
proof -
  obtain th where th: "tasks E p = Some th" using p(1) by blast
  have "\<exists>d. readstats_ioctl_dev (tasks E) (task_list E) r (word_of_int a) (device t) = Some (0, d) \<and> shows_call E p c d"
  proof (cases "r \<in> {4, 5}")
    case True
    then have "\<exists>m. readstats_ioctl_dev (tasks E) (task_list E) r (word_of_int a) (device t) = Some (0, (device t)\<lparr>monitored := m\<rparr>)"
      using r ioctl_switch [of r "word_of_int a" "tasks E" "task_list E" "device t"] by auto
    then show ?thesis using d by (auto simp: shows_call_def)
  next
    case False
    then show ?thesis
      using r d p th complete_reset_shows [of E p c "task_list E" "device t"]
      by (auto simp: readstats_ioctl_dev_def reset_values_def shows_call_def Let_def)
  qed
  then show ?thesis using ioctl_reaches [where f = f] f by blast
qed

section \<open>The test passes\<close>

text \<open>The rules for the process that runs the test.\<close>

lemma own_process: "env_ok E \<Longrightarrow> 0 \<le> caller_pid E" "env_ok E \<Longrightarrow> tasks E (caller_pid E) \<noteq> None"
  by (auto simp: env_ok_def)

lemma read_own:
  assumes E: "env_ok E" and d: "shows_call E (caller_pid E) c (device t)" and c: "c = 0 \<or> c = 2"
    and f: "\<And>t'. shows_call E (caller_pid E) c (device t') \<Longrightarrow> reaches Q (f t')"
  shows "reaches Q (read_and_print E t f)"
  by (rule read_reaches [OF E d own_process [OF E] _ _ f]) (use c in auto)

lemma request_own:
  assumes E: "env_ok E" and d: "shows_call E (caller_pid E) c (device t)" and r: "r \<in> {2, 3} \<or> r \<in> {4, 5} \<and> a = -1"
    and f: "\<And>t'. shows_call E (caller_pid E) c (device t') \<Longrightarrow> reaches Q (f t')"
  shows "reaches Q (checked_ioctl E r a t f)"
  by (rule request_reaches [OF d own_process(2,1) [OF E] r]) (simp add: f)

definition test_passed :: "tester \<Rightarrow> bool" where
  "test_passed t \<longleftrightarrow> lock (device t) = 0 \<and> last (printed t) = (''Done'' @ nl @ nl @ ''TEST COMPLETED SUCCESFULLY!'' @ nl, [])"

lemma close_passes:
  assumes "env_ok E" "shows_call E p c (device t)"
  shows "reaches test_passed (let (result, t) = close_file t in if result < 0 then Some (False, t)
     else Some (True, printf E (''Done'' @ nl @ nl @ ''TEST COMPLETED SUCCESFULLY!'' @ nl) [] t))"
  using assms by (simp add: close_file_def readstats_release_dev_def shows_call_def test_passed_def Let_def)

lemma after_deactivation_passes:
  assumes E: "env_ok E" and d: "shows_call E (caller_pid E) 2 (device t)"
  shows "reaches test_passed (after_deactivation E t)"
  unfolding after_deactivation_def Let_def
  by (intro read_own [OF E, where c = 2] request_own [OF E, where c = 2] close_passes [OF E, unfolded Let_def]) (use E d in simp_all)

lemma father_passes:
  assumes E: "env_ok E" and d: "shows_call E p 0 (device t)"
  shows "reaches test_passed (father_part E t)"
  unfolding father_part_def Let_def
  by (intro select_pid_reaches [OF E] select_call_reaches read_own [OF E, where c = 2] request_own [OF E, where c = 2] after_deactivation_passes [OF E])
    (use E d in simp_all)

lemma child_shows:
  assumes E: "env_ok E" and d: "shows_call E q 0 (device t)" and c: "child_pid E = Some c"
  shows "reaches (\<lambda>t. shows_call E c 0 (device t)) (child_part E c t)"
proof -
  have "0 \<le> c" "tasks E c \<noteq> None" using E c by (auto simp: env_ok_def)
  then show ?thesis
    unfolding child_part_def Let_def using E d c
    by (intro select_pid_reaches [OF E, where q = q and c = 0] read_reaches [OF E, where p = c and c = 0]) simp_all
qed

lemma run_child_shows:
  assumes E: "env_ok E" and d: "shows_call E q 0 (device t)"
  obtains t' p where "run_child E t = Some t'" and "shows_call E p 0 (device t')"
proof (cases "child_pid E")
  case None
  then show ?thesis using that d by (simp add: run_child_def)
next
  case (Some c)
  obtain tc where "child_part E c t = Some (True, tc)" "shows_call E c 0 (device tc)" using child_shows [OF E d Some] by (auto simp: reaches_def)
  then show ?thesis using that Some by (simp add: run_child_def)
qed

lemma first_passes:
  assumes E: "env_ok E" and d: "lock (device t) = 0" "sysc_monitored (device t) = 0"
  shows "reaches test_passed (first_part E t)"
proof -
  let ?t1 = "printf E (nl @ ''[OPEN] Opening the device: '') [] t"
  have f: "lock (device ?t1) = 0" "sysc_monitored (device ?t1) = 0" "caller_uid E = 0" using E d by (simp_all add: printf_def env_ok_def)
  define t2 where "t2 = ?t1\<lparr>device := (device ?t1)\<lparr>lock := 1, open_pid := caller_pid E, proc_monitored := caller_pid E\<rparr>\<rparr>"
  have o1: "open_file E ?t1 = (0, t2)" using f by (simp add: open_file_def readstats_open_dev_def t2_def Let_def)
  let ?t3 = "printf E (''Done'' @ nl @ ''[OPEN] Trying to open the device again: '') [] t2"
  have s2: "shows_call E (caller_pid E) 0 (device t2)" using f by (simp add: t2_def shows_call_def)
  have "lock (device ?t3) = 1" using E by (simp add: t2_def)
  then have o2: "open_file E ?t3 = (- 1, ?t3)" by (simp add: open_file_def readstats_open_dev_def)
  have "reaches test_passed (Option.bind (run_child E t') (father_part E))" if "shows_call E (caller_pid E) 0 (device t')" for t'
    using run_child_shows [OF E that] father_passes [OF E] by (metis bind.bind_lunit)
  then have "reaches test_passed (read_and_print E (printf E (''Done'' @ nl @ ''[READ] Reading data for this process:'' @ nl) [] ?t3)
      (\<lambda>t. Option.bind (run_child E t) (father_part E)))"
    using E s2 by (intro read_own [OF E, where c = 0]) simp_all
  then show ?thesis unfolding first_part_def Let_def o1 o2 prod.case by simp
qed

text \<open>C27: the repository's own test of the statistics reader succeeds. Run by the superuser, with the driver loaded by it and
  whatever its own output makes the monitor count, the program gets through every step: the second open is refused, each request
  and read of father and child returns no error, and the device is free again at the end.\<close>

theorem test_reader_passes:
  assumes E: "env_ok E"
  shows "\<exists>t. test_reader_main E s = Some (True, t) \<and> test_passed t"
proof -
  obtain d where d: "syscalls_mon_driver_init (reg_result E) (alloc_result E) (add_result E) s = (0, d)" "lock d = 0" "sysc_monitored d = 0"
    using E by (auto simp: env_ok_def syscalls_mon_driver_init_def dev_call_def log_line_def Let_def)
  let ?t = "\<lparr>device = d, stats_var = stack_junk E, monitored_pid = caller_pid E, monitored_sysc = 0, printed = []\<rparr>"
  obtain t where "first_part E ?t = Some (True, t)" "test_passed t" using first_passes [OF E, of ?t] d(2,3) by (auto simp: reaches_def)
  then show ?thesis using d(1)
    by (simp add: test_reader_main_def test_passed_def syscalls_mon_driver_exit_def dev_call_def log_line_def Let_def)
qed

text \<open>Process 7 with the child 1; every \<open>printf\<close> takes some time.\<close>

definition lx_env :: env where
  "lx_env = \<lparr>caller_uid = 0, caller_pid = 7, child_pid = Some 1, tasks = lx_find, task_list = [(1, 40), (7, 41)],
     printf_effect = (\<lambda>_ _ d. d\<lparr>monitored := (monitored d)\<lparr>tsc := tsc (monitored d) + 1\<rparr>\<rparr>), copy_out = (\<lambda>_ bs _. (0, bs)), stats_addr = 4096,
     kernel_junk = zero_info, stack_junk = [], err_text = [], reg_result = 0, alloc_result = True, add_result = 0\<rparr>"

theorem test_reader_passes_witness:
  "\<exists>t. test_reader_main lx_env lx_reader = Some (True, t) \<and> lock (device t) = 0"
proof -
  have "env_ok lx_env" by (simp add: env_ok_def lx_env_def lx_find_def in_int_def)
  from test_reader_passes [OF this, of lx_reader] show ?thesis by (auto simp: test_passed_def)
qed

end
