(* ===== verification/Build.thy ===== *)
theory Build
  imports Bytes
begin

text \<open>
  The image builder (\<open>zeos/build.c\<close>): a program of the host that puts the boot sector, the system and the user program
  into one image, and writes the lengths the boot code and the kernel look for into it.

  \<open>files\<close> is the file system of the host, from names to contents; \<open>seekable\<close> tells whether the standard output is a
  file. \<open>read\<close> delivers what is left of a regular file and \<open>write\<close> takes all it is given. \<open>die\<close> is a result \<open>Inl\<close> with
  its message. The host has 32-bit \<open>long\<close>s, as the type \<open>u32\<close> of the source requires.
\<close>

unbundle bit_operations_syntax

section \<open>State\<close>

record build =
  buf :: "8 word list"
  rest :: "8 word list"
  out :: "8 word list"
  pos :: nat

type_synonym 'a may_die = "string + 'a"

definition or_die :: "'a may_die \<Rightarrow> ('a \<Rightarrow> 'b may_die) \<Rightarrow> 'b may_die" where
  "or_die x f = (case x of Inl e \<Rightarrow> Inl e | Inr v \<Rightarrow> f v)"

text \<open>\<open>read(fd, buf, n)\<close> and \<open>write(1, buf, n)\<close>; a write behind the end leaves zeros.\<close>

definition read_buf :: "nat \<Rightarrow> build \<Rightarrow> nat \<times> build" where
  "read_buf n b = (let data = take n (rest b)
     in (length data, b\<lparr>buf := data @ drop (length data) (buf b), rest := drop n (rest b)\<rparr>))"

definition write_at :: "nat \<Rightarrow> 8 word list \<Rightarrow> 8 word list \<Rightarrow> 8 word list" where
  "write_at p bs xs = take p (xs @ replicate (p - length xs) 0) @ bs @ drop (p + length bs) xs"

definition write_buf :: "nat \<Rightarrow> build \<Rightarrow> build" where
  "write_buf n b = b\<lparr>out := write_at (pos b) (take n (buf b)) (out b), pos := pos b + length (take n (buf b))\<rparr>"

definition set_buf :: "nat \<Rightarrow> 8 word \<Rightarrow> build \<Rightarrow> build" where
  "set_buf i v b = b\<lparr>buf := (buf b)[i := v]\<rparr>"

section \<open>The program\<close>

definition minix_hdr :: "8 word list" where
  "minix_hdr = [0x01, 0x03, 0x10, 0x04, 0x20, 0x00, 0x00, 0x00]"

definition lb :: "nat \<Rightarrow> build \<Rightarrow> 32 word" where
  "lb i b = le_word (take 4 (drop (4 * i) (buf b)))"

definition minix_open :: "(string \<Rightarrow> 8 word list option) \<Rightarrow> string \<Rightarrow> build \<Rightarrow> build may_die" where
  "minix_open files name b =
     (case files name of
        None \<Rightarrow> Inl ''Unable to open''
      | Some content \<Rightarrow>
          let (n, b) = read_buf 32 (b\<lparr>rest := content\<rparr>)
          in if n \<noteq> 32 then Inl ''Unable to read header''
             else if take 8 (buf b) \<noteq> minix_hdr \<or> lb 5 b \<noteq> 0 then Inl ''Non-Minix header''
             else if lb 3 b \<noteq> 0 then Inl ''Illegal data segment''
             else if lb 4 b \<noteq> 0 then Inl ''Illegal bss segment''
             else if lb 7 b \<noteq> 0 then Inl ''Illegal symbol table''
             else Inr b)"

text \<open>The loop that copies the rest of an open file in pieces of the size of the buffer.\<close>

function copy_loop :: "nat \<Rightarrow> build \<Rightarrow> build may_die" where
  "copy_loop sz b =
     (if sz > 0 then
        let l = (if sz > 1024 then 1024 else sz);
            (n, b) = read_buf l b
        in if n \<noteq> l then Inl ''Unexpected EOF'' else copy_loop (sz - l) (write_buf l b)
      else Inr b)"
  by pat_completeness auto
termination
  by (relation "measure fst") auto

declare copy_loop.simps [simp del]

definition copy_file :: "(string \<Rightarrow> 8 word list option) \<Rightarrow> string \<Rightarrow> build \<Rightarrow> (32 word \<times> build) may_die" where
  "copy_file files name b =
     (case files name of
        None \<Rightarrow> Inl ''Unable to open''
      | Some content \<Rightarrow>
          let sz = (of_nat (length content) :: 32 word)
          in or_die (copy_loop (unat sz) (b\<lparr>rest := content\<rparr>)) (\<lambda>b. Inr (sz, b)))"

text \<open>The boot sector, up to its copy to the output; major and minor root device are 0.\<close>

definition copy_boot :: "(string \<Rightarrow> 8 word list option) \<Rightarrow> string \<Rightarrow> build \<Rightarrow> build may_die" where
  "copy_boot files name b = or_die (minix_open files name b) (\<lambda>b.
     let (i, b) = read_buf 1024 b
     in if i \<noteq> 512 then Inl ''Boot block must be exactly 512 bytes''
        else if buf b ! 510 \<noteq> 0x55 \<or> buf b ! 511 \<noteq> 0xAA then Inl ''Boot block hasn't got boot flag (0xAA55)''
        else Inr (write_buf 512 (set_buf 509 0 (set_buf 508 0 b))))"

definition put3 :: "32 word \<Rightarrow> build \<Rightarrow> build" where
  "put3 v b = set_buf 3 0 (set_buf 2 (ucast (drop_bit 16 v AND 0xFF)) (set_buf 1 (ucast (drop_bit 8 v AND 0xFF)) (set_buf 0 (ucast (v AND 0xFF)) b)))"

definition build_main :: "(string \<Rightarrow> 8 word list option) \<Rightarrow> bool \<Rightarrow> string list \<Rightarrow> build \<Rightarrow> (8 word list) may_die" where
  "build_main files seekable argv b =
     (if length argv \<noteq> 4 then Inl ''Usage: build bootsect system user [> image]''
      else or_die (copy_boot files (argv ! 1) b) (\<lambda>b.
           or_die (copy_file files (argv ! 2) b) (\<lambda>(sys_size, b).
           or_die (copy_file files (argv ! 3) b) (\<lambda>(usr_size, b).
           if \<not> seekable then Inl ''Output: seek failed''
           else
             let b = b\<lparr>pos := 500\<rparr>;
                 im_size = (sys_size + usr_size + 15) div 16;
                 b = set_buf 1 (ucast (drop_bit 8 im_size AND 0xFF)) (set_buf 0 (ucast (im_size AND 0xFF)) b);
                 b = write_buf 2 b;
                 b = write_buf 4 (put3 sys_size (b\<lparr>pos := 512\<rparr>));
                 b = write_buf 4 (put3 usr_size (b\<lparr>pos := 516\<rparr>));
                 b = write_buf 4 (put3 0x7DAA (b\<lparr>pos := 520\<rparr>))
             in Inr (out b)))))"

section \<open>Copying\<close>

lemma write_at_end: "p = length xs \<Longrightarrow> write_at p bs xs = xs @ bs"
  by (simp add: write_at_def)

lemma write_at_in: "p + length bs \<le> length xs \<Longrightarrow> write_at p bs xs = take p xs @ bs @ drop (p + length bs) xs"
  by (simp add: write_at_def)

definition ready :: "build \<Rightarrow> bool" where
  "ready b \<longleftrightarrow> length (buf b) = 1024 \<and> pos b = length (out b)"

lemma copy_step:
  assumes "l \<le> length (rest b)" "l \<le> 1024" "ready b"
  shows "fst (read_buf l b) = l" "ready (write_buf l (snd (read_buf l b)))"
    "out (write_buf l (snd (read_buf l b))) = out b @ take l (rest b)" "rest (write_buf l (snd (read_buf l b))) = drop l (rest b)"
  using assms by (simp_all add: read_buf_def write_buf_def ready_def write_at_end Let_def)

text \<open>The loop ends, copies exactly the rest of the file and nothing else.\<close>

lemma copy_loop_ok:
  "sz \<le> length (rest b) \<Longrightarrow> ready b \<Longrightarrow> \<exists>b'. copy_loop sz b = Inr b' \<and> ready b' \<and> out b' = out b @ take sz (rest b)"
proof (induction sz arbitrary: b rule: less_induct)
  case (less sz)
  show ?case
  proof (cases "sz = 0")
    case True
    then show ?thesis using less.prems by (simp add: copy_loop.simps)
  next
    case False
    define l where "l = (if sz > 1024 then 1024 else sz)"
    define b1 where "b1 = write_buf l (snd (read_buf l b))"
    have l: "0 < l" "l \<le> sz" "l \<le> 1024" using False by (simp_all add: l_def)
    note s = copy_step [of l b, folded b1_def]
    have "\<exists>b'. copy_loop (sz - l) b1 = Inr b' \<and> ready b' \<and> out b' = out b1 @ take (sz - l) (rest b1)"
      using l less.prems s by (intro less.IH) auto
    moreover have "copy_loop sz b = copy_loop (sz - l) b1"
      using False s(1) l less.prems by (subst copy_loop.simps) (auto simp: l_def [symmetric] b1_def Let_def split: prod.splits)
    moreover have "out b1 @ take (sz - l) (rest b1) = out b @ take sz (rest b)"
      using s l less.prems by (simp flip: take_add) 
    ultimately show ?thesis by simp
  qed
qed

lemma copy_file_ok:
  assumes "files name = Some content" "length content < 2 ^ 32" "ready b"
  shows "\<exists>b'. copy_file files name b = Inr (of_nat (length content), b') \<and> ready b' \<and> out b' = out b @ content"
proof -
  have u: "unat (of_nat (length content) :: 32 word) = length content" using assms(2) by (simp add: unsigned_of_nat take_bit_nat_eq_self)
  obtain b' where "copy_loop (length content) (b\<lparr>rest := content\<rparr>) = Inr b'" "ready b'" "out b' = out b @ content"
    using copy_loop_ok [of "length content" "b\<lparr>rest := content\<rparr>"] assms(3) by (auto simp: ready_def)
  then show ?thesis using assms(1) u by (simp add: copy_file_def or_die_def Let_def)
qed

section \<open>The boot sector\<close>

text \<open>A file with the header of \<open>ld86\<close> and a boot sector of 512 bytes with its flag.\<close>

definition boot_file :: "8 word list \<Rightarrow> 8 word list \<Rightarrow> 8 word list \<Rightarrow> bool" where
  "boot_file content hdr boot \<longleftrightarrow> content = hdr @ boot \<and> length hdr = 32 \<and> length boot = 512 \<and> take 8 hdr = minix_hdr \<and>
     (\<forall>i\<in>{3, 4, 5, 7}. take 4 (drop (4 * i) hdr) = replicate 4 0) \<and> boot ! 510 = 0x55 \<and> boot ! 511 = 0xAA"

lemma copy_boot_ok:
  assumes f: "files name = Some content" "boot_file content hdr boot" and b: "ready b"
  shows "\<exists>b'. copy_boot files name b = Inr b' \<and> ready b' \<and> out b' = out b @ take 508 boot @ [0, 0, 0x55, 0xAA]"
proof -
  note B = f(2) [unfolded boot_file_def]
  define b1 where "b1 = b\<lparr>buf := hdr @ drop 32 (buf b), rest := boot\<rparr>"
  have r1: "read_buf 32 (b\<lparr>rest := content\<rparr>) = (32, b1)" using B by (simp add: read_buf_def b1_def Let_def)
  have z: "le_word (replicate 4 0) = (0 :: 32 word)" by (simp add: le_word_def numeral_eq_Suc)
  have "lb i b1 = 0" if "i \<in> {3, 4, 5, 7}" for i
  proof -
    have "take 4 (drop (4 * i) (buf b1)) = take 4 (drop (4 * i) hdr)" using that B by (auto simp: b1_def)
    then show ?thesis using that B z by (auto simp: lb_def)
  qed
  then have m: "minix_open files name b = Inr b1" using f(1) r1 B by (simp add: minix_open_def b1_def)
  define b2 where "b2 = b1\<lparr>buf := boot @ drop 512 (buf b1), rest := []\<rparr>"
  have r2: "read_buf 1024 b1 = (512, b2)" using B by (simp add: read_buf_def b1_def b2_def Let_def)
  have l: "length (buf b2) = 1024" using B b by (simp add: b2_def b1_def ready_def)
  have "drop 508 boot = [boot ! 508, boot ! 509, 0x55, 0xAA]" using B by (simp add: Cons_nth_drop_Suc [symmetric] numeral_eq_Suc)
  then obtain p x y where bt: "boot = p @ [x, y, 0x55, 0xAA]" "p = take 508 boot" by (metis append_take_drop_id)
  have p: "length p = 508" using bt(2) B by simp
  have "take 512 ((p @ [x, y, 0x55, 0xAA] @ zs)[508 := 0, 509 := 0]) = p @ [0, 0, 0x55, 0xAA]" for zs
    using p by (simp add: list_update_append)
  then have t: "take 512 (buf (set_buf 509 0 (set_buf 508 0 b2))) = take 508 boot @ [0, 0, 0x55, 0xAA]"
    unfolding bt(2) [symmetric] by (simp add: b2_def set_buf_def bt(1))
  have "copy_boot files name b = Inr (write_buf 512 (set_buf 509 0 (set_buf 508 0 b2)))"
    using m r2 B by (simp add: copy_boot_def or_die_def b2_def nth_append)
  moreover have "ready (write_buf 512 (set_buf 509 0 (set_buf 508 0 b2))) \<and>
      out (write_buf 512 (set_buf 509 0 (set_buf 508 0 b2))) = out b @ take 508 boot @ [0, 0, 0x55, 0xAA]"
    using b l t B by (simp add: write_buf_def ready_def write_at_end set_buf_def b2_def b1_def)
  ultimately show ?thesis by blast
qed

section \<open>The lengths\<close>

lemma and_FF: "ucast (v AND 0xFF) = (ucast (v :: 32 word) :: 8 word)"
proof -
  have "v AND 0xFF = take_bit 8 v" by (simp add: take_bit_eq_mask mask_eq_exp_minus_1)
  then show ?thesis by (simp only:) (rule bit_word_eqI; auto simp: bit_simps)
qed

lemma top_byte: "unat v < 2 ^ 24 \<Longrightarrow> ucast (drop_bit 24 (v :: 32 word)) = (0 :: 8 word)"
proof -
  assume "unat v < 2 ^ 24"
  then have "unat (drop_bit 24 v) = 0" unfolding unsigned_drop_bit_eq by (simp add: drop_bit_eq_div take_bit_nat_eq_self)
  then have "drop_bit 24 v = 0" using unat_0_iff by blast
  then show ?thesis by simp
qed

lemma put3_bytes:
  assumes "4 \<le> length (buf b)" "unat v < 2 ^ 24"
  shows "take 4 (buf (put3 v b)) = le_bytes 4 v"
proof -
  obtain x0 x1 x2 x3 xs where "buf b = x0 # x1 # x2 # x3 # xs" using assms(1) by (auto simp: numeral_eq_Suc Suc_le_length_iff)
  then show ?thesis using top_byte [OF assms(2)] by (simp add: put3_def set_buf_def le_bytes_def and_FF upt_rec numeral_eq_Suc)
qed

text \<open>Putting four bytes at an offset of the output.\<close>

lemma put_at:
  assumes b: "length (buf b) = 1024" "p + 4 \<le> length (out b)" and v: "unat v < 2 ^ 24"
  shows "out (write_buf 4 (put3 v (b\<lparr>pos := p\<rparr>))) = take p (out b) @ le_bytes 4 v @ drop (p + 4) (out b)"
    "length (buf (write_buf 4 (put3 v (b\<lparr>pos := p\<rparr>)))) = 1024"
proof -
  have "take 4 (buf (put3 v (b\<lparr>pos := p\<rparr>))) = le_bytes 4 v" using put3_bytes [of "b\<lparr>pos := p\<rparr>" v] b v by simp
  then show "out (write_buf 4 (put3 v (b\<lparr>pos := p\<rparr>))) = take p (out b) @ le_bytes 4 v @ drop (p + 4) (out b)"
    using b by (simp add: write_buf_def write_at_in) (simp add: put3_def set_buf_def write_at_in)
  show "length (buf (write_buf 4 (put3 v (b\<lparr>pos := p\<rparr>)))) = 1024" using b by (simp add: write_buf_def put3_def set_buf_def)
qed

definition image_of :: "8 word list \<Rightarrow> 8 word list \<Rightarrow> 8 word list \<Rightarrow> 8 word list" where
  "image_of boot sys usr = take 500 boot @ le_bytes 2 ((of_nat (length sys) + of_nat (length usr) + 15) div 16 :: 32 word) @
     drop 502 (take 508 boot) @ [0, 0, 0x55, 0xAA] @
     le_bytes 4 (of_nat (length sys) :: 32 word) @ le_bytes 4 (of_nat (length usr) :: 32 word) @ le_bytes 4 (0x7DAA :: 32 word) @
     drop 12 (sys @ usr)"

lemma build_main_ok:
  assumes f: "files bf = Some content" "boot_file content hdr boot" "files sf = Some sys" "files uf = Some usr"
    and n: "length sys < 2 ^ 24" "length usr < 2 ^ 24" "12 \<le> length sys + length usr" and b: "ready b" "out b = []"
  shows "build_main files True [prog, bf, sf, uf] b = Inr (image_of boot sys usr)"
proof -
  note B = f(2) [unfolded boot_file_def]
  define im where "im = ((of_nat (length sys) + of_nat (length usr) + 15) div 16 :: 32 word)"
  define pre where "pre = take 508 boot @ [0, 0, 0x55, 0xAA]"
  have pre: "length pre = 512" using B by (simp add: pre_def)
  obtain b1 where b1: "copy_boot files bf b = Inr b1" "ready b1" "out b1 = pre"
    using copy_boot_ok [of files bf content hdr boot b] f(1,2) b by (auto simp: pre_def)
  obtain b2 where b2: "copy_file files sf b1 = Inr (of_nat (length sys), b2)" "ready b2" "out b2 = pre @ sys"
    using copy_file_ok [of files sf sys b1] f(3) b1(2) n b1(3) by auto
  obtain b3 where b3: "copy_file files uf b2 = Inr (of_nat (length usr), b3)" "ready b3" "out b3 = pre @ sys @ usr"
    using copy_file_ok [of files uf usr b2] f(4) b2(2) n b2(3) by auto
  define b4 where "b4 = write_buf 2 (set_buf 1 (ucast (drop_bit 8 im AND 0xFF)) (set_buf 0 (ucast (im AND 0xFF)) (b3\<lparr>pos := 500\<rparr>)))"
  define b5 where "b5 = write_buf 4 (put3 (of_nat (length sys)) (b4\<lparr>pos := 512\<rparr>))"
  define b6 where "b6 = write_buf 4 (put3 (of_nat (length usr)) (b5\<lparr>pos := 516\<rparr>))"
  define b7 where "b7 = write_buf 4 (put3 0x7DAA (b6\<lparr>pos := 520\<rparr>))"
  have main: "build_main files True [prog, bf, sf, uf] b = Inr (out b7)"
    by (simp add: build_main_def or_die_def b1 b2 b3 Let_def b4_def b5_def b6_def b7_def im_def)
  obtain y0 y1 ys where y: "buf b3 = y0 # y1 # ys" "length ys = 1022"
    using b3(2) by (cases "buf b3"; cases "tl (buf b3)") (auto simp: ready_def)
  define low where "low = take 500 boot @ le_bytes 2 im @ drop 502 (take 508 boot) @ [0, 0, 0x55, 0xAA]"
  have low: "length low = 512" using B by (simp add: low_def)
  have o4: "out b4 = low @ sys @ usr" "length (buf b4) = 1024"
    using y B b3(3) by (simp_all add: b4_def write_buf_def set_buf_def write_at_in low_def pre_def le_bytes_def and_FF upt_rec numeral_2_eq_2)
  have u: "unat (of_nat (length sys) :: 32 word) < 2 ^ 24" "unat (of_nat (length usr) :: 32 word) < 2 ^ 24" "unat (0x7DAA :: 32 word) < 2 ^ 24"
    using n by (simp_all add: unsigned_of_nat take_bit_nat_eq_self)
  define c where "c = sys @ usr"
  have c: "12 \<le> length c" "out b4 = low @ c" using n(3) o4(1) by (simp_all add: c_def)
  have o5: "out b5 = low @ le_bytes 4 (of_nat (length sys) :: 32 word) @ drop 4 c" "length (buf b5) = 1024"
    using put_at [of b4 512 "of_nat (length sys)"] o4(2) u c low by (simp_all add: b5_def)
  have o6: "out b6 = low @ le_bytes 4 (of_nat (length sys) :: 32 word) @ le_bytes 4 (of_nat (length usr) :: 32 word) @ drop 8 c" "length (buf b6) = 1024"
    using put_at [of b5 516 "of_nat (length usr)"] o5 u c(1) low by (simp_all add: b6_def)
  have "out b7 = low @ le_bytes 4 (of_nat (length sys) :: 32 word) @ le_bytes 4 (of_nat (length usr) :: 32 word) @ le_bytes 4 (0x7DAA :: 32 word) @ drop 12 c"
    using put_at [of b6 520 "0x7DAA"] o6 u c(1) low by (simp add: b7_def)
  then show ?thesis by (simp only: main image_of_def low_def im_def c_def append_assoc)
qed

end
