(* ===== verification/Spec2Isabelle.thy ===== *)
theory Spec2Isabelle
  imports Libc Progress Stacks TestReader Build
begin

text \<open>
  ZeOS and the system call monitor: a verification library of the two programs of this repository.

  \<^bold>\<open>The programs.\<close> \<open>src/zeos\<close> is a small kernel for the i386, in C with assembly entry code: paging with one page table
  that is rewritten at every context switch, up to ten processes with a round-robin scheduler, semaphores, a RAM disk
  with a FAT, devices behind tables of operations (console, keyboard, files), interrupts and system calls.
  \<open>src/kernel-module\<close> is a module for Linux that puts traps into the system call table and keeps statistics, with a
  second module that makes them readable through a character device.

  \<^bold>\<open>How the code appears.\<close> A \<open>struct\<close> is a record, the globals of the kernel are the record \<open>kernel\<close>, every function of
  the sources is a definition that maps the state before it to the result and the state after it. Undefined behaviour
  (NULL or wild pointers, an index outside an array) is the result \<open>None\<close>; a routine of the kernel returns, switches to
  another process, or halts (\<open>outcome\<close> in \<open>ZPrelude\<close>). Integers are \<open>int\<close> with the conversions \<open>s32\<close> and \<open>u32\<close> where a value can
  leave its range, bytes, registers and hardware tables are words. Intrusive lists are next and previous pointers in
  an explicit heap, memory is a function from physical addresses to bytes that user code and kernel reach through
  the page table. Assembly is what it does to registers and memory: the saved context of a process is the top of its
  kernel stack.

  \<^bold>\<open>Theories of the kernel.\<close>
  \<^item> \<open>ZPrelude\<close>: integers, arrays, loops, outcomes. \<open>Bytes\<close>: integers in memory.
  \<^item> \<open>ListHead\<close> (\<open>include/list.h\<close>): the list operations; a locale states the contract of a set of queues on disjoint
    rings, the heap of pointers is its interpretation, and every client of the lists works with sequences.
  \<^item> \<open>Mm\<close> (\<open>mm.c\<close>): page table, frames, GDT and TSS. \<open>Utils\<close> (\<open>utils.c\<close>): \<open>copy_data\<close> over a locale of memories (flat and paged),
    \<open>access_ok\<close>, strings. \<open>Io\<close> (\<open>io.c\<close>): the screen.
  \<^item> \<open>Filesystem\<close> (\<open>filesystem.c\<close>) and \<open>Files\<close> (\<open>devices.c\<close>): the FAT, the directory, open files; reading and writing regular
    files, with the contents of a file as the abstract view.
  \<^item> \<open>Kernel\<close> (data of \<open>sched.h\<close>), \<open>Sched\<close> (\<open>sched.c\<close>), \<open>Semaphores\<close> and \<open>Process\<close> (\<open>sys.c\<close>): tasks, the switch, the scheduler, wait,
    signal and destroy, fork, exit.
  \<^item> \<open>Devices\<close> and \<open>Keyboard\<close> (\<open>devices.c\<close>, \<open>interrupt.c\<close>): console, circular buffer, delivery to a blocked process.
    \<open>FileSys\<close> (\<open>sys.c\<close>): open, close, dup, read, write, unlink over the tables of operations.
  \<^item> \<open>Interrupts\<close> (\<open>interrupt.c\<close>) and \<open>Syscalls\<close> (\<open>entry.S\<close>): the IDT, the routines, the handlers, the system call table, and
    \<open>kstep\<close>, the step relation of the whole system.
  \<^item> \<open>Invariants\<close> and \<open>Reachable\<close>: the invariant \<open>kinv\<close> (queues, frames, mapping, isolation, semaphores, pids,
    descriptors, the kernel stack in the TSS) and that every entry into the kernel keeps it.
  \<^item> \<open>System\<close> (\<open>system.c\<close>, \<open>hardware.c\<close>): \<open>main\<close>, from the loaded image to user mode, and the routines on processor registers. \<open>Scenarios\<close>: concrete runs for the witnesses.
  \<^item> \<open>KernelProps\<close>, \<open>HandlerProps\<close>, \<open>IoProps\<close>: the properties of processes, of entries into the kernel, and of input and output.
  \<^item> \<open>Progress\<close>: that handlers terminate, so that sequences of events are served. \<open>Stacks\<close> (\<open>current()\<close> of \<open>sched.c\<close>, \<open>list_entry\<close>): the
    addresses behind the indices of the model.
  \<^item> \<open>Stdio\<close> (\<open>stdio.c\<close>): the string functions of user programs. \<open>Libc\<close> (\<open>libc.c\<close>): the wrappers, \<open>errno\<close>, \<open>perror\<close>. \<open>Build\<close> (\<open>build.c\<close>): the program that writes the image.

  \<^bold>\<open>Theories of the monitor.\<close>
  \<^item> \<open>Monitor\<close> (\<open>syscalls_mon.c\<close>): the traps, split at the original call so that \<open>mon_step\<close> interleaves the calls of all
    threads, the statistics, loading and unloading; a locale for switching calls on and off, interpreted for both directions.
  \<^item> \<open>MonitorReader\<close> (\<open>syscalls_mon_reader.c\<close>): the device with read, ioctl, open and release. \<open>TestReader\<close> (\<open>test_reader.c\<close>):
    the program that tests it.
  Functions of Linux (\<open>find_task_by_pid\<close>, the original system calls, \<open>copy_to_user\<close>, device registration) are parameters.

  \<^bold>\<open>What is shown.\<close> The whole system: from the image to user mode (\<open>image_boots\<close>, below), the invariant in every reachable
  state, isolation of the memory of processes, what each entry does to registers, that entries with their arguments in registers
  always come back, that \<open>current()\<close> finds the running process. Processes: round robin, fork and its
  failures, exit, semaphores as P and V on a counter with a queue, keyboard reads. Files: what is written is read back,
  blocks are conserved, the errors of open, reference counts, unlink. Memory: the least free frame, the kernel's mapping,
  copies, queues as sequences, the strings of user programs and kernel. The C library: each wrapper is its kernel routine with the error convention of C.
  The monitor: counters consistent under every interleaving, transparent traps, the table restored by unloading, an
  exclusive device, the bytes of a read, and that the test program of the reader passes. Where the code does not do what its comments say, the property states what it
  does (\<open>access_ok_ignores_address\<close>, \<open>last_exit_returns\<close>, the results of \<open>readstats_read_dev\<close>).

  \<^bold>\<open>Bounds and loops.\<close> Loops of the sources are \<open>for_to\<close>, \<open>for_opt\<close> and \<open>scan\<close> with a measure, functions with a termination
  proof, or \<open>partial_function (option)\<close> where the loop follows pointers or strings; then the lemmas show that it returns
  (\<open>wake_all\<close>, \<open>strlen\<close>, \<open>fat_last\<close>). There is no fuel. Pids are assumed below \<open>2^31 - 1\<close> in \<open>kstep\<close>. Addresses of objects of the
  kernel image are the record \<open>layout\<close>, and the properties hold for every layout that fits.

  \<^bold>\<open>Not modelled.\<close> The boot sector (\<open>bootsect.S\<close>, real mode and BIOS; its effect is the hypothesis of \<open>image_boots\<close>),
  \<open>user.c\<close> (it calls \<open>runjp()\<close>, which is not in the repository, and is otherwise commented out; user code is arbitrary in the model),
  \<open>test_mon.c\<close> (it makes system calls of Linux and looks at their results), caches and the timing of the hardware.
\<close>

section \<open>From the image to user mode\<close>

text \<open>The parts of an image.\<close>

lemma image_of_parts:
  assumes b: "length boot = 512" and n: "12 \<le> length sys + length usr" and i: "i < length sys + length usr"
  shows "length (image_of boot sys usr) = 512 + length sys + length usr"
    "drop 512 (image_of boot sys usr) = le_bytes 4 (of_nat (length sys) :: 32 word) @ le_bytes 4 (of_nat (length usr) :: 32 word) @
      le_bytes 4 (0x7DAA :: 32 word) @ drop 12 (sys @ usr)"
    "12 \<le> i \<Longrightarrow> image_of boot sys usr ! (512 + i) = (sys @ usr) ! i"
proof -
  show d: "drop 512 (image_of boot sys usr) = le_bytes 4 (of_nat (length sys) :: 32 word) @ le_bytes 4 (of_nat (length usr) :: 32 word) @
      le_bytes 4 (0x7DAA :: 32 word) @ drop 12 (sys @ usr)"
    using b by (simp add: image_of_def del: drop_append [of _ sys])
  show l: "length (image_of boot sys usr) = 512 + length sys + length usr" using b n by (simp add: image_of_def)
  assume "12 \<le> i"
  have "image_of boot sys usr ! (512 + i) = drop 512 (image_of boot sys usr) ! i" using l i by simp
  also have "\<dots> = drop 12 (sys @ usr) ! (i - 12)" unfolding d using \<open>12 \<le> i\<close> by (auto simp: nth_append simp del: drop_append)
  also have "\<dots> = (sys @ usr) ! i" using \<open>12 \<le> i\<close> i n by (subst nth_drop) auto
  finally show "image_of boot sys usr ! (512 + i) = (sys @ usr) ! i" .
qed

text \<open>Reading the lengths in memory, when the sectors behind the boot sector were loaded at \<open>0x10000\<close>.\<close>

definition loaded_at :: "8 word list \<Rightarrow> kernel \<Rightarrow> bool" where
  "loaded_at img k \<longleftrightarrow> (\<forall>i. i < length img - 512 \<longrightarrow> ram (mm k) (0x10000 + int i) = img ! (512 + i))"

lemma loaded_at_word:
  assumes l: "loaded_at img k" and d: "drop 512 img = xs @ le_bytes 4 (of_nat v :: 32 word) @ ys" and v: "v < 2 ^ 32"
  shows "image32 k (0x10000 + int (length xs)) = int v"
proof -
  have len: "length img = 512 + length (drop 512 img)" using arg_cong [OF d, of length] by auto
  have "ram (mm k) (0x10000 + int (length xs) + int i) = le_bytes 4 (of_nat v :: 32 word) ! i" if "i < 4" for i
  proof -
    have "ram (mm k) (0x10000 + int (length xs + i)) = img ! (512 + (length xs + i))"
      by (rule l [unfolded loaded_at_def, rule_format]) (use len that in \<open>simp add: d\<close>)
    also have "\<dots> = drop 512 img ! (length xs + i)" using len by simp
    also have "\<dots> = le_bytes 4 (of_nat v :: 32 word) ! i" unfolding d using that by (simp add: nth_append)
    finally show ?thesis by (simp add: add.assoc)
  qed
  then have "map (\<lambda>i. ram (mm k) (0x10000 + int (length xs) + int i)) [0..<4] = le_bytes 4 (of_nat v :: 32 word)"
    by (intro nth_equalityI) simp_all
  then show ?thesis using v by (simp add: image32_def horner_le_bytes unsigned_of_nat take_bit_nat_eq_self)
qed

text \<open>C2: what the image builder writes is what the kernel starts. From a boot file, a system and a user program of fitting
  sizes the builder makes an image of 512 bytes and the two programs, with the lengths in place; once the boot code has
  loaded it at \<open>0x10000\<close>, \<open>main\<close> reaches user mode with the kernel invariant and every byte of the user program at
  its address in the first process.\<close>

theorem image_boots:
  assumes f: "files bf = Some content" "boot_file content hdr boot" "files sf = Some sys" "files uf = Some usr" and b: "ready b" "out b = []"
    and img: "\<And>img. build_main files True [prog, bf, sf, uf] b = Inr img \<Longrightarrow> loaded_at img (kern M)"
    and ta: "4096 dvd task_addr (lay (kern M))" "0x11000 \<le> task_addr (lay (kern M))" "task_addr (lay (kern M)) + 81920 \<le> 0x10000 + int (length sys)"
    and n: "0x10000 + int (length sys) + int (length usr) \<le> L_USER_START" "length usr \<le> 114688 - 16"
    and z: "\<forall>i. init (sem (kern M) i) = 0 \<and> count (sem (kern M) i) = 0" "cur (kern M) = 0"
  shows "\<exists>img M'. build_main files True [prog, bf, sf, uf] b = Inr img \<and> length img = 512 + length sys + length usr \<and>
    main haddr M = Some M' \<and> kinv (kern M') \<and> r_eip (cpu M') = 0x100000 \<and>
    (\<forall>i<length usr. uld (mm (kern M')) (L_USER_START + int i) = Some (usr ! i))"
proof -
  define img where "img = image_of boot sys usr"
  have sz: "length sys < 2 ^ 24" "length usr < 2 ^ 24" "12 \<le> length sys" using ta n by auto
  have bm: "build_main files True [prog, bf, sf, uf] b = Inr img"
    unfolding img_def by (rule build_main_ok [where content = content, OF f(1-4)]) (use sz b in auto)
  have bl: "length boot = 512" using f(2) by (simp add: boot_file_def)
  have pos: "0 < length sys + length usr" using sz by linarith
  note P = image_of_parts [OF bl, of sys usr, folded img_def]
  have l: "loaded_at img (kern M)" by (rule img [OF bm])
  have d: "drop 512 img = le_bytes 4 (of_nat (length sys) :: 32 word) @ le_bytes 4 (of_nat (length usr) :: 32 word) @
      le_bytes 4 (0x7DAA :: 32 word) @ drop 12 (sys @ usr)" and len: "length img = 512 + length sys + length usr"
    using P(1,2) [OF _ pos] sz by auto
  have s: "image32 (kern M) 0x10000 = int (length sys)" using loaded_at_word [OF l, of "[]" "length sys"] d sz by simp
  have u: "image32 (kern M) 0x10004 = int (length usr)"
    using loaded_at_word [OF l, of "le_bytes 4 (of_nat (length sys) :: 32 word)" "length usr"] d sz by simp
  have "loaded (kern M)" unfolding loaded_def Let_def s u using ta n z by auto
  then obtain M' where M': "main haddr M = Some M'" "kinv (kern M')" "r_eip (cpu M') = 0x100000"
    "\<forall>i. 0 \<le> i \<and> i < int (length usr) \<longrightarrow> uld (mm (kern M')) (L_USER_START + i) = Some (ram (mm (kern M)) (0x10000 + int (length sys) + i))"
    using main_starts [of M haddr] unfolding s u by blast
  have "ram (mm (kern M)) (0x10000 + int (length sys) + int i) = usr ! i" if "i < length usr" for i
  proof -
    have "ram (mm (kern M)) (0x10000 + int (length sys + i)) = img ! (512 + (length sys + i))"
      by (rule l [unfolded loaded_at_def, rule_format]) (use len that in simp)
    also have "\<dots> = usr ! i" using P(3) [of "length sys + i"] that sz by (simp add: nth_append)
    finally show ?thesis by (simp add: add.assoc)
  qed
  then show ?thesis using bm len M' by (intro exI [of _ img] exI [of _ M']) auto
qed

text \<open>The builder on a system of 0x24000 bytes and a user program of two bytes, and the machine with its output loaded.\<close>

definition demo_files :: "string \<Rightarrow> 8 word list option" where
  "demo_files = [''bootsect'' \<mapsto> minix_hdr @ replicate 24 0 @ replicate 510 0 @ [0x55, 0xAA], ''system'' \<mapsto> replicate 0x24000 0x90, ''user'' \<mapsto> [0xEB, 0xFE]]"

definition demo_build :: build where
  "demo_build = \<lparr>buf = replicate 1024 0, rest = [], out = [], pos = 0\<rparr>"

definition demo_image :: "8 word list" where
  "demo_image = image_of (replicate 510 0 @ [0x55, 0xAA]) (replicate 0x24000 0x90) [0xEB, 0xFE]"

definition demo_machine :: machine where
  "demo_machine = blank_machine\<lparr>kern := (kern blank_machine)\<lparr>mm := (mm (kern blank_machine))\<lparr>ram := (\<lambda>a. demo_image ! (512 + nat (a - 0x10000)))\<rparr>\<rparr>\<rparr>"

lemma demo_boot: "boot_file (minix_hdr @ replicate 24 0 @ replicate 510 0 @ [0x55, 0xAA]) (minix_hdr @ replicate 24 0) (replicate 510 0 @ [0x55, 0xAA])"
  by (simp add: boot_file_def minix_hdr_def nth_append)

theorem image_boots_witness:
  "\<exists>img M'. build_main demo_files True [''build'', ''bootsect'', ''system'', ''user''] demo_build = Inr img \<and>
    main (\<lambda>_. 0) demo_machine = Some M' \<and> kinv (kern M') \<and> uld (mm (kern M')) (L_USER_START + 1) = Some 0xFE"
proof -
  have f: "demo_files ''bootsect'' = Some (minix_hdr @ replicate 24 0 @ replicate 510 0 @ [0x55, 0xAA])"
    "demo_files ''system'' = Some (replicate 0x24000 0x90)" "demo_files ''user'' = Some [0xEB, 0xFE]" by (simp_all add: demo_files_def)
  have b: "ready demo_build" "out demo_build = []" by (simp_all add: ready_def demo_build_def)
  have bm: "build_main demo_files True [''build'', ''bootsect'', ''system'', ''user''] demo_build = Inr demo_image"
    unfolding demo_image_def by (rule build_main_ok [OF f(1) demo_boot f(2,3)]) (use b in auto)
  have l: "loaded_at img (kern demo_machine)" if "build_main demo_files True [''build'', ''bootsect'', ''system'', ''user''] demo_build = Inr img" for img
    using that bm by (simp add: loaded_at_def demo_machine_def)
  have z: "\<forall>i. init (sem (kern demo_machine) i) = 0 \<and> count (sem (kern demo_machine) i) = 0" "cur (kern demo_machine) = 0"
    "task_addr (lay (kern demo_machine)) = 0x20000"
    by (simp_all add: demo_machine_def blank_machine_def blank_kernel_def)
  obtain M' where M': "main (\<lambda>_. 0) demo_machine = Some M'" "kinv (kern M')" "\<forall>i<2. uld (mm (kern M')) (L_USER_START + int i) = Some ([0xEB, 0xFE] ! i)"
    using image_boots [OF f(1) demo_boot f(2,3) b l _ _ _ _ _ z(1,2), where haddr = "\<lambda>_. 0" and prog = "''build''"] z(3) by (auto simp: numeral_2_eq_2)
  then show ?thesis using bm M'(3) [rule_format, of 1] by (intro exI [of _ demo_image] exI [of _ M']) simp
qed

end
